(* ===== verification/Prelude.thy ===== *)
theory Prelude
  imports Main "HOL-Library.Word" "HOL-Library.Multiset" "HOL-Library.Sublist"
    "HOL-Library.Signed_Division"
begin

text \<open>
  Shared vocabulary of the development: the Go types the components exchange (byte slices,
  \<open>common.Hash\<close>, \<open>common.Address\<close>, \<open>int64\<close>, \<open>uint64\<close>, \<open>*big.Int\<close>), the
  big-endian codecs of \<open>encoding/binary\<close>, Go's truncated division, the lexicographic
  \<open>bytes.Compare\<close>, and the list lemmas the component theories use.
\<close>

section \<open>Types\<close>

unbundle bit_operations_syntax

type_synonym byte = "8 word"
type_synonym bytes = "byte list"
type_synonym uint16 = "16 word"
type_synonym uint32 = "32 word"
type_synonym uint64 = "64 word"

text \<open>A Go \<open>int64\<close> is a 64-bit word read with \<open>sint\<close>; arithmetic wraps.\<close>

type_synonym int64 = "64 word"

text \<open>
  \<open>common.Hash\<close> and \<open>common.Address\<close> are byte arrays of a fixed length; they are byte
  lists here, and \<open>is_hash\<close>, \<open>is_addr\<close> state the length the Go types enforce.
\<close>

type_synonym hash = bytes
type_synonym address = bytes

definition HashLength :: nat where
  "HashLength = 32"

definition AddressLength :: nat where
  "AddressLength = 20"

definition is_addr :: "address \<Rightarrow> bool" where
  "is_addr a \<longleftrightarrow> length a = AddressLength"

text \<open>The zero value of \<open>common.Hash\<close> and of \<open>common.Address\<close>.\<close>

definition zeroHash :: hash where
  "zeroHash = replicate HashLength 0"

definition zeroAddress :: address where
  "zeroAddress = replicate AddressLength 0"

text \<open>
  \<open>SetBytes\<close> on a fixed-size array: keep the last \<open>n\<close> bytes of a longer slice, pad a
  shorter one with zero bytes on the left.
\<close>

definition setBytes :: "nat \<Rightarrow> bytes \<Rightarrow> bytes" where
  "setBytes n b = (let b' = (if n < length b then drop (length b - n) b else b)
                   in replicate (n - length b') 0 @ b')"

definition BytesToHash :: "bytes \<Rightarrow> hash" where
  "BytesToHash b = setBytes HashLength b"

definition BytesToAddress :: "bytes \<Rightarrow> address" where
  "BytesToAddress b = setBytes AddressLength b"

lemma length_setBytes [simp]: "length (setBytes n b) = n"
  by (simp add: setBytes_def Let_def)

lemma setBytes_id [simp]: "length b = n \<Longrightarrow> setBytes n b = b"
  by (simp add: setBytes_def)

lemma BytesToAddress_id: "is_addr a \<Longrightarrow> BytesToAddress a = a"
  by (simp add: BytesToAddress_def is_addr_def)

lemma is_addr_BytesToAddress: "is_addr (BytesToAddress b)"
  by (simp add: BytesToAddress_def is_addr_def)

section \<open>Results\<close>

text \<open>
  A Go function returning \<open>(T, error)\<close> is modelled by \<open>'e + 'a\<close>: \<open>Inl\<close> is a non-nil
  error (or a panic, where the component's error type has a constructor for it).
\<close>

definition is_ok :: "'e + 'a \<Rightarrow> bool" where
  "is_ok r \<longleftrightarrow> (case r of Inl _ \<Rightarrow> False | Inr _ \<Rightarrow> True)"

lemma is_ok_simps [simp]: "is_ok (Inr x)" "\<not> is_ok (Inl e)"
  by (simp_all add: is_ok_def)

lemma is_ok_iff: "is_ok r \<longleftrightarrow> (\<exists>x. r = Inr x)"
  by (cases r) auto

section \<open>Go integer division\<close>

text \<open>
  Go's \<open>/\<close> and \<open>%\<close> on \<open>int64\<close> truncate towards zero. A zero divisor panics; callers
  test it first.
\<close>

definition quot64 :: "int64 \<Rightarrow> int64 \<Rightarrow> int64" where
  "quot64 a b = word_of_int (sint a sdiv sint b)"

definition rem64 :: "int64 \<Rightarrow> int64 \<Rightarrow> int64" where
  "rem64 a b = word_of_int (sint a smod sint b)"

lemma sint64_eq: "- (2 ^ 63) \<le> n \<Longrightarrow> n < 2 ^ 63 \<Longrightarrow> sint (word_of_int n :: int64) = n"
  by (simp add: sint_sbintrunc' signed_take_bit_int_eq_self)

lemma sint64_bounds: "- (2 ^ 63) \<le> sint (w :: int64)" "sint (w :: int64) < 2 ^ 63"
  using sint_ge [of w] sint_lt [of w] by simp_all

lemma sdiv_nonneg: "0 \<le> (a::int) \<Longrightarrow> 0 \<le> b \<Longrightarrow> a sdiv b = a div b"
  by (simp add: signed_divide_int_def sgn_if)

lemma smod_nonneg: "0 \<le> (a::int) \<Longrightarrow> 0 < b \<Longrightarrow> a smod b = a mod b"
  by (simp add: signed_modulo_int_def signed_divide_int_def sgn_if minus_div_mult_eq_mod)

lemma sint_quot64:
  assumes "0 \<le> sint a" "0 < sint b"
  shows "sint (quot64 a b) = sint a div sint b"
proof -
  have "sint a div sint b \<le> sint a div 1"
    using assms by (intro zdiv_mono2) auto
  moreover have "0 \<le> sint a div sint b"
    using assms by (simp add: pos_imp_zdiv_nonneg_iff)
  ultimately show ?thesis
    using sint64_bounds(2) [of a] assms
    by (simp add: quot64_def sdiv_nonneg sint64_eq)
qed

lemma sint_rem64:
  assumes "0 \<le> sint a" "0 < sint b"
  shows "sint (rem64 a b) = sint a mod sint b"
proof -
  have "0 \<le> sint a mod sint b" "sint a mod sint b < sint b"
    using assms by simp_all
  moreover have "sint b < 2 ^ 63" by (rule sint64_bounds)
  ultimately have "sint (word_of_int (sint a mod sint b) :: int64) = sint a mod sint b"
    by (intro sint64_eq) linarith+
  then show ?thesis
    using assms by (simp add: rem64_def smod_nonneg)
qed

section \<open>Big-endian integers\<close>

text \<open>
  \<open>be_bytes n x\<close> is \<open>x\<close> in \<open>n\<close> big-endian bytes (the low \<open>8 * n\<close> bits of \<open>x\<close>);
  \<open>be_val\<close> reads a byte slice back, as \<open>big.Int.SetBytes\<close> does.
\<close>

fun be_bytes :: "nat \<Rightarrow> nat \<Rightarrow> bytes" where
  "be_bytes 0 x = []"
| "be_bytes (Suc n) x = be_bytes n (x div 256) @ [word_of_nat (x mod 256)]"

definition be_val :: "bytes \<Rightarrow> nat" where
  "be_val bs = foldl (\<lambda>a b. a * 256 + unat b) 0 bs"

lemma length_be_bytes [simp]: "length (be_bytes n x) = n"
  by (induction n arbitrary: x) auto

lemma be_val_Nil [simp]: "be_val [] = 0"
  by (simp add: be_val_def)

lemma be_val_snoc [simp]: "be_val (bs @ [b]) = be_val bs * 256 + unat b"
  by (simp add: be_val_def)

lemma unat_byte_lt: "unat (b :: byte) < 256"
  using unsigned_less [where ?'a = nat, of b] by simp

lemma be_val_be_bytes: "be_val (be_bytes n x) = x mod 256 ^ n"
proof (induction n arbitrary: x)
  case 0
  then show ?case by simp
next
  case (Suc n)
  have "x mod 256 ^ Suc n = 256 * (x div 256 mod 256 ^ n) + x mod 256"
    by (simp add: mod_mult2_eq)
  then show ?case
    using Suc by (simp add: unat_of_nat)
qed

lemma be_val_bound: "be_val bs < 256 ^ length bs"
proof (induction bs rule: rev_induct)
  case Nil
  then show ?case by simp
next
  case (snoc b bs)
  have "be_val bs * 256 + unat b < (be_val bs + 1) * 256"
    using unat_byte_lt [of b] by simp
  also have "\<dots> \<le> 256 ^ length bs * 256"
    using snoc by (intro mult_le_mono1) simp
  finally show ?case by simp
qed

lemma be_bytes_be_val: "be_bytes (length bs) (be_val bs) = bs"
proof (induction bs rule: rev_induct)
  case Nil
  then show ?case by simp
next
  case (snoc b bs)
  have "(be_val bs * 256 + unat b) div 256 = be_val bs"
    using unat_byte_lt [of b] by simp
  moreover have "(be_val bs * 256 + unat b) mod 256 = unat b"
    using unat_byte_lt [of b] by simp
  ultimately show ?case
    using snoc by simp
qed

lemma be_val_Cons: "be_val (x # c) = unat x * 256 ^ length c + be_val c"
  by (induction c rule: rev_induct) (simp_all add: be_val_def algebra_simps)

lemma be_val_Cons_ge: "x \<noteq> 0 \<Longrightarrow> 256 ^ length c \<le> be_val (x # c)"
  by (cases "unat x") (auto simp: be_val_Cons unat_eq_zero)

lemma be_val_inject: "length bs = length cs \<Longrightarrow> be_val bs = be_val cs \<Longrightarrow> bs = cs"
  by (metis be_bytes_be_val)

text \<open>\<open>binary.BigEndian.PutUint64\<close> into a fresh 8-byte slice, and \<open>Uint64\<close>.\<close>

definition putUint64 :: "uint64 \<Rightarrow> bytes" where
  "putUint64 v = be_bytes 8 (unat v)"

definition getUint64 :: "bytes \<Rightarrow> uint64 option" where
  "getUint64 b = (if length b < 8 then None else Some (word_of_nat (be_val (take 8 b))))"

lemma length_putUint64 [simp]: "length (putUint64 v) = 8"
  by (simp add: putUint64_def)

lemma getUint64_putUint64 [simp]: "getUint64 (putUint64 v @ rest) = Some v"
proof -
  have "unat v < 256 ^ 8"
    using unsigned_less [where ?'a = nat, of v] by simp
  then have "be_val (be_bytes 8 (unat v)) = unat v"
    by (simp only: be_val_be_bytes) simp
  then show ?thesis
    by (simp add: getUint64_def putUint64_def)
qed

lemma putUint64_inject [simp]: "putUint64 v = putUint64 w \<longleftrightarrow> v = w"
  by (metis getUint64_putUint64 option.inject)

section \<open>Byte slices\<close>

text \<open>\<open>bytes.Compare(a, b) <= 0\<close>, \<open>bytes.HasPrefix\<close>.\<close>

fun bytes_le :: "bytes \<Rightarrow> bytes \<Rightarrow> bool" where
  "bytes_le [] ys = True"
| "bytes_le (x # xs) [] = False"
| "bytes_le (x # xs) (y # ys) = (x < y \<or> x = y \<and> bytes_le xs ys)"

definition hasPrefix :: "bytes \<Rightarrow> bytes \<Rightarrow> bool" where
  "hasPrefix s p \<longleftrightarrow> take (length p) s = p"

lemma bytes_le_refl [simp]: "bytes_le xs xs"
  by (induction xs) auto

lemma bytes_le_trans: "bytes_le xs ys \<Longrightarrow> bytes_le ys zs \<Longrightarrow> bytes_le xs zs"
proof (induction xs ys arbitrary: zs rule: bytes_le.induct)
  case (3 x xs y ys)
  then show ?case by (cases zs) auto
qed auto

lemma bytes_le_antisym: "bytes_le xs ys \<Longrightarrow> bytes_le ys xs \<Longrightarrow> xs = ys"
proof (induction xs ys rule: bytes_le.induct)
  case (1 ys)
  then show ?case by (cases ys) auto
qed auto

lemma bytes_le_linear: "bytes_le xs ys \<or> bytes_le ys xs"
  by (induction xs ys rule: bytes_le.induct) auto

lemma hasPrefix_iff: "hasPrefix s p \<longleftrightarrow> prefix p s"
  by (metis append_eq_conv_conj hasPrefix_def prefix_def)

lemma bytes_le_append: "bytes_le xs (xs @ ys)"
  by (induction xs) auto

lemma bytes_le_append_iff [simp]: "bytes_le (xs @ ys) (xs @ zs) \<longleftrightarrow> bytes_le ys zs"
  by (induction xs) auto

end
