(* ===== verification/Hex_Encoding.thy ===== *)
theory Hex_Encoding
  imports Prelude
begin

text \<open>
  The three key encodings of \<open>trie/encoding.go\<close>: KEYBYTES (the caller's bytes), HEX (one
  nibble per byte, with the terminator 16 after a complete key) and COMPACT (the hex-prefix
  encoding stored in nodes). The round trips between them are proved for every key.
\<close>

section \<open>Definitions\<close>

definition hasTerm :: "bytes \<Rightarrow> bool" where
  "hasTerm s \<longleftrightarrow> s \<noteq> [] \<and> last s = 16"

text \<open>
  \<open>decodeNibbles\<close> fills one byte per pair of nibbles. Both callers pass an even number of
  nibbles, so the out-of-range read at a trailing odd nibble is not reached.
\<close>

fun decodeNibbles :: "bytes \<Rightarrow> bytes" where
  "decodeNibbles (a # b # r) = (push_bit 4 a OR b) # decodeNibbles r"
| "decodeNibbles _ = []"

definition keybytesToHex :: "bytes \<Rightarrow> bytes" where
  "keybytesToHex str = concat (map (\<lambda>b. [b div 16, b mod 16]) str) @ [16]"

definition hexToKeybytes :: "bytes \<Rightarrow> bytes option" where
  \<comment> \<open>\<open>None\<close> is the panic on a key of odd length\<close>
  "hexToKeybytes hex =
     (let hex' = (if hasTerm hex then butlast hex else hex)
      in if odd (length hex') then None else Some (decodeNibbles hex'))"

definition hexToCompact :: "bytes \<Rightarrow> bytes" where
  "hexToCompact hex =
     (let t = hasTerm hex;
          hex' = (if t then butlast hex else hex);
          b0 = push_bit 5 (if t then 1 else 0)
      in if odd (length hex') then (b0 OR push_bit 4 1 OR hd hex') # decodeNibbles (tl hex')
         else b0 # decodeNibbles hex')"

definition compactToHex :: "bytes \<Rightarrow> bytes option" where
  \<comment> \<open>\<open>None\<close> is the slice panic on empty input, where \<open>base\<close> is only the terminator\<close>
  "compactToHex compact =
     (let base = keybytesToHex compact;
          base' = (if hd base < 2 then butlast base else base);
          chop = 2 - unat (hd base AND 1)
      in if length base' < chop then None else Some (drop chop base'))"

fun prefixLen :: "bytes \<Rightarrow> bytes \<Rightarrow> nat" where
  "prefixLen (a # as) (b # bs) = (if a \<noteq> b then 0 else Suc (prefixLen as bs))"
| "prefixLen _ _ = 0"

section \<open>Well-formed keys\<close>

definition is_nibbles :: "bytes \<Rightarrow> bool" where
  "is_nibbles xs \<longleftrightarrow> (\<forall>x \<in> set xs. x < 16)"

definition valid_hex :: "bytes \<Rightarrow> bool" where
  "valid_hex h \<longleftrightarrow> is_nibbles (if hasTerm h then butlast h else h)"

text \<open>A complete key: nibbles followed by the terminator.\<close>

definition term_key :: "bytes \<Rightarrow> bool" where
  "term_key k \<longleftrightarrow> k \<noteq> [] \<and> last k = 16 \<and> is_nibbles (butlast k)"

lemma is_nibbles_simps [simp]:
  "is_nibbles []"
  "is_nibbles (x # xs) \<longleftrightarrow> x < 16 \<and> is_nibbles xs"
  "is_nibbles (xs @ ys) \<longleftrightarrow> is_nibbles xs \<and> is_nibbles ys"
  by (auto simp: is_nibbles_def)

lemma term_key_Cons [simp]:
  "term_key (x # xs) \<longleftrightarrow> (if xs = [] then x = 16 else x < 16 \<and> term_key xs)"
  by (auto simp: term_key_def)

lemma term_key_Nil [simp]: "\<not> term_key []"
  by (simp add: term_key_def)

lemma term_key_append: "ys \<noteq> [] \<Longrightarrow> term_key (xs @ ys) \<longleftrightarrow> is_nibbles xs \<and> term_key ys"
  by (auto simp: term_key_def butlast_append)

lemma term_key_snoc [simp]: "term_key (xs @ [y]) \<longleftrightarrow> is_nibbles xs \<and> y = 16"
  by (auto simp: term_key_def)

lemma term_key_prefix: "term_key xs \<Longrightarrow> term_key ys \<Longrightarrow> prefix xs ys \<Longrightarrow> xs = ys"
proof (induction xs arbitrary: ys)
  case (Cons x xs)
  then show ?case
    by (cases ys) (auto split: if_splits)
qed simp

lemma term_key_lt17: "term_key k \<Longrightarrow> x \<in> set k \<Longrightarrow> x < 17"
proof -
  assume "term_key k" "x \<in> set k"
  then obtain xs where "k = xs @ [16]" "is_nibbles xs"
    by (metis append_butlast_last_id term_key_def)
  with \<open>x \<in> set k\<close> show ?thesis
    by (auto simp: is_nibbles_def word_less_nat_alt)
qed

section \<open>Nibbles\<close>

lemma nibble_take_bit:
  fixes a :: byte
  assumes "a < 16" shows "take_bit 4 a = a"
proof -
  have "unat (a mod 16) = unat a"
    using assms by (simp add: unat_mod word_less_nat_alt)
  then show ?thesis
    by (simp add: take_bit_eq_mod word_unat_eq_iff)
qed

lemma nibble_split:
  fixes a b :: byte
  assumes "a < 16" "b < 16"
  shows "(push_bit 4 a OR b) div 16 = a" "(push_bit 4 a OR b) mod 16 = b"
proof -
  have "drop_bit 4 b = drop_bit 4 (take_bit 4 b)"
    by (simp only: nibble_take_bit [OF assms(2)])
  then have "drop_bit 4 b = 0"
    by (simp add: drop_bit_take_bit)
  moreover have "drop_bit 4 (push_bit 4 a) = take_bit 4 a"
    by (simp add: bit_eq_iff bit_simps)
  ultimately have "drop_bit 4 (push_bit 4 a OR b) = a"
    by (simp add: drop_bit_or nibble_take_bit [OF assms(1)])
  then show "(push_bit 4 a OR b) div 16 = a"
    by (simp add: drop_bit_eq_div)
  have "take_bit 4 (push_bit 4 a OR b) = take_bit 4 b"
    by (simp add: bit_eq_iff bit_simps) auto
  then have "take_bit 4 (push_bit 4 a OR b) = b"
    using nibble_take_bit [OF assms(2)] by simp
  then show "(push_bit 4 a OR b) mod 16 = b"
    by (simp add: take_bit_eq_mod)
qed
lemma nibble_join [simp]:
  fixes b :: byte
  shows "push_bit 4 (b div 16) OR b mod 16 = b"
proof -
  have "push_bit 4 (drop_bit 4 b) OR take_bit 4 b = b"
    by (simp add: bit_eq_iff bit_simps) auto
  then show ?thesis
    by (simp add: drop_bit_eq_div take_bit_eq_mod)
qed

lemma byte_div_16 [simp]: "(b :: byte) div 16 < 16"
proof -
  have "unat b < 256"
    by (rule unat_byte_lt)
  then show ?thesis
    by (simp add: word_less_nat_alt unat_div)
qed

lemma byte_mod_16 [simp]: "(b :: byte) mod 16 < 16"
  by (simp add: word_less_nat_alt unat_mod)

section \<open>Round trips\<close>

lemma keybytesToHex_Nil [simp]: "keybytesToHex [] = [16]"
  by (simp add: keybytesToHex_def)

lemma keybytesToHex_Cons [simp]:
  "keybytesToHex (b # bs) = b div 16 # b mod 16 # keybytesToHex bs"
  by (simp add: keybytesToHex_def)

lemma keybytesToHex_append:
  "keybytesToHex (xs @ ys) = butlast (keybytesToHex xs) @ keybytesToHex ys"
  by (simp add: keybytesToHex_def butlast_append)

lemma keybytesToHex_not_Nil [simp]: "keybytesToHex bs \<noteq> []"
  by (simp add: keybytesToHex_def)

lemma length_keybytesToHex [simp]: "length (keybytesToHex bs) = 2 * length bs + 1"
  by (induction bs) auto

lemma term_key_keybytesToHex [simp]: "term_key (keybytesToHex bs)"
  by (induction bs) auto

lemma decodeNibbles_keybytes: "decodeNibbles (butlast (keybytesToHex bs)) = bs"
  by (induction bs) auto

lemma hasTerm_term_key: "term_key k \<Longrightarrow> hasTerm k"
  by (simp add: term_key_def hasTerm_def)

lemma hexToKeybytes_keybytesToHex [simp]: "hexToKeybytes (keybytesToHex bs) = Some bs"
proof -
  have "hasTerm (keybytesToHex bs)"
    by (intro hasTerm_term_key term_key_keybytesToHex)
  moreover have "even (length (butlast (keybytesToHex bs)))"
    by simp
  ultimately show ?thesis
    by (simp add: hexToKeybytes_def decodeNibbles_keybytes Let_def)
qed

lemma keybytesToHex_inject [simp]: "keybytesToHex a = keybytesToHex b \<longleftrightarrow> a = b"
  by (metis hexToKeybytes_keybytesToHex option.inject)

lemma keybytes_decodeNibbles:
  "is_nibbles h \<Longrightarrow> even (length h) \<Longrightarrow> butlast (keybytesToHex (decodeNibbles h)) = h"
proof (induction h rule: decodeNibbles.induct)
  case (1 a b r)
  then show ?case
    by (simp add: nibble_split)
qed auto

lemma keybytesToHex_decodeNibbles:
  "is_nibbles h \<Longrightarrow> even (length h) \<Longrightarrow> keybytesToHex (decodeNibbles h) = h @ [16]"
  using keybytes_decodeNibbles [of h]
  by (metis append_butlast_last_id keybytesToHex_not_Nil term_key_def term_key_keybytesToHex)

text \<open>
  The first byte of the compact form carries the two flags (odd length, terminator); its
  high nibble is what \<open>compactToHex\<close> reads.
\<close>

lemma compact_head_odd:
  fixes x :: byte
  assumes "x < 16"
  shows "(push_bit 5 (if t then 1 else 0) OR push_bit 4 1 OR x) div 16 = (if t then 3 else 1)"
    and "(push_bit 5 (if t then 1 else 0) OR push_bit 4 1 OR x) mod 16 = x"
proof -
  have "push_bit 5 (if t then 1 else 0) OR push_bit 4 1 OR x = push_bit 4 (if t then 3 else 1) OR x"
    by (simp add: or.assoc [symmetric])
  then show "(push_bit 5 (if t then 1 else 0) OR push_bit 4 1 OR x) div 16 = (if t then 3 else 1)"
    and "(push_bit 5 (if t then 1 else 0) OR push_bit 4 1 OR x) mod 16 = x"
    using nibble_split [of "if t then 3 else 1" x] assms by simp_all
qed

lemma compactToHex_Cons:
  "compactToHex (b # bs) =
     (let base = b div 16 # b mod 16 # keybytesToHex bs;
          base' = (if b div 16 < 2 then butlast base else base)
      in Some (drop (2 - unat (b div 16 AND 1)) base'))"
  by (simp add: compactToHex_def Let_def not_less le_diff_conv)

lemma compactToHex_hexToCompact:
  assumes "valid_hex h"
  shows "compactToHex (hexToCompact h) = Some h"
proof -
  define h' where "h' = (if hasTerm h then butlast h else h)"
  have nib: "is_nibbles h'"
    using assms by (simp add: valid_hex_def h'_def)
  have h: "h = (if hasTerm h then h' @ [16] else h')"
    by (metis append_butlast_last_id h'_def hasTerm_def)
  show ?thesis
  proof (cases "odd (length h')")
    case True
    then obtain x xs where xs: "h' = x # xs" "even (length xs)"
      by (cases h') auto
    have base: "keybytesToHex (decodeNibbles xs) = xs @ [16]"
      using nib xs by (simp add: keybytesToHex_decodeNibbles)
    have x: "x < 16"
      using nib xs by simp
    show ?thesis
      using True xs(1) h compact_head_odd [OF x, of "hasTerm h"]
      by (auto simp: hexToCompact_def h'_def [symmetric] compactToHex_Cons base Let_def)
  next
    case False
    have base: "keybytesToHex (decodeNibbles h') = h' @ [16]"
      using nib False by (simp add: keybytesToHex_decodeNibbles)
    show ?thesis
      using False h
      by (auto simp: hexToCompact_def h'_def [symmetric] compactToHex_Cons base Let_def)
  qed
qed

lemma hexToCompact_inject:
  "valid_hex a \<Longrightarrow> valid_hex b \<Longrightarrow> hexToCompact a = hexToCompact b \<longleftrightarrow> a = b"
  by (metis compactToHex_hexToCompact option.inject)

section \<open>Common prefixes\<close>

lemma prefixLen_le: "prefixLen a b \<le> length a" "prefixLen a b \<le> length b"
  by (induction a b rule: prefixLen.induct) auto

lemma take_prefixLen: "take (prefixLen a b) a = take (prefixLen a b) b"
  by (induction a b rule: prefixLen.induct) auto

lemma prefixLen_maximal:
  "prefixLen a b < length a \<Longrightarrow> prefixLen a b < length b \<Longrightarrow>
   a ! prefixLen a b \<noteq> b ! prefixLen a b"
  by (induction a b rule: prefixLen.induct) auto

lemma prefixLen_eq_length_iff: "prefixLen a b = length b \<longleftrightarrow> prefix b a"
  by (induction a b rule: prefixLen.induct) auto

lemma prefixLen_append [simp]: "prefixLen (xs @ ys) xs = length xs"
  by (simp add: prefixLen_eq_length_iff)

end
