(* ===== verification/Patricia.thy ===== *)
theory Patricia
  imports Hex_Encoding
begin

text \<open>
  The abstract Patricia tree: what a Merkle-Patricia trie of \<open>trie/trie.go\<close> is once every
  hash node has been loaded and the cache flags are forgotten. Lookup, insertion and deletion
  are defined by structural recursion; \<open>canon\<close> is the canonical shape the operations keep.
  Theory \<open>Trie\<close> shows that the code's operations, which work on lazily loaded nodes,
  implement these.
\<close>

section \<open>Trees\<close>

datatype xt = XNil | XVal bytes | XShort bytes xt | XFull "xt list"

text \<open>A short node, or its child alone when there is no key left.\<close>

definition xmk :: "bytes \<Rightarrow> xt \<Rightarrow> xt" where
  "xmk k t = (if k = [] then t else XShort k t)"

fun xlookup :: "xt \<Rightarrow> bytes \<Rightarrow> bytes option" where
  "xlookup XNil key = None"
| "xlookup (XVal v) key = (if key = [] then Some v else None)"
| "xlookup (XShort k t) key = (if prefix k key then xlookup t (drop (length k) key) else None)"
| "xlookup (XFull ts) key =
     (case key of [] \<Rightarrow> None
      | x # xs \<Rightarrow> if unat x < length ts then xlookup (ts ! unat x) xs else None)"

fun xinsert :: "xt \<Rightarrow> bytes \<Rightarrow> bytes \<Rightarrow> xt" where
  "xinsert XNil key v = xmk key (XVal v)"
| "xinsert (XVal w) key v = XVal v"
| "xinsert (XShort k t) key v =
     (let m = prefixLen key k in
      if m = length k then XShort k (xinsert t (drop m key) v)
      else xmk (take m key)
             (XFull ((replicate 17 XNil)
                [unat (k ! m) := xmk (drop (Suc m) k) t,
                 unat (key ! m) := xmk (drop (Suc m) key) (XVal v)])))"
| "xinsert (XFull ts) key v =
     (case key of [] \<Rightarrow> XFull ts
      | x # xs \<Rightarrow> if unat x < length ts then XFull (ts[unat x := xinsert (ts ! unat x) xs v])
                  else XFull ts)"

text \<open>A full node left with one child becomes a short node, merged with a short child.\<close>

definition live :: "xt list \<Rightarrow> nat list" where
  "live ts = filter (\<lambda>i. ts ! i \<noteq> XNil) [0..<length ts]"

definition xshort :: "bytes \<Rightarrow> xt \<Rightarrow> xt" where
  "xshort k t = (case t of XShort k' t' \<Rightarrow> XShort (k @ k') t' | _ \<Rightarrow> XShort k t)"

definition xcollapse :: "xt list \<Rightarrow> xt" where
  "xcollapse ts = (case live ts of [i] \<Rightarrow> xshort [word_of_nat i] (ts ! i) | _ \<Rightarrow> XFull ts)"

fun xdelete :: "xt \<Rightarrow> bytes \<Rightarrow> xt" where
  "xdelete XNil key = XNil"
| "xdelete (XVal v) key = XNil"
| "xdelete (XShort k t) key =
     (if \<not> prefix k key then XShort k t
      else if length key = length k then XNil
      else xshort k (xdelete t (drop (length k) key)))"
| "xdelete (XFull ts) key =
     (case key of [] \<Rightarrow> XFull ts
      | x # xs \<Rightarrow> if unat x < length ts then xcollapse (ts[unat x := xdelete (ts ! unat x) xs])
                  else XFull ts)"

section \<open>Canonical trees\<close>

text \<open>
  In a canonical tree a value hangs below a complete key, an extension points to a branch,
  and a branch has at least two children: nibble children 0 to 15 are trees, child 16 is a
  value. Values are not empty, since an empty value means deletion.
\<close>

definition val_child :: "xt \<Rightarrow> bool" where
  "val_child t \<longleftrightarrow> (case t of XNil \<Rightarrow> True | XVal v \<Rightarrow> v \<noteq> [] | _ \<Rightarrow> False)"

function (sequential) canon :: "xt \<Rightarrow> bool" where
  "canon XNil = False"
| "canon (XVal v) = False"
| "canon (XShort k (XVal v)) = (term_key k \<and> v \<noteq> [])"
| "canon (XShort k (XFull ts)) = (k \<noteq> [] \<and> is_nibbles k \<and> canon (XFull ts))"
| "canon (XShort k t) = False"
| "canon (XFull ts) =
     (length ts = 17 \<and> (\<forall>t \<in> set (butlast ts). t = XNil \<or> canon t) \<and> val_child (last ts)
      \<and> 2 \<le> length (live ts))"
  by pat_completeness auto
termination
proof (relation "measure size")
  show "wf (measure size)" by simp
next
  fix k :: bytes and ts
  show "(XFull ts, XShort k (XFull ts)) \<in> measure size" by simp
next
  fix ts :: "xt list" and t
  assume "t \<in> set (butlast ts)"
  then have "t \<in> set ts" by (rule in_set_butlastD)
  then show "(t, XFull ts) \<in> measure size"
    by (auto simp: less_Suc_eq_le intro: size_list_estimation')
qed

definition canon_root :: "xt \<Rightarrow> bool" where
  "canon_root t \<longleftrightarrow> t = XNil \<or> canon t"

text \<open>
  The subtree met with the rest of a complete key: a value when nothing is left, a canonical
  tree (or nothing) otherwise.
\<close>

definition fits :: "xt \<Rightarrow> bytes \<Rightarrow> bool" where
  "fits t key \<longleftrightarrow> (if key = [] then val_child t else term_key key \<and> canon_root t)"

section \<open>Children\<close>

lemma set_live: "set (live ts) = {i. i < length ts \<and> ts ! i \<noteq> XNil}"
  by (auto simp: live_def)

lemma distinct_live: "distinct (live ts)"
  by (simp add: live_def)

lemma length_live: "length (live ts) = card {i. i < length ts \<and> ts ! i \<noteq> XNil}"
  by (metis distinct_card distinct_live set_live)

lemma canon_full_iff:
  "canon (XFull ts) \<longleftrightarrow>
     length ts = 17 \<and> (\<forall>i < 16. canon_root (ts ! i)) \<and> val_child (ts ! 16) \<and> 2 \<le> length (live ts)"
proof (cases "length ts = 17")
  case True
  then have "last ts = ts ! 16"
    by (subst last_conv_nth) auto
  moreover have "set (butlast ts) = {ts ! i | i. i < 16}"
    using True by (force simp: set_conv_nth nth_butlast)
  ultimately show ?thesis
    using True by (auto simp: canon_root_def)
qed simp

declare canon.simps(7) [simp del]

lemma unat_neq: "x \<noteq> y \<Longrightarrow> unat (x :: byte) \<noteq> unat y"
  by (simp add: word_unat_eq_iff)

lemma unat_term_key: "term_key (x # xs) \<Longrightarrow> unat x = 16 \<longleftrightarrow> xs = []"
  by (auto simp: word_less_nat_alt split: if_splits)

lemma fits_child:
  assumes "canon (XFull ts)" "term_key (x # xs)"
  shows "unat x < 17" "fits (ts ! unat x) xs"
proof -
  show "unat x < 17"
    using assms(2) by (auto simp: word_less_nat_alt split: if_splits)
  show "fits (ts ! unat x) xs"
    using assms by (auto simp: canon_full_iff fits_def word_less_nat_alt split: if_splits)
qed

lemma nibbles_not_term: "is_nibbles (xs @ ys) \<Longrightarrow> \<not> term_key xs"
  by (metis append_butlast_last_id is_nibbles_simps(2,3) less_irrefl term_key_def)

lemma fits_short:
  assumes "canon (XShort k t)" "term_key key" "prefix k key"
  shows "fits t (drop (length k) key)"
proof -
  obtain r where r: "key = k @ r"
    using assms(3) by (auto simp: prefix_def)
  show ?thesis
  proof (cases t)
    case (XVal v)
    then have "term_key k" "v \<noteq> []"
      using assms(1) by auto
    then have "r = []"
      using assms(2) r term_key_prefix [of k key] by auto
    then show ?thesis
      using XVal r \<open>v \<noteq> []\<close> by (simp add: fits_def val_child_def)
  next
    case (XFull ts)
    then have k: "k \<noteq> []" "is_nibbles k" "canon t"
      using assms(1) by auto
    then have "r \<noteq> []"
      using assms(2) r nibbles_not_term [of k "[]"] by auto
    then show ?thesis
      using assms(2) r k by (auto simp: fits_def canon_root_def term_key_append)
  qed (use assms(1) in auto)
qed

lemma canon_short_cases:
  assumes "canon (XShort k t)"
  obtains (leaf) v where "t = XVal v" "term_key k" "v \<noteq> []"
  | (ext) ts where "t = XFull ts" "k \<noteq> []" "is_nibbles k" "canon t"
  using assms by (cases t) auto

lemma canon_short_key: "canon (XShort k t) \<Longrightarrow> k \<noteq> []"
  by (cases t) auto

lemma prefixLen_split:
  assumes "prefixLen key k < length k" "prefixLen key k < length key"
  obtains p a b k' key' where "k = p @ a # k'" "key = p @ b # key'" "a \<noteq> b"
    "prefixLen key k = length p"
proof
  let ?m = "prefixLen key k"
  show "k = take ?m key @ k ! ?m # drop (Suc ?m) k"
    using assms id_take_nth_drop [of ?m k] take_prefixLen [of key k] by simp
  show "key = take ?m key @ key ! ?m # drop (Suc ?m) key"
    using assms id_take_nth_drop [of ?m key] by simp
  show "k ! ?m \<noteq> key ! ?m"
    using assms prefixLen_maximal [of key k] by simp
  show "?m = length (take ?m key)"
    using assms by simp
qed

lemma prefixLen_lt_key:
  assumes "canon (XShort k t)" "term_key key" "prefixLen key k < length k"
  shows "prefixLen key k < length key"
proof (rule ccontr)
  assume "\<not> ?thesis"
  then have "prefixLen key k = length key"
    using prefixLen_le(1) [of key k] by simp
  then have pre: "prefix key k"
    using take_prefixLen [of key k] by (metis take_all order_refl take_is_prefix)
  from assms(1) show False
  proof (cases rule: canon_short_cases)
    case leaf
    then have "key = k"
      using assms(2) pre term_key_prefix by blast
    then show False
      using \<open>prefixLen key k = length key\<close> assms(3) by simp
  next
    case ext
    then show False
      using assms(2) pre nibbles_not_term by (auto simp: prefix_def)
  qed
qed

section \<open>Insertion\<close>

lemma xlookup_xmk:
  "xlookup (xmk k t) key = (if prefix k key then xlookup t (drop (length k) key) else None)"
  by (simp add: xmk_def)

text \<open>The branch made where an insertion leaves the key of a short node.\<close>

definition xbranch :: "byte \<Rightarrow> xt \<Rightarrow> byte \<Rightarrow> xt \<Rightarrow> xt" where
  "xbranch a s b t = XFull ((replicate 17 XNil)[unat a := s, unat b := t])"

lemma xlookup_xbranch:
  assumes "unat a < 17" "unat b < 17" "a \<noteq> b" "unat x < 17"
  shows "xlookup (xbranch a s b t) (x # xs) =
           (if x = a then xlookup s xs else if x = b then xlookup t xs else None)"
proof -
  have eq: "unat y = unat z \<longleftrightarrow> y = z" for y z :: byte
    by (simp add: word_unat_eq_iff)
  show ?thesis
    using assms by (simp add: xbranch_def nth_list_update eq)
qed

lemma xinsert_short_split:
  assumes "k = p @ a # k'" "key = p @ b # key'" "a \<noteq> b"
  shows "xinsert (XShort k t) key v = xmk p (xbranch a (xmk k' t) b (xmk key' (XVal v)))"
proof -
  have "prefixLen key k = length p"
    using assms by (induction p arbitrary: k key) auto
  then show ?thesis
    using assms by (simp add: Let_def xbranch_def)
qed

lemma term_key_split:
  assumes "term_key (p @ b # r)"
  shows "is_nibbles p" "unat b < 17" "r = [] \<longrightarrow> b = 16" "r \<noteq> [] \<longrightarrow> b < 16 \<and> term_key r"
  using assms by (auto simp: term_key_append word_less_nat_alt split: if_splits)

lemma canon_short_split:
  assumes "canon (XShort (p @ a # k') t)"
  shows "unat a < 17" "is_nibbles p"
    and "if a = 16 then val_child (xmk k' t) else a < 16 \<and> canon (xmk k' t)"
    and "xmk k' t \<noteq> XNil"
proof -
  have "unat a < 17 \<and> is_nibbles p \<and> xmk k' t \<noteq> XNil \<and>
    (if a = 16 then val_child (xmk k' t) else a < 16 \<and> canon (xmk k' t))"
    using assms
  proof (cases rule: canon_short_cases)
    case (leaf v)
    note tk = term_key_split [OF leaf(2)]
    show ?thesis
    proof (cases "k' = []")
      case True
      then have "a = 16" using tk(3) by simp
      with True tk leaf show ?thesis by (simp add: xmk_def val_child_def)
    next
      case False
      then have "a < 16" "term_key k'" using tk(4) by simp_all
      moreover from this have "a \<noteq> 16" by auto
      ultimately show ?thesis
        using False tk leaf by (simp add: xmk_def)
    qed
  next
    case (ext ts)
    then have "a < 16" "is_nibbles p" "is_nibbles k'" by simp_all
    moreover from this have "a \<noteq> 16" "unat a < 17" by (auto simp: word_less_nat_alt)
    ultimately show ?thesis
      using ext by (simp add: xmk_def)
  qed
  then show "unat a < 17" "is_nibbles p" "xmk k' t \<noteq> XNil"
    "if a = 16 then val_child (xmk k' t) else a < 16 \<and> canon (xmk k' t)"
    by auto
qed

lemma xlookup_xinsert_short:
  assumes "canon (XShort k t)" "term_key key" "term_key key'" "\<not> prefix k key"
  shows "xlookup (xinsert (XShort k t) key v) key' =
           (if key' = key then Some v else xlookup (XShort k t) key')"
proof -
  have lt: "prefixLen key k < length k"
    using assms(4) prefixLen_le(2) [of key k] by (simp add: le_less prefixLen_eq_length_iff)
  obtain p a b k' r where s: "k = p @ a # k'" "key = p @ b # r" "a \<noteq> b"
    by (rule prefixLen_split [OF lt prefixLen_lt_key [OF assms(1,2) lt]])
  have ab: "unat a < 17" "unat b < 17" "is_nibbles p"
    using canon_short_split [of p a k' t] term_key_split [of p b r] assms s by auto
  show ?thesis
  proof (cases "prefix p key'")
    case True
    then obtain q where q: "key' = p @ q"
      by (auto simp: prefix_def)
    then obtain x xs where x: "q = x # xs"
      using assms(3) ab(3) nibbles_not_term [of p "[]"] by (cases q) auto
    have "unat x < 17"
      using term_key_split [of p x xs] assms(3) q x by simp
    then show ?thesis
      unfolding xinsert_short_split [OF s]
      using ab s q x by (auto simp: xlookup_xmk xlookup_xbranch prefix_def)
  next
    case False
    then have "\<not> prefix k key'" "key' \<noteq> key"
      using s by (auto simp: prefix_def)
    with False show ?thesis
      unfolding xinsert_short_split [OF s] by (simp add: xlookup_xmk)
  qed
qed

lemma xlookup_xinsert:
  assumes "fits t key" "fits t key'"
  shows "xlookup (xinsert t key v) key' = (if key' = key then Some v else xlookup t key')"
  using assms
proof (induction t key v arbitrary: key' rule: xinsert.induct)
  case (1 key v)
  then show ?case
    by (auto simp: xlookup_xmk prefix_def)
next
  case (2 w key v)
  then show ?case
    by (auto simp: fits_def canon_root_def split: if_splits)
next
  case (3 k t key v)
  then have c: "canon (XShort k t)" "term_key key" "term_key key'"
    by (auto simp: fits_def canon_root_def val_child_def split: if_splits)
  show ?case
  proof (cases "prefix k key")
    case True
    then have m: "prefixLen key k = length k"
      by (simp add: prefixLen_eq_length_iff)
    have ih: "xlookup (xinsert t (drop (length k) key) v) (drop (length k) key') =
      (if drop (length k) key' = drop (length k) key then Some v
       else xlookup t (drop (length k) key'))" if "prefix k key'"
      using "3.IH" m fits_short c True that by simp
    show ?thesis
      using ih True m by (auto simp: Let_def prefix_def)
  next
    case False
    then show ?thesis
      using xlookup_xinsert_short c by blast
  qed
next
  case (4 ts key v)
  then have c: "canon (XFull ts)" "term_key key" "term_key key'"
    by (auto simp: fits_def canon_root_def val_child_def split: if_splits)
  obtain x xs y ys where k: "key = x # xs" "key' = y # ys"
    using c by (cases key; cases key') auto
  have lt: "unat x < length ts" "unat y < length ts"
    using fits_child(1) c k by (auto simp: canon_full_iff)
  have "fits (ts ! unat x) xs" "fits (ts ! unat y) ys"
    using fits_child(2) [OF c(1)] c k by auto
  then have "x = y \<Longrightarrow> xlookup (xinsert (ts ! unat x) xs v) ys =
      (if ys = xs then Some v else xlookup (ts ! unat x) ys)"
    using "4.IH" [OF k(1) lt(1)] by simp
  then show ?case
    using k lt by (cases "x = y") (auto simp: unat_neq)
qed

lemma live_update_mono:
  "t \<noteq> XNil \<Longrightarrow> length (live ts) \<le> length (live (ts[i := t]))"
  unfolding length_live
  by (rule card_mono) (auto, metis nth_list_update_eq nth_list_update_neq)

lemma canon_xbranch:
  assumes "a \<noteq> b" "s \<noteq> XNil" "t \<noteq> XNil"
    and "if a = 16 then val_child s else a < 16 \<and> canon s"
    and "if b = 16 then val_child t else b < 16 \<and> canon t"
  shows "canon (xbranch a s b t)"
proof -
  let ?ts = "(replicate 17 XNil)[unat a := s, unat b := t]"
  have a: "if unat a = 16 then val_child s else unat a < 16 \<and> canon s"
    using assms(4) unat_neq [of a 16] by (auto simp: word_less_nat_alt split: if_splits)
  have b: "if unat b = 16 then val_child t else unat b < 16 \<and> canon t"
    using assms(5) unat_neq [of b 16] by (auto simp: word_less_nat_alt split: if_splits)
  have lt: "unat a < 17" "unat b < 17" "unat a \<noteq> unat b"
    using a b unat_neq [OF assms(1)] by (auto split: if_splits)
  have "{unat a, unat b} \<subseteq> {i. i < length ?ts \<and> ?ts ! i \<noteq> XNil}"
    using lt assms by (auto simp: nth_list_update)
  then have "card {unat a, unat b} \<le> length (live ?ts)"
    unfolding length_live by (intro card_mono) auto
  moreover have "\<forall>i<16. canon_root (?ts ! i)"
    using lt a b by (auto simp: nth_list_update canon_root_def split: if_splits)
  moreover have "val_child (?ts ! 16)"
    using lt a b by (auto simp: nth_list_update val_child_def split: if_splits)
  ultimately show ?thesis
    using lt by (simp add: xbranch_def canon_full_iff)
qed

lemma canon_xmk: "is_nibbles k \<Longrightarrow> canon (XFull ts) \<Longrightarrow> canon (xmk k (XFull ts))"
  by (simp add: xmk_def)

lemma canon_xinsert_short:
  assumes "canon (XShort k t)" "term_key key" "v \<noteq> []" "\<not> prefix k key"
  shows "canon (xinsert (XShort k t) key v)"
proof -
  have lt: "prefixLen key k < length k"
    using assms(4) prefixLen_le(2) [of key k] by (simp add: le_less prefixLen_eq_length_iff)
  obtain p a b k' r where s: "k = p @ a # k'" "key = p @ b # r" "a \<noteq> b"
    by (rule prefixLen_split [OF lt prefixLen_lt_key [OF assms(1,2) lt]])
  have "if b = 16 then val_child (xmk r (XVal v)) else b < 16 \<and> canon (xmk r (XVal v))"
    using term_key_split [of p b r] assms s by (auto simp: xmk_def val_child_def)
  then have "canon (xbranch a (xmk k' t) b (xmk r (XVal v)))"
    using canon_short_split [of p a k' t] assms s
    by (intro canon_xbranch) (auto simp: xmk_def)
  then show ?thesis
    using canon_short_split(2) [of p a k' t] assms s
    unfolding xinsert_short_split [OF s] by (simp add: canon_xmk xbranch_def)
qed

lemma canon_xinsert:
  assumes "fits t key" "v \<noteq> []"
  shows "if key = [] then xinsert t key v = XVal v else canon (xinsert t key v)"
  using assms
proof (induction t key v rule: xinsert.induct)
  case (3 k t key v)
  then have c: "canon (XShort k t)" "term_key key"
    by (auto simp: fits_def canon_root_def val_child_def split: if_splits)
  show ?case
  proof (cases "prefix k key")
    case True
    then have m: "prefixLen key k = length k"
      by (simp add: prefixLen_eq_length_iff)
    let ?r = "drop (length k) key"
    have ih: "if ?r = [] then xinsert t ?r v = XVal v else canon (xinsert t ?r v)"
      using "3.IH" m fits_short c True "3.prems" by simp
    from c(1) show ?thesis
    proof (cases rule: canon_short_cases)
      case (leaf w)
      then show ?thesis
        using m c "3.prems" by (auto simp: Let_def)
    next
      case (ext ts)
      then have "\<exists>us. xinsert t ?r v = XFull us"
        by (cases ?r) auto
      then obtain us where us: "xinsert t ?r v = XFull us" ..
      have "?r \<noteq> []"
        using fits_short [OF c True] ext by (auto simp: fits_def val_child_def)
      then show ?thesis
        using ih ext us m c by (auto simp: Let_def)
    qed
  next
    case False
    then show ?thesis
      using canon_xinsert_short c "3.prems" by auto
  qed
next
  case (4 ts key v)
  then have c: "canon (XFull ts)" "term_key key"
    by (auto simp: fits_def canon_root_def val_child_def split: if_splits)
  then obtain x xs where k: "key = x # xs"
    by (cases key) auto
  let ?u = "xinsert (ts ! unat x) xs v"
  have x: "unat x < length ts" "length ts = 17"
    using fits_child(1) c k by (auto simp: canon_full_iff)
  have ih: "if xs = [] then ?u = XVal v else canon ?u"
    using "4.IH" k x fits_child c "4.prems" by simp
  then have "length (live ts) \<le> length (live (ts[unat x := ?u]))"
    by (intro live_update_mono) (auto split: if_splits)
  moreover have "unat x = 16 \<longleftrightarrow> xs = []"
    using c(2) k by (simp add: unat_term_key)
  moreover have "canon_root (ts[unat x := ?u] ! i)" if "i < 16" for i
    using ih c(1) that calculation(2)
    by (cases "i = unat x") (auto simp: canon_full_iff canon_root_def)
  moreover have "val_child (ts[unat x := ?u] ! 16)"
    using ih c(1) calculation(2) x "4.prems"
    by (cases "unat x = 16") (auto simp: canon_full_iff val_child_def)
  ultimately show ?case
    using k x c(1) by (simp add: canon_full_iff)
qed (auto simp: fits_def canon_root_def xmk_def split: if_splits)

section \<open>Deletion\<close>

lemma xlookup_xshort:
  "xlookup (xshort k t) key = (if prefix k key then xlookup t (drop (length k) key) else None)"
  by (cases t) (auto simp: xshort_def prefix_def)

lemma xlookup_live: "\<forall>i < length ts. i \<notin> set (live ts) \<longrightarrow> ts ! i = XNil"
  by (simp add: set_live)

lemma xlookup_xcollapse:
  assumes "length ts = 17"
  shows "xlookup (xcollapse ts) key = xlookup (XFull ts) key"
proof (cases "\<exists>i. live ts = [i]")
  case True
  then obtain i where i: "live ts = [i]" by blast
  then have lt: "i < 17"
    using assms set_live [of ts] by auto
  have other: "ts ! j = XNil" if "j < 17" "j \<noteq> i" for j
    using xlookup_live [of ts] assms that i by simp
  show ?thesis
  proof (cases key)
    case (Cons x xs)
    have "x = word_of_nat i \<longleftrightarrow> unat x = i"
      using lt by (auto simp: unat_of_nat)
    then show ?thesis
      using Cons i lt assms other [of "unat x"] by (auto simp: xcollapse_def xlookup_xshort)
  qed (simp add: xcollapse_def xlookup_xshort i)
next
  case False
  then have "xcollapse ts = XFull ts"
    by (cases "live ts" rule: remdups_adj.cases) (auto simp: xcollapse_def)
  then show ?thesis by simp
qed

lemma xshort_not_nil [simp]: "xshort k t \<noteq> XNil"
  by (cases t) (auto simp: xshort_def)

lemma xcollapse_not_nil [simp]: "xcollapse ts \<noteq> XNil"
  by (auto simp: xcollapse_def split: list.splits)

lemma canon_xshort:
  assumes "canon t" "k \<noteq> []" "is_nibbles k"
  shows "canon (xshort k t)"
proof (cases t)
  case (XShort k' t')
  then have "canon (XShort k' t')" using assms by simp
  moreover from this have "k' \<noteq> []" by (rule canon_short_key)
  ultimately show ?thesis
    by (cases rule: canon_short_cases)
      (use XShort assms in \<open>auto simp: xshort_def term_key_append\<close>)
qed (use assms in \<open>auto simp: xshort_def\<close>)

lemma canon_xcollapse:
  assumes "length ts = 17" "\<forall>i < 16. canon_root (ts ! i)" "val_child (ts ! 16)" "live ts \<noteq> []"
  shows "canon (xcollapse ts)"
proof (cases "\<exists>i. live ts = [i]")
  case True
  then obtain i where i: "live ts = [i]" by blast
  then have lt: "i < 17" "ts ! i \<noteq> XNil"
    using assms set_live [of ts] by auto
  show ?thesis
  proof (cases "i = 16")
    case True
    then show ?thesis
      using i lt assms(3) by (auto simp: xcollapse_def xshort_def val_child_def split: xt.splits)
  next
    case False
    then have "i < 16" using lt by simp
    then have "canon (ts ! i)" "(word_of_nat i :: byte) < 16"
      using lt assms(2) by (auto simp: canon_root_def word_less_nat_alt unat_of_nat)
    then show ?thesis
      using i by (simp add: xcollapse_def canon_xshort)
  qed
next
  case False
  then have "2 \<le> length (live ts)"
    using assms(4) by (cases "live ts" rule: remdups_adj.cases) auto
  moreover have "xcollapse ts = XFull ts"
    using False by (cases "live ts" rule: remdups_adj.cases) (auto simp: xcollapse_def)
  ultimately show ?thesis
    using assms by (simp add: canon_full_iff)
qed

lemma live_update_ne:
  assumes "2 \<le> length (live ts)"
  shows "live (ts[i := t]) \<noteq> []"
proof -
  have "\<not> set (live ts) \<subseteq> {i}"
    using assms distinct_card [OF distinct_live, of ts] card_mono [of "{i}" "set (live ts)"]
    by auto
  then obtain j where "j < length ts" "ts ! j \<noteq> XNil" "j \<noteq> i"
    by (auto simp: set_live)
  then have "j \<in> set (live (ts[i := t]))"
    by (simp add: set_live)
  then show ?thesis by auto
qed

lemma xdelete_full_not_nil [simp]: "xdelete (XFull ts) key \<noteq> XNil"
  by (cases key) auto

lemma canon_xdelete:
  assumes "fits t key"
  shows "if key = [] then xdelete t key = XNil else canon_root (xdelete t key)"
  using assms
proof (induction t key rule: xdelete.induct)
  case (3 k t key)
  then have c: "canon (XShort k t)" "term_key key"
    by (auto simp: fits_def canon_root_def val_child_def split: if_splits)
  show ?case
  proof (cases "prefix k key \<and> length key \<noteq> length k")
    case True
    let ?r = "drop (length k) key"
    have f: "fits t ?r"
      using fits_short c True by blast
    have r: "?r \<noteq> []"
      using True prefix_length_le [of k key] by auto
    with c(1) f obtain us where us: "t = XFull us" "k \<noteq> []" "is_nibbles k"
      by (cases rule: canon_short_cases) (auto simp: fits_def canon_root_def)
    have "xdelete t ?r \<noteq> XNil"
      unfolding us(1) by (rule xdelete_full_not_nil)
    moreover have "canon_root (xdelete t ?r)"
      using "3.IH" True f r by simp
    ultimately have "canon (xdelete t ?r)"
      by (simp add: canon_root_def)
    then have "canon (xshort k (xdelete t ?r))"
      using us by (simp add: canon_xshort)
    then show ?thesis
      using True c by (auto simp: canon_root_def)
  next
    case False
    then show ?thesis
      using c by (auto simp: canon_root_def)
  qed
next
  case (4 ts key)
  have c: "canon (XFull ts)" "term_key key"
    using "4.prems" by (auto simp: fits_def canon_root_def val_child_def split: if_splits)
  then obtain x xs where k: "key = x # xs"
    by (cases key) auto
  let ?u = "xdelete (ts ! unat x) xs"
  have x: "unat x < length ts" "length ts = 17"
    using fits_child(1) c k by (auto simp: canon_full_iff)
  have ih: "if xs = [] then ?u = XNil else canon_root ?u"
    using "4.IH" [OF k x(1)] fits_child(2) c k by simp
  have iff: "unat x = 16 \<longleftrightarrow> xs = []"
    using c(2) k by (simp add: unat_term_key)
  have "canon_root (ts[unat x := ?u] ! i)" if "i < 16" for i
    using ih c(1) that iff
    by (cases "i = unat x") (auto simp: canon_full_iff canon_root_def)
  moreover have "val_child (ts[unat x := ?u] ! 16)"
    using ih c(1) iff x by (cases "unat x = 16") (auto simp: canon_full_iff val_child_def)
  moreover have "live (ts[unat x := ?u]) \<noteq> []"
    using c(1) by (intro live_update_ne) (simp add: canon_full_iff)
  ultimately have "canon (xcollapse (ts[unat x := ?u]))"
    using x by (intro canon_xcollapse) auto
  then show ?case
    using k x by (simp add: canon_root_def)
qed (auto simp: fits_def canon_root_def split: if_splits)

lemma xlookup_xdelete:
  assumes "fits t key" "fits t key'"
  shows "xlookup (xdelete t key) key' = (if key' = key then None else xlookup t key')"
  using assms
proof (induction t key arbitrary: key' rule: xdelete.induct)
  case (3 k t key)
  then have c: "canon (XShort k t)" "term_key key" "term_key key'"
    by (auto simp: fits_def canon_root_def val_child_def split: if_splits)
  show ?case
  proof (cases "prefix k key")
    case True
    have ih: "xlookup (xdelete t (drop (length k) key)) (drop (length k) key') =
      (if drop (length k) key' = drop (length k) key then None
       else xlookup t (drop (length k) key'))"
      if "prefix k key'" "length key \<noteq> length k"
      using "3.IH" fits_short c True that by simp
    have eq: "length key = length k \<Longrightarrow> prefix k key' \<Longrightarrow> key' = key"
      using True c term_key_prefix [of key key'] by (auto simp: prefix_def)
    show ?thesis
      using ih eq True by (auto simp: xlookup_xshort prefix_def)
  next
    case False
    then show ?thesis by auto
  qed
next
  case (4 ts key)
  then have c: "canon (XFull ts)" "term_key key" "term_key key'"
    by (auto simp: fits_def canon_root_def val_child_def split: if_splits)
  obtain x xs y ys where k: "key = x # xs" "key' = y # ys"
    using c by (cases key; cases key') auto
  have lt: "unat x < length ts" "unat y < length ts" "length ts = 17"
    using fits_child(1) c k by (auto simp: canon_full_iff)
  have "fits (ts ! unat x) xs" "fits (ts ! unat y) ys"
    using fits_child(2) [OF c(1)] c k by auto
  then have "x = y \<Longrightarrow> xlookup (xdelete (ts ! unat x) xs) ys =
      (if ys = xs then None else xlookup (ts ! unat x) ys)"
    using "4.IH" [OF k(1) lt(1)] by simp
  then show ?case
    using k lt by (cases "x = y") (auto simp: unat_neq xlookup_xcollapse)
qed (auto simp: fits_def canon_root_def split: if_splits)

section \<open>Contents determine the canonical tree\<close>

lemma canon_full_child:
  assumes "canon (XFull ts)" "i \<in> set (live ts)"
  shows "i < 17" "i = 16 \<Longrightarrow> \<exists>v. ts ! 16 = XVal v" "i \<noteq> 16 \<Longrightarrow> i < 16 \<and> canon (ts ! i)"
proof -
  show lt: "i < 17"
    using assms by (simp add: canon_full_iff set_live)
  show "\<exists>v. ts ! 16 = XVal v" if "i = 16"
    using assms that by (auto simp: canon_full_iff set_live val_child_def split: xt.splits)
  show "i < 16 \<and> canon (ts ! i)" if "i \<noteq> 16"
  proof -
    have "i < 16" using lt that by simp
    then show ?thesis
      using assms by (auto simp: canon_full_iff set_live canon_root_def)
  qed
qed

lemma byte_of_nat:
  "i < 17 \<Longrightarrow> unat (word_of_nat i :: byte) = i"
  "i < 16 \<Longrightarrow> (word_of_nat i :: byte) < 16"
  by (simp_all add: unat_of_nat word_less_nat_alt)

lemma canon_full_heads:
  assumes "canon (XFull ts)" "i \<in> set (live ts)"
    and child: "canon (ts ! i) \<Longrightarrow> \<exists>k. term_key k \<and> xlookup (ts ! i) k \<noteq> None"
  shows "\<exists>r. term_key (word_of_nat i # r) \<and> xlookup (XFull ts) (word_of_nat i # r) \<noteq> None"
proof (cases "i = 16")
  case True
  then have "xlookup (XFull ts) [16] \<noteq> None"
    using canon_full_child [OF assms(1,2)] assms(1) by (auto simp: canon_full_iff)
  then show ?thesis using True by (intro exI [of _ "[]"]) auto
next
  case False
  then have i: "i < 16" "canon (ts ! i)"
    using canon_full_child [OF assms(1,2)] by auto
  then obtain r where r: "term_key r" "xlookup (ts ! i) r \<noteq> None"
    using child by blast
  then have "r \<noteq> []" by auto
  then have "term_key (word_of_nat i # r)"
    using i r byte_of_nat(2) [of i] by simp
  moreover have "xlookup (XFull ts) (word_of_nat i # r) \<noteq> None"
    using i r byte_of_nat(1) [of i] assms(1) by (simp add: canon_full_iff)
  ultimately show ?thesis by blast
qed

lemma canon_inhabited: "canon t \<Longrightarrow> \<exists>k. term_key k \<and> xlookup t k \<noteq> None"
proof (induction t rule: canon.induct)
  case (3 k v)
  then show ?case by (intro exI [of _ k]) auto
next
  case (4 k ts)
  then obtain r where r: "term_key r" "xlookup (XFull ts) r \<noteq> None" by auto
  then have "r \<noteq> []" by auto
  then have "term_key (k @ r)" "xlookup (XShort k (XFull ts)) (k @ r) = xlookup (XFull ts) r"
    using 4 r by (auto simp: term_key_append)
  then show ?case using r by metis
next
  case (6 ts)
  then obtain i where i: "i \<in> set (live ts)"
    by (cases "live ts") (auto simp: canon_full_iff)
  have "\<exists>r. term_key (word_of_nat i # r) \<and> xlookup (XFull ts) (word_of_nat i # r) \<noteq> None"
  proof (rule canon_full_heads [OF "6.prems" i])
    assume c: "canon (ts ! i)"
    moreover have "i \<noteq> 16"
      using c canon_full_child(2) [OF "6.prems" i] by auto
    then have "ts ! i \<in> set (butlast ts)"
      using canon_full_child(3) [OF "6.prems" i] "6.prems"
      by (auto simp: canon_full_iff in_set_conv_nth nth_butlast)
    ultimately show "\<exists>k. term_key k \<and> xlookup (ts ! i) k \<noteq> None"
      using "6.IH" by auto
  qed
  then show ?case by blast
qed auto

lemma canon_full_two:
  assumes "canon (XFull ts)"
  obtains a b r s where "a \<noteq> b" "term_key (a # r)" "term_key (b # s)"
    "xlookup (XFull ts) (a # r) \<noteq> None" "xlookup (XFull ts) (b # s) \<noteq> None"
proof -
  have "2 \<le> card (set (live ts))"
    using assms by (simp add: canon_full_iff distinct_card distinct_live)
  then have "\<not> (\<forall>i \<in> set (live ts). \<forall>j \<in> set (live ts). i = j)"
    using card_le_Suc0_iff_eq [of "set (live ts)"] by fastforce
  then obtain i j where ij: "i \<in> set (live ts)" "j \<in> set (live ts)" "i \<noteq> j"
    by blast
  then have "unat (word_of_nat i :: byte) \<noteq> unat (word_of_nat j :: byte)"
    using canon_full_child(1) [OF assms] byte_of_nat(1) by metis
  then have "(word_of_nat i :: byte) \<noteq> word_of_nat j"
    by auto
  then show thesis
    using that canon_full_heads [OF assms _ canon_inhabited] ij by blast
qed

lemma xlookup_short_prefix: "xlookup (XShort k t) key \<noteq> None \<Longrightarrow> prefix k key"
  by (auto split: if_splits)

lemma canon_short_not_full:
  assumes "canon (XShort k t)" "canon (XFull ts)"
    and "\<And>key. term_key key \<Longrightarrow> xlookup (XShort k t) key = xlookup (XFull ts) key"
  shows False
proof -
  obtain a b r s where *: "a \<noteq> b" "term_key (a # r)" "term_key (b # s)"
    "xlookup (XFull ts) (a # r) \<noteq> None" "xlookup (XFull ts) (b # s) \<noteq> None"
    by (rule canon_full_two [OF assms(2)])
  then have "prefix k (a # r)" "prefix k (b # s)"
    using xlookup_short_prefix assms(3) by metis+
  with canon_short_key [OF assms(1)] show False
    using *(1) by (cases k) auto
qed

text \<open>The key of an extension is the longest prefix all its keys share.\<close>

lemma canon_short_key_le:
  assumes "canon (XShort k t)" "canon (XShort k' t')"
    and eq: "\<And>key. term_key key \<Longrightarrow> xlookup (XShort k t) key = xlookup (XShort k' t') key"
  shows "prefix k' k"
  using assms(1)
proof (cases rule: canon_short_cases)
  case (leaf v)
  then have "xlookup (XShort k t) k \<noteq> None" by simp
  then show ?thesis
    using eq [OF leaf(2)] xlookup_short_prefix by metis
next
  case (ext ts)
  obtain a b r s where *: "a \<noteq> b" "term_key (a # r)" "term_key (b # s)"
    "xlookup (XFull ts) (a # r) \<noteq> None" "xlookup (XFull ts) (b # s) \<noteq> None"
    using canon_full_two ext by metis
  have "term_key (k @ a # r)" "term_key (k @ b # s)"
    using * ext by (auto simp: term_key_append)
  moreover have "xlookup (XShort k t) (k @ a # r) \<noteq> None" "xlookup (XShort k t) (k @ b # s) \<noteq> None"
    using * ext by auto
  ultimately have "prefix k' (k @ a # r)" "prefix k' (k @ b # s)"
    using eq xlookup_short_prefix by metis+
  then show ?thesis
    using *(1) by (auto simp: prefix_append prefix_Cons)
qed

lemma canon_full_unique:
  assumes c: "canon (XFull ss)" "canon (XFull ts)"
    and eq: "\<And>key. term_key key \<Longrightarrow> xlookup (XFull ss) key = xlookup (XFull ts) key"
    and IH: "\<And>s t. s \<in> set ss \<Longrightarrow> canon_root s \<Longrightarrow> canon_root t \<Longrightarrow>
      (\<And>key. term_key key \<Longrightarrow> xlookup s key = xlookup t key) \<Longrightarrow> s = t"
  shows "ss = ts"
proof (rule nth_equalityI)
  have len: "length ss = 17" "length ts = 17"
    using c by (simp_all add: canon_full_iff)
  then show "length ss = length ts" by simp
  fix i assume "i < length ss"
  show "ss ! i = ts ! i"
  proof (cases "i = 16")
    case True
    have "val_child (ss ! 16)" "val_child (ts ! 16)"
      using c by (simp_all add: canon_full_iff)
    moreover have "xlookup (ss ! 16) [] = xlookup (ts ! 16) []"
      using eq [of "[16]"] len by simp
    ultimately show ?thesis
      using True by (cases "ss ! 16"; cases "ts ! 16") (auto simp: val_child_def)
  next
    case False
    then have lt: "i < 16" using \<open>i < length ss\<close> len by simp
    have "canon_root (ss ! i)" "canon_root (ts ! i)"
      using c lt by (simp_all add: canon_full_iff)
    moreover have "xlookup (ss ! i) key = xlookup (ts ! i) key" if "term_key key" for key
    proof -
      from that have "key \<noteq> []" by auto
      then have "term_key (word_of_nat i # key)"
        using that byte_of_nat(2) [OF lt] by simp
      from eq [OF this] show ?thesis
        using lt len byte_of_nat(1) [of i] by simp
    qed
    moreover have "ss ! i \<in> set ss"
      using \<open>i < length ss\<close> by simp
    ultimately show ?thesis
      by (intro IH) auto
  qed
qed

lemma canon_unique:
  assumes "canon_root s" "canon_root t"
    and "\<And>key. term_key key \<Longrightarrow> xlookup s key = xlookup t key"
  shows "s = t"
  using assms
proof (induction "size s" arbitrary: s t rule: less_induct)
  case less
  note eq = less.prems(3)
  show ?case
  proof (cases s)
    case XNil
    then have "\<not> canon t"
      using canon_inhabited [of t] eq by fastforce
    then show ?thesis
      using XNil less.prems(2) by (simp add: canon_root_def)
  next
    case (XVal v)
    then show ?thesis
      using less.prems(1) by (simp add: canon_root_def)
  next
    case (XShort k s')
    then have cs: "canon (XShort k s')"
      using less.prems(1) by (simp add: canon_root_def)
    then have ct: "canon t"
      using canon_inhabited [OF cs] eq XShort less.prems(2) by (fastforce simp: canon_root_def)
    then obtain k' t' where t: "t = XShort k' t'"
      using canon_short_not_full [OF cs, of] eq XShort by (cases t) auto
    have "prefix k k'" "prefix k' k"
      using canon_short_key_le cs ct eq unfolding XShort t by metis+
    then have k: "k' = k" by (rule prefix_order.antisym [THEN sym])
    have rest: "xlookup s' r = xlookup t' r" if "term_key (k @ r)" for r
      using eq [OF that] by (simp add: XShort t k)
    from cs show ?thesis
    proof (cases rule: canon_short_cases)
      case (leaf v)
      then have "\<exists>w. t' = XVal w"
        using ct t k nibbles_not_term [of k "[]"] by (cases t') auto
      then show ?thesis
        using rest [of "[]"] leaf XShort t k by auto
    next
      case (ext ss)
      then have "\<exists>ts. t' = XFull ts"
        using ct t k nibbles_not_term [of k "[]"] by (cases t') auto
      then have ct': "canon t'"
        using ct t by auto
      have "xlookup s' r = xlookup t' r" if "term_key r" for r
        using that rest [of r] ext by (cases "r = []") (auto simp: term_key_append)
      then have "s' = t'"
        using less.hyps [of s' t'] XShort ext ct' by (simp add: canon_root_def)
      then show ?thesis
        using XShort t k by simp
    qed
  next
    case (XFull ss)
    then have cs: "canon (XFull ss)"
      using less.prems(1) by (simp add: canon_root_def)
    then have ct: "canon t"
      using canon_inhabited [OF cs] eq XFull less.prems(2) by (fastforce simp: canon_root_def)
    moreover have "t \<noteq> XShort k u" for k u
      using canon_short_not_full [OF _ cs, of k u] ct eq XFull by metis
    ultimately obtain ts where t: "t = XFull ts"
      by (cases t) auto
    have "ss = ts"
    proof (rule canon_full_unique [OF cs])
      show "canon (XFull ts)" using ct t by simp
      show "xlookup (XFull ss) key = xlookup (XFull ts) key" if "term_key key" for key
        using eq [OF that] XFull t by simp
      fix u v
      assume "u \<in> set ss" "canon_root u" "canon_root v"
        "\<And>key. term_key key \<Longrightarrow> xlookup u key = xlookup v key"
      moreover from this have "size u < size s"
        unfolding XFull by (simp add: less_Suc_eq_le size_list_estimation')
      ultimately show "u = v"
        using less.hyps by blast
    qed
    then show ?thesis
      using XFull t by simp
  qed
qed

end
