(* ===== verification/Trie.thy ===== *)
theory Trie
  imports Patricia
begin

text \<open>
  The Merkle-Patricia trie of \<open>trie/trie.go\<close> over the nodes of \<open>trie/node.go\<close>. A trie
  holds a root node whose subtrees may be hash nodes, loaded from the node database when an
  operation reaches them. The database is its method \<open>Database.node\<close>: a function from a
  hash and a cache generation to the decoded node.

  The recursive operations spend one unit of fuel per call. A call either consumes a nibble
  of the key or resolves a hash node, so \<open>key_fuel\<close> units are enough on every trie that
  \<open>expands\<close> to a canonical tree; \<open>OutOfFuel\<close> is then never returned.
\<close>

section \<open>Nodes\<close>

record nodeFlag =
  fl_hash :: "bytes option"
  fl_gen :: uint16
  fl_dirty :: bool

datatype node =
    is_NilN: NilN
  | FullN "node list" nodeFlag
  | ShortN bytes node nodeFlag
  | HashN bytes
  | ValueN bytes

type_synonym nodeDb = "hash \<Rightarrow> uint16 \<Rightarrow> node option"

datatype trieError = MissingNodeError hash bytes | TriePanic | OutOfFuel

record trie =
  t_db :: nodeDb
  t_root :: node
  t_originalRoot :: hash
  t_prefix :: "bytes option"
  t_cachegen :: uint16
  t_cachelimit :: uint16

definition newFlag :: "uint16 \<Rightarrow> nodeFlag" where
  "newFlag g = \<lparr>fl_hash = None, fl_gen = g, fl_dirty = True\<rparr>"

definition SetCacheLimit :: "trie \<Rightarrow> uint16 \<Rightarrow> trie" where
  "SetCacheLimit t l = t\<lparr>t_cachelimit := l\<rparr>"

section \<open>Resolving hash nodes\<close>

definition resolveHash :: "nodeDb \<Rightarrow> uint16 \<Rightarrow> bytes \<Rightarrow> bytes \<Rightarrow> trieError + node" where
  "resolveHash db g n path =
     (let h = BytesToHash n in
      case db h g of Some nd \<Rightarrow> Inr nd | None \<Rightarrow> Inl (MissingNodeError h path))"

definition resolve :: "nodeDb \<Rightarrow> uint16 \<Rightarrow> node \<Rightarrow> bytes \<Rightarrow> trieError + node" where
  "resolve db g n path = (case n of HashN h \<Rightarrow> resolveHash db g h path | _ \<Rightarrow> Inr n)"

section \<open>Opening a trie\<close>

definition emptyRoot :: hash where
  "emptyRoot =
     [0x56, 0xe8, 0x1f, 0x17, 0x1b, 0xcc, 0x55, 0xa6, 0xff, 0x83, 0x45, 0xe6, 0x92, 0xc0, 0xf8, 0x6e,
      0x5b, 0x48, 0xe0, 0x1b, 0x99, 0x6c, 0xad, 0xc0, 0x01, 0x62, 0x2f, 0xb5, 0xe3, 0x63, 0xb4, 0x21]"

definition trie_New :: "hash \<Rightarrow> nodeDb \<Rightarrow> trieError + trie" where
  "trie_New root db =
     (let t = \<lparr>t_db = db, t_root = NilN, t_originalRoot = root, t_prefix = None,
               t_cachegen = 0, t_cachelimit = 0\<rparr>
      in if root \<noteq> zeroHash \<and> root \<noteq> emptyRoot
         then (case resolveHash db 0 root [] of Inl e \<Rightarrow> Inl e
               | Inr n \<Rightarrow> Inr (t\<lparr>t_root := n\<rparr>))
         else Inr t)"

definition NewTrieWithPrefix :: "hash \<Rightarrow> bytes \<Rightarrow> nodeDb \<Rightarrow> trieError + trie" where
  "NewTrieWithPrefix root pfx db =
     (case trie_New root db of Inl e \<Rightarrow> Inl e | Inr t \<Rightarrow> Inr (t\<lparr>t_prefix := Some pfx\<rparr>))"

section \<open>Lookup\<close>

fun tryGet :: "nat \<Rightarrow> nodeDb \<Rightarrow> uint16 \<Rightarrow> node \<Rightarrow> bytes \<Rightarrow> nat \<Rightarrow>
    trieError + (bytes option \<times> node \<times> bool)" where
  "tryGet 0 db g n key pos = Inl OutOfFuel"
| "tryGet (Suc f) db g n key pos =
     (case n of
        NilN \<Rightarrow> Inr (None, NilN, False)
      | ValueN v \<Rightarrow> Inr (Some v, n, False)
      | ShortN k val fl \<Rightarrow>
          if length key - pos < length k \<or> k \<noteq> take (length k) (drop pos key)
          then Inr (None, n, False)
          else (case tryGet f db g val key (pos + length k) of
                  Inl e \<Rightarrow> Inl e
                | Inr (value, newnode, didResolve) \<Rightarrow>
                    Inr (value,
                         if didResolve then ShortN k newnode (fl\<lparr>fl_gen := g\<rparr>) else n,
                         didResolve))
      | FullN cs fl \<Rightarrow>
          if length key \<le> pos \<or> length cs \<le> unat (key ! pos) then Inl TriePanic
          else (case tryGet f db g (cs ! unat (key ! pos)) key (pos + 1) of
                  Inl e \<Rightarrow> Inl e
                | Inr (value, newnode, didResolve) \<Rightarrow>
                    Inr (value,
                         if didResolve
                         then FullN (cs[unat (key ! pos) := newnode]) (fl\<lparr>fl_gen := g\<rparr>) else n,
                         didResolve))
      | HashN h \<Rightarrow>
          (case resolveHash db g h (take pos key) of
             Inl e \<Rightarrow> Inl e
           | Inr child \<Rightarrow>
               (case tryGet f db g child key pos of
                  Inl e \<Rightarrow> Inl e
                | Inr (value, newnode, _) \<Rightarrow> Inr (value, newnode, True))))"

definition key_fuel :: "bytes \<Rightarrow> nat" where
  "key_fuel key = 2 * length key + 2"

definition TryGet :: "trie \<Rightarrow> bytes \<Rightarrow> trieError + (bytes option \<times> trie)" where
  "TryGet t key =
     (let k = keybytesToHex key in
      case tryGet (key_fuel k) (t_db t) (t_cachegen t) (t_root t) k 0 of
        Inl e \<Rightarrow> Inl e
      | Inr (value, newroot, didResolve) \<Rightarrow>
          Inr (value, if didResolve then t\<lparr>t_root := newroot\<rparr> else t))"

text \<open>\<open>Get\<close>, \<open>Update\<close> and \<open>Delete\<close> log an error the \<open>Try\<close> variants return.\<close>

definition Get :: "trie \<Rightarrow> bytes \<Rightarrow> trieError + (bytes option \<times> trie)" where
  "Get t key = (case TryGet t key of Inl (MissingNodeError h p) \<Rightarrow> Inr (None, t) | r \<Rightarrow> r)"

section \<open>Insertion\<close>

fun trie_insert :: "nat \<Rightarrow> nodeDb \<Rightarrow> uint16 \<Rightarrow> node \<Rightarrow> bytes \<Rightarrow> bytes \<Rightarrow> node \<Rightarrow>
    trieError + (bool \<times> node)" where
  "trie_insert 0 db g n pfx key value = Inl OutOfFuel"
| "trie_insert (Suc f) db g n pfx key value =
     (if key = []
      then (case n of
              ValueN v \<Rightarrow> (case value of ValueN w \<Rightarrow> Inr (v \<noteq> w, value) | _ \<Rightarrow> Inl TriePanic)
            | _ \<Rightarrow> Inr (True, value))
      else
        case n of
          ShortN k val fl \<Rightarrow>
            (let matchlen = prefixLen key k in
             if matchlen = length k
             then (case trie_insert f db g val (pfx @ take matchlen key) (drop matchlen key) value of
                     Inl e \<Rightarrow> Inl e
                   | Inr (dirty, nn) \<Rightarrow>
                       Inr (if \<not> dirty then (False, n) else (True, ShortN k nn (newFlag g))))
             else if length key \<le> matchlen \<or> 17 \<le> unat (k ! matchlen) \<or> 17 \<le> unat (key ! matchlen)
             then Inl TriePanic
             else
               (case trie_insert f db g NilN (pfx @ take (matchlen + 1) k)
                       (drop (matchlen + 1) k) val of
                  Inl e \<Rightarrow> Inl e
                | Inr (_, c1) \<Rightarrow>
                    (case trie_insert f db g NilN (pfx @ take (matchlen + 1) key)
                            (drop (matchlen + 1) key) value of
                       Inl e \<Rightarrow> Inl e
                     | Inr (_, c2) \<Rightarrow>
                         (let branch = FullN ((replicate 17 NilN)
                                [unat (k ! matchlen) := c1, unat (key ! matchlen) := c2]) (newFlag g)
                          in Inr (True, if matchlen = 0 then branch
                                        else ShortN (take matchlen key) branch (newFlag g))))))
        | FullN cs fl \<Rightarrow>
            (if length cs \<le> unat (hd key) then Inl TriePanic
             else (case trie_insert f db g (cs ! unat (hd key)) (pfx @ [hd key]) (tl key) value of
                     Inl e \<Rightarrow> Inl e
                   | Inr (dirty, nn) \<Rightarrow>
                       Inr (if \<not> dirty then (False, n)
                            else (True, FullN (cs[unat (hd key) := nn]) (newFlag g)))))
        | NilN \<Rightarrow> Inr (True, ShortN key value (newFlag g))
        | HashN h \<Rightarrow>
            (case resolveHash db g h pfx of
               Inl e \<Rightarrow> Inl e
             | Inr rn \<Rightarrow>
                 (case trie_insert f db g rn pfx key value of
                    Inl e \<Rightarrow> Inl e
                  | Inr (dirty, nn) \<Rightarrow> Inr (if \<not> dirty then (False, rn) else (True, nn))))
        | ValueN v \<Rightarrow> Inl TriePanic)"

section \<open>Deletion\<close>

text \<open>
  The scan for a single remaining child: -1 when there is none, -2 once two are found.
\<close>

fun childPos :: "nat \<Rightarrow> int \<Rightarrow> node list \<Rightarrow> int" where
  "childPos i pos [] = pos"
| "childPos i pos (c # cs) =
     (if \<not> is_NilN c
      then (if pos = -1 then childPos (Suc i) (int i) cs else -2)
      else childPos (Suc i) pos cs)"

text \<open>
  What \<open>delete\<close> does with a full node once a child changed: with one child left the node
  becomes a short node, which takes in a short child (loading it first).
\<close>

definition reduceFull :: "nodeDb \<Rightarrow> uint16 \<Rightarrow> node list \<Rightarrow> bytes \<Rightarrow> trieError + (bool \<times> node)" where
  "reduceFull db g cs pfx =
     (let pos = childPos 0 (-1) cs in
      if 0 \<le> pos
      then (if pos \<noteq> 16
            then (case resolve db g (cs ! nat pos) pfx of
                    Inl e \<Rightarrow> Inl e
                  | Inr (ShortN ck cv cfl) \<Rightarrow>
                      Inr (True, ShortN (word_of_int pos # ck) cv (newFlag g))
                  | Inr _ \<Rightarrow> Inr (True, ShortN [word_of_int pos] (cs ! nat pos) (newFlag g)))
            else Inr (True, ShortN [word_of_int pos] (cs ! nat pos) (newFlag g)))
      else Inr (True, FullN cs (newFlag g)))"

fun trie_delete :: "nat \<Rightarrow> nodeDb \<Rightarrow> uint16 \<Rightarrow> node \<Rightarrow> bytes \<Rightarrow> bytes \<Rightarrow>
    trieError + (bool \<times> node)" where
  "trie_delete 0 db g n pfx key = Inl OutOfFuel"
| "trie_delete (Suc f) db g n pfx key =
     (case n of
        ShortN k val fl \<Rightarrow>
          (let matchlen = prefixLen key k in
           if matchlen < length k then Inr (False, n)
           else if matchlen = length key then Inr (True, NilN)
           else (case trie_delete f db g val (pfx @ take (length k) key) (drop (length k) key) of
                   Inl e \<Rightarrow> Inl e
                 | Inr (dirty, child) \<Rightarrow>
                     Inr (if \<not> dirty then (False, n)
                          else (True, case child of
                                        ShortN ck cv cfl \<Rightarrow> ShortN (k @ ck) cv (newFlag g)
                                      | _ \<Rightarrow> ShortN k child (newFlag g)))))
      | FullN cs fl \<Rightarrow>
          (if key = [] \<or> length cs \<le> unat (hd key) then Inl TriePanic
           else
             (case trie_delete f db g (cs ! unat (hd key)) (pfx @ [hd key]) (tl key) of
                Inl e \<Rightarrow> Inl e
              | Inr (dirty, nn) \<Rightarrow>
                  if \<not> dirty then Inr (False, n)
                  else reduceFull db g (cs[unat (hd key) := nn]) pfx))
      | ValueN v \<Rightarrow> Inr (True, NilN)
      | NilN \<Rightarrow> Inr (False, NilN)
      | HashN h \<Rightarrow>
          (case resolveHash db g h pfx of
             Inl e \<Rightarrow> Inl e
           | Inr rn \<Rightarrow>
               (case trie_delete f db g rn pfx key of
                  Inl e \<Rightarrow> Inl e
                | Inr (dirty, nn) \<Rightarrow> Inr (if \<not> dirty then (False, rn) else (True, nn)))))"

definition TryDelete :: "trie \<Rightarrow> bytes \<Rightarrow> trieError + trie" where
  "TryDelete t key =
     (let k = keybytesToHex key in
      case trie_delete (key_fuel k) (t_db t) (t_cachegen t) (t_root t) [] k of
        Inl e \<Rightarrow> Inl e
      | Inr (_, n) \<Rightarrow> Inr (t\<lparr>t_root := n\<rparr>))"

definition TryUpdate :: "trie \<Rightarrow> bytes \<Rightarrow> bytes \<Rightarrow> trieError + trie" where
  "TryUpdate t key value =
     (let k = keybytesToHex key in
      if length value \<noteq> 0
      then (case trie_insert (key_fuel k) (t_db t) (t_cachegen t) (t_root t) [] k (ValueN value) of
              Inl e \<Rightarrow> Inl e
            | Inr (_, n) \<Rightarrow> Inr (t\<lparr>t_root := n\<rparr>))
      else (case trie_delete (key_fuel k) (t_db t) (t_cachegen t) (t_root t) [] k of
              Inl e \<Rightarrow> Inl e
            | Inr (_, n) \<Rightarrow> Inr (t\<lparr>t_root := n\<rparr>)))"

definition Delete :: "trie \<Rightarrow> bytes \<Rightarrow> trieError + trie" where
  "Delete t key = (case TryDelete t key of Inl (MissingNodeError h p) \<Rightarrow> Inr t | r \<Rightarrow> r)"

definition Update :: "trie \<Rightarrow> bytes \<Rightarrow> bytes \<Rightarrow> trieError + trie" where
  "Update t key value =
     (case TryUpdate t key value of Inl (MissingNodeError h p) \<Rightarrow> Inr t | r \<Rightarrow> r)"

section \<open>Expansion\<close>

text \<open>
  \<open>expands db n t\<close>: loading every hash node below \<open>n\<close> gives the abstract tree \<open>t\<close>. The
  database must hold, for every hash node met and at every cache generation, a short or full
  node (what \<open>decodeNode\<close> returns), and it must hold the same tree at every generation.
\<close>

definition is_branchN :: "node \<Rightarrow> bool" where
  "is_branchN n \<longleftrightarrow> (case n of ShortN _ _ _ \<Rightarrow> True | FullN _ _ \<Rightarrow> True | _ \<Rightarrow> False)"

inductive expands :: "nodeDb \<Rightarrow> node \<Rightarrow> xt \<Rightarrow> bool" for db where
  exp_nil: "expands db NilN XNil"
| exp_value: "expands db (ValueN v) (XVal v)"
| exp_short: "expands db n t \<Longrightarrow> expands db (ShortN k n fl) (XShort k t)"
| exp_full: "list_all2 (expands db) cs ts \<Longrightarrow> expands db (FullN cs fl) (XFull ts)"
| exp_hash: "(\<And>g. db (BytesToHash h) g = Some (f g)) \<Longrightarrow> (\<And>g. is_branchN (f g)) \<Longrightarrow>
    (\<And>g. expands db (f g) t) \<Longrightarrow> expands db (HashN h) t"

inductive_cases expands_nilE [elim!]: "expands db NilN t"
inductive_cases expands_valueE [elim!]: "expands db (ValueN v) t"
inductive_cases expands_shortE [elim!]: "expands db (ShortN k n fl) t"
inductive_cases expands_fullE [elim!]: "expands db (FullN cs fl) t"
inductive_cases expands_hashE: "expands db (HashN h) t"

lemmas expands_intros [intro] = exp_nil exp_value exp_short exp_full

end
