(* ===== verification/Rlp.thy ===== *)
theory Rlp
  imports Prelude
begin

text \<open>
  Recursive length prefix encoding. The encoder is the two-pass buffer of \<open>rlp/encode.go\<close>:
  string data goes to one slice, list headers are recorded with their offset and spliced in
  at the end, once the sizes are known. It is compared with the recursive definition of RLP
  (\<open>rlp_enc\<close>). The second part is the slice decoder of \<open>rlp/raw.go\<close>.

  A value to be encoded is a tree of byte strings and lists, which is what the writers that
  \<open>makeWriter\<close> composes from a Go type produce.
\<close>

section \<open>Headers\<close>

datatype rlp = RStr bytes | RList "rlp list"

text \<open>\<open>putint\<close> writes the shortest big-endian form of a \<open>uint64\<close> (at least one byte).\<close>

definition putint :: "uint64 \<Rightarrow> bytes" where
  "putint i =
     (if i < 0x100 then be_bytes 1 (unat i)
      else if i < 0x10000 then be_bytes 2 (unat i)
      else if i < 0x1000000 then be_bytes 3 (unat i)
      else if i < 0x100000000 then be_bytes 4 (unat i)
      else if i < 0x10000000000 then be_bytes 5 (unat i)
      else if i < 0x1000000000000 then be_bytes 6 (unat i)
      else if i < 0x100000000000000 then be_bytes 7 (unat i)
      else be_bytes 8 (unat i))"

function intsize :: "uint64 \<Rightarrow> nat" where
  "intsize i = (let j = drop_bit 8 i in if j = 0 then 1 else Suc (intsize j))"
  by pat_completeness auto
termination
proof (relation "measure unat")
  fix i j :: uint64
  assume "j = drop_bit 8 i" "j \<noteq> 0"
  moreover have "unat (drop_bit 8 i) = unat i div 256"
    by (simp add: drop_bit_eq_div unat_div)
  moreover have "unat j \<noteq> 0"
    using \<open>j \<noteq> 0\<close> by (simp add: unat_eq_zero)
  ultimately show "(j, i) \<in> measure unat"
    by simp
qed simp

declare intsize.simps [simp del]

definition headsize :: "uint64 \<Rightarrow> nat" where
  "headsize sz = (if sz < 56 then 1 else 1 + intsize sz)"

definition puthead :: "byte \<Rightarrow> byte \<Rightarrow> uint64 \<Rightarrow> bytes" where
  "puthead smalltag largetag sz =
     (if sz < 56 then [smalltag + word_of_nat (unat sz)]
      else let s = putint sz in (largetag + word_of_nat (length s)) # s)"

definition ListSize :: "uint64 \<Rightarrow> uint64" where
  "ListSize contentSize = word_of_nat (headsize contentSize) + contentSize"

section \<open>The encoding buffer\<close>

record listhead =
  lh_offset :: nat
  lh_size :: nat

record encbuf =
  eb_str :: bytes
  eb_lheads :: "listhead list"
  eb_lhsize :: nat

definition lh_encode :: "listhead \<Rightarrow> bytes" where
  "lh_encode h = puthead 0xC0 0xF7 (word_of_nat (lh_size h))"

definition eb_reset :: encbuf where
  "eb_reset = \<lparr>eb_str = [], eb_lheads = [], eb_lhsize = 0\<rparr>"

definition eb_write :: "bytes \<Rightarrow> encbuf \<Rightarrow> encbuf" where
  "eb_write b w = w\<lparr>eb_str := eb_str w @ b\<rparr>"

definition eb_size :: "encbuf \<Rightarrow> nat" where
  "eb_size w = length (eb_str w) + eb_lhsize w"

definition encodeStringHeader :: "nat \<Rightarrow> encbuf \<Rightarrow> encbuf" where
  "encodeStringHeader sz w =
     (if sz < 56 then eb_write [0x80 + word_of_nat sz] w
      else let s = putint (word_of_nat sz) in eb_write ((0xB7 + word_of_nat (length s)) # s) w)"

definition encodeString :: "bytes \<Rightarrow> encbuf \<Rightarrow> encbuf" where
  "encodeString b w =
     (if length b = 1 \<and> b ! 0 \<le> 0x7F then eb_write [b ! 0] w
      else eb_write b (encodeStringHeader (length b) w))"

text \<open>
  \<open>list\<close> returns a pointer to the recorded header; here it is the header's index.
  \<open>listEnd\<close> turns the header's size field into the size of the list's payload.
\<close>

definition eb_list :: "encbuf \<Rightarrow> nat \<times> encbuf" where
  "eb_list w =
     (length (eb_lheads w),
      w\<lparr>eb_lheads := eb_lheads w @ [\<lparr>lh_offset = length (eb_str w), lh_size = eb_lhsize w\<rparr>]\<rparr>)"

definition listEnd :: "nat \<Rightarrow> encbuf \<Rightarrow> encbuf" where
  "listEnd i w =
     (let lh = eb_lheads w ! i;
          sz = eb_size w - lh_offset lh - lh_size lh
      in w\<lparr>eb_lheads := (eb_lheads w)[i := lh\<lparr>lh_size := sz\<rparr>],
           eb_lhsize := (if sz < 56 then eb_lhsize w + 1
                         else eb_lhsize w + (1 + intsize (word_of_nat sz)))\<rparr>)"

fun write_value :: "rlp \<Rightarrow> encbuf \<Rightarrow> encbuf" and write_values :: "rlp list \<Rightarrow> encbuf \<Rightarrow> encbuf" where
  "write_value (RStr b) w = encodeString b w"
| "write_value (RList vs) w = (let (i, w') = eb_list w in listEnd i (write_values vs w'))"
| "write_values [] w = w"
| "write_values (v # vs) w = write_values vs (write_value v w)"

fun toBytes_from :: "bytes \<Rightarrow> nat \<Rightarrow> listhead list \<Rightarrow> bytes" where
  "toBytes_from str strpos [] = drop strpos str"
| "toBytes_from str strpos (h # hs) =
     take (lh_offset h - strpos) (drop strpos str) @ lh_encode h @
     toBytes_from str (strpos + (lh_offset h - strpos)) hs"

definition toBytes :: "encbuf \<Rightarrow> bytes" where
  "toBytes w = toBytes_from (eb_str w) 0 (eb_lheads w)"

definition EncodeToBytes :: "rlp \<Rightarrow> bytes" where
  "EncodeToBytes v = toBytes (write_value v eb_reset)"

text \<open>
  Integers: \<open>writeUint\<close> and \<open>writeBigInt\<close> write a byte string; a negative big integer
  cannot be encoded.
\<close>

definition writeUint :: "uint64 \<Rightarrow> encbuf \<Rightarrow> encbuf" where
  "writeUint i w =
     (if i = 0 then eb_write [0x80] w
      else if i < 128 then eb_write [word_of_nat (unat i)] w
      else let s = putint i in eb_write ((0x80 + word_of_nat (length s)) # s) w)"

text \<open>\<open>big.Int.Bytes\<close>: the big-endian form without leading zero bytes.\<close>

fun nat_bytes :: "nat \<Rightarrow> bytes" where
  "nat_bytes n = (if n = 0 then [] else nat_bytes (n div 256) @ [word_of_nat (n mod 256)])"

declare nat_bytes.simps [simp del]

definition writeBigInt :: "int \<Rightarrow> encbuf \<Rightarrow> string + encbuf" where
  "writeBigInt i w =
     (if i < 0 then Inl ''rlp: cannot encode negative *big.Int''
      else if i = 0 then Inr (eb_write [0x80] w)
      else Inr (encodeString (nat_bytes (nat i)) w))"

section \<open>The recursive definition of RLP\<close>

fun rlp_enc :: "rlp \<Rightarrow> bytes" where
  "rlp_enc (RStr b) =
     (if length b = 1 \<and> b ! 0 \<le> 0x7F then b
      else puthead 0x80 0xB7 (word_of_nat (length b)) @ b)"
| "rlp_enc (RList vs) =
     (let p = concat (map rlp_enc vs) in puthead 0xC0 0xF7 (word_of_nat (length p)) @ p)"

text \<open>Sizes are 64-bit in the code; \<open>rlp_small\<close> says the encoding is shorter than that.\<close>

definition rlp_small :: "rlp \<Rightarrow> bool" where
  "rlp_small v \<longleftrightarrow> length (rlp_enc v) < 2 ^ 63"

section \<open>Slice decoding\<close>

datatype kind = Byte | String | List

datatype rlpError =
    ErrUnexpectedEOF | ErrEOF | ErrExpectedString | ErrExpectedList | ErrCanonInt | ErrCanonSize
  | ErrElemTooLarge | ErrValueTooLarge | EOL | ErrNotInList | ErrNotAtEOL | ErrUintOverflow
  | ErrInvalidBool nat

definition readSize :: "bytes \<Rightarrow> nat \<Rightarrow> rlpError + nat" where
  "readSize b slen =
     (if length b < slen then Inl ErrUnexpectedEOF
      else let s = be_val (take slen b) in
        if s < 56 \<or> b ! 0 = 0 then Inl ErrCanonSize else Inr s)"

definition readKind :: "bytes \<Rightarrow> rlpError + (kind \<times> nat \<times> nat)" where
  "readKind buf =
     (if length buf = 0 then Inl ErrUnexpectedEOF
      else
        let b = buf ! 0;
            r = (if b < 0x80 then Inr (Byte, 0, 1)
                 else if b < 0xB8 then
                   (let cs = unat (b - 0x80) in
                    if cs = 1 \<and> length buf > 1 \<and> buf ! 1 < 128 then Inl ErrCanonSize
                    else Inr (String, 1, cs))
                 else if b < 0xC0 then
                   (case readSize (tl buf) (unat (b - 0xB7)) of Inl e \<Rightarrow> Inl e
                    | Inr cs \<Rightarrow> Inr (String, unat (b - 0xB7) + 1, cs))
                 else if b < 0xF8 then Inr (List, 1, unat (b - 0xC0))
                 else
                   (case readSize (tl buf) (unat (b - 0xF7)) of Inl e \<Rightarrow> Inl e
                    | Inr cs \<Rightarrow> Inr (List, unat (b - 0xF7) + 1, cs)))
        in case r of
             Inl e \<Rightarrow> Inl e
           | Inr (k, ts, cs) \<Rightarrow>
               if cs > length buf - ts then Inl ErrValueTooLarge else Inr (k, ts, cs))"

definition Split :: "bytes \<Rightarrow> rlpError + (kind \<times> bytes \<times> bytes)" where
  "Split b =
     (case readKind b of Inl e \<Rightarrow> Inl e
      | Inr (k, ts, cs) \<Rightarrow> Inr (k, take cs (drop ts b), drop (ts + cs) b))"

definition SplitString :: "bytes \<Rightarrow> rlpError + (bytes \<times> bytes)" where
  "SplitString b =
     (case Split b of Inl e \<Rightarrow> Inl e
      | Inr (k, content, rest) \<Rightarrow>
          if k = List then Inl ErrExpectedString else Inr (content, rest))"

definition SplitList :: "bytes \<Rightarrow> rlpError + (bytes \<times> bytes)" where
  "SplitList b =
     (case Split b of Inl e \<Rightarrow> Inl e
      | Inr (k, content, rest) \<Rightarrow>
          if k \<noteq> List then Inl ErrExpectedList else Inr (content, rest))"

text \<open>\<open>CountValues\<close> advances by at least one byte per value.\<close>

lemma readKind_progress: "readKind b = Inr (k, ts, cs) \<Longrightarrow> 0 < ts + cs"
  by (auto simp: readKind_def Let_def split: if_splits sum.splits)

function CountValues :: "bytes \<Rightarrow> rlpError + nat" where
  "CountValues b =
     (if length b = 0 then Inr 0
      else case readKind b of
             Inl e \<Rightarrow> Inl e
           | Inr (k, ts, cs) \<Rightarrow>
               (case CountValues (drop (ts + cs) b) of Inl e \<Rightarrow> Inl e | Inr n \<Rightarrow> Inr (Suc n)))"
  by pat_completeness auto
termination
  by (relation "measure length") (auto dest: readKind_progress)

declare CountValues.simps [simp del]

section \<open>Sizes\<close>

lemma putint_be:
  obtains n where "putint i = be_bytes n (unat i)" "1 \<le> n" "n \<le> 8" "unat i < 256 ^ n"
    "n = 1 \<or> 256 ^ (n - 1) \<le> unat i"
proof -
  have "unat i < 256 ^ 8"
    using unsigned_less [where ?'a = nat, of i] by simp
  then have "\<exists>n. putint i = be_bytes n (unat i) \<and> 1 \<le> n \<and> n \<le> 8 \<and> unat i < 256 ^ n \<and>
      (n = 1 \<or> 256 ^ (n - 1) \<le> unat i)"
    unfolding putint_def word_less_nat_alt
    by (auto intro: exI [of _ 1] exI [of _ 2] exI [of _ 3] exI [of _ 4] exI [of _ 5] exI [of _ 6]
        exI [of _ 7] exI [of _ 8])
  then show thesis
    using that by blast
qed

lemma be_val_putint [simp]: "be_val (putint i) = unat i"
  by (rule putint_be [of i]) (simp add: be_val_be_bytes)

lemma intsize_range:
  "unat i < 256 ^ Suc n \<Longrightarrow> n = 0 \<or> 256 ^ n \<le> unat i \<Longrightarrow> intsize i = Suc n"
proof (induction n arbitrary: i)
  case 0
  then have "drop_bit 8 i = 0"
    by (simp add: drop_bit_eq_div unat_eq_zero [symmetric] unat_div)
  then show ?case
    by (simp add: intsize.simps)
next
  case (Suc n)
  have u: "unat (drop_bit 8 i) = unat i div 256"
    by (simp add: drop_bit_eq_div unat_div)
  have "unat (drop_bit 8 i) < 256 ^ Suc n"
    using Suc.prems(1) u by (simp add: less_mult_imp_div_less)
  moreover have "256 ^ n \<le> unat (drop_bit 8 i)"
    using Suc.prems(2) u by (simp add: less_eq_div_iff_mult_less_eq mult.commute)
  ultimately have "intsize (drop_bit 8 i) = Suc n" "drop_bit 8 i \<noteq> 0"
    using Suc.IH by (auto simp: unat_eq_zero [symmetric])
  then show ?case
    by (simp add: intsize.simps [of i])
qed

lemma length_putint: "length (putint i) = intsize i"
proof (rule putint_be [of i])
  fix n
  assume "putint i = be_bytes n (unat i)" "1 \<le> n" "unat i < 256 ^ n"
    "n = 1 \<or> 256 ^ (n - 1) \<le> unat i"
  then show ?thesis
    using intsize_range [of i "n - 1"] by auto
qed

lemma length_puthead: "length (puthead a b sz) = headsize sz"
  by (simp add: puthead_def headsize_def length_putint Let_def)

lemma putint_bounds: "1 \<le> length (putint i)" "length (putint i) \<le> 8"
  by (rule putint_be [of i]; simp)+

lemma putint_nonzero: "0 < unat i \<Longrightarrow> putint i ! 0 \<noteq> 0"
proof (rule putint_be [of i])
  fix n assume a: "0 < unat i" "putint i = be_bytes n (unat i)" "1 \<le> n" "n \<le> 8"
    "n = 1 \<or> 256 ^ (n - 1) \<le> unat i" "unat i < 256 ^ n"
  show ?thesis
  proof
    assume z: "putint i ! 0 = 0"
    then obtain r where r: "putint i = 0 # r"
      using putint_bounds(1) [of i] by (cases "putint i") auto
    then have "be_val (putint i) = be_val r"
      by (simp add: be_val_def)
    moreover have "length r = n - 1" using r a(2) by (metis length_be_bytes length_tl list.sel(3))
    ultimately have "unat i < 256 ^ (n - 1)"
      using be_val_bound [of r] by simp
    then show False
      using a by auto
  qed
qed
lemma unat_word64: "n < 2 ^ 63 \<Longrightarrow> unat (word_of_nat n :: uint64) = n"
  by (simp add: unat_of_nat)

lemma word64_less_56: "n < 2 ^ 63 \<Longrightarrow> (word_of_nat n :: uint64) < 56 \<longleftrightarrow> n < 56"
  by (simp add: word_less_nat_alt unat_word64)

section \<open>The buffer produces the recursive encoding\<close>

definition lh_shift :: "nat \<Rightarrow> listhead \<Rightarrow> listhead" where
  "lh_shift n h = h\<lparr>lh_offset := lh_offset h + n\<rparr>"

lemma lh_shift_simps [simp]:
  "lh_offset (lh_shift n h) = lh_offset h + n" "lh_encode (lh_shift n h) = lh_encode h"
  "lh_shift n (lh_shift m h) = lh_shift (m + n) h" "lh_shift 0 h = h"
  "map (lh_shift 0) hs = hs"
  by (simp_all add: lh_shift_def lh_encode_def map_idI)

lemma toBytes_from_shift:
  "toBytes_from (s @ t) (length s + p) (map (lh_shift (length s)) hs) = toBytes_from t p hs"
  by (induction hs arbitrary: p) (simp_all add: add.assoc)

lemma toBytes_from_enter:
  assumes "p \<le> length s"
  shows "toBytes_from (s @ t) p (map (lh_shift (length s)) hs) = drop p s @ toBytes_from t 0 hs"
proof (cases hs)
  case Nil
  then show ?thesis using assms by simp
next
  case (Cons h hs')
  have "p + (lh_offset h + length s - p) = length s + lh_offset h"
    using assms by simp
  then show ?thesis
    using assms Cons toBytes_from_shift [of s t "lh_offset h" hs'] by (simp add: add.commute)
qed

lemma toBytes_from_append:
  assumes "p \<le> length s" "\<forall>h \<in> set hs. lh_offset h \<le> length s"
  shows "toBytes_from (s @ t) p (hs @ map (lh_shift (length s)) ks) =
           toBytes_from s p hs @ toBytes_from t 0 ks"
  using assms
proof (induction hs arbitrary: p)
  case Nil
  then show ?case by (simp add: toBytes_from_enter)
next
  case (Cons h hs)
  then have "p + (lh_offset h - p) \<le> length s" by auto
  then show ?case
    using Cons by simp
qed

text \<open>
  What writing adds to a buffer: string data \<open>s\<close> and headers \<open>hs\<close> (offsets relative to the
  data) that lay out to the bytes \<open>e\<close>.
\<close>

definition eb_adds :: "encbuf \<Rightarrow> bytes \<Rightarrow> encbuf \<Rightarrow> bool" where
  "eb_adds w e w' \<longleftrightarrow>
     (\<exists>s hs. eb_str w' = eb_str w @ s
        \<and> eb_lheads w' = eb_lheads w @ map (lh_shift (length (eb_str w))) hs
        \<and> (\<forall>h \<in> set hs. lh_offset h \<le> length s)
        \<and> toBytes_from s 0 hs = e
        \<and> eb_lhsize w' + length s = eb_lhsize w + length e)"

lemma eb_adds_write: "eb_adds w b (eb_write b w)"
  unfolding eb_adds_def eb_write_def by (intro exI [of _ b] exI [of _ "[]"]) simp

lemma eb_adds_none: "eb_adds w [] w"
  unfolding eb_adds_def by (intro exI [of _ "[]"]) simp

lemma eb_adds_trans:
  assumes "eb_adds w a w'" "eb_adds w' b w''"
  shows "eb_adds w (a @ b) w''"
proof -
  obtain s hs where 1: "eb_str w' = eb_str w @ s"
    "eb_lheads w' = eb_lheads w @ map (lh_shift (length (eb_str w))) hs"
    "\<forall>h \<in> set hs. lh_offset h \<le> length s" "toBytes_from s 0 hs = a"
    "eb_lhsize w' + length s = eb_lhsize w + length a"
    using assms(1) by (auto simp: eb_adds_def)
  obtain t ks where 2: "eb_str w'' = eb_str w' @ t"
    "eb_lheads w'' = eb_lheads w' @ map (lh_shift (length (eb_str w'))) ks"
    "\<forall>h \<in> set ks. lh_offset h \<le> length t" "toBytes_from t 0 ks = b"
    "eb_lhsize w'' + length t = eb_lhsize w' + length b"
    using assms(2) by (auto simp: eb_adds_def)
  let ?hs = "hs @ map (lh_shift (length s)) ks"
  have "toBytes_from (s @ t) 0 ?hs = a @ b"
    using toBytes_from_append [of 0 s hs t ks] 1 2 by simp
  moreover have "\<forall>h \<in> set ?hs. lh_offset h \<le> length (s @ t)"
    using 1(3) 2(3) by fastforce
  moreover have "eb_lheads w'' = eb_lheads w @ map (lh_shift (length (eb_str w))) ?hs"
    using 1(1,2) 2(2) by (simp add: comp_def add.commute)
  ultimately show ?thesis
    unfolding eb_adds_def
    using 1(1,5) 2(1,5) by (intro exI [of _ "s @ t"] exI [of _ ?hs]) simp
qed

lemma eb_adds_string:
  assumes "length b < 2 ^ 63"
  shows "eb_adds w (rlp_enc (RStr b)) (encodeString b w)"
proof -
  have "eb_adds w (puthead 0x80 0xB7 (word_of_nat (length b))) (encodeStringHeader (length b) w)"
    using assms eb_adds_write
    by (auto simp: encodeStringHeader_def puthead_def word64_less_56 unat_word64 Let_def)
  then have "eb_adds w (puthead 0x80 0xB7 (word_of_nat (length b)) @ b)
      (eb_write b (encodeStringHeader (length b) w))"
    using eb_adds_trans eb_adds_write by blast
  moreover have "length b = 1 \<Longrightarrow> [b ! 0] = b"
    by (cases b) auto
  ultimately show ?thesis
    using eb_adds_write [of w b] by (auto simp: encodeString_def)
qed

lemma eb_adds_list:
  assumes "eb_adds (snd (eb_list w)) p w'" "length p < 2 ^ 63"
  shows "eb_adds w (puthead 0xC0 0xF7 (word_of_nat (length p)) @ p) (listEnd (fst (eb_list w)) w')"
proof -
  let ?n = "length (eb_str w)" and ?h = "\<lparr>lh_offset = length (eb_str w), lh_size = eb_lhsize w\<rparr>"
  obtain s hs where 1: "eb_str w' = eb_str w @ s"
    "eb_lheads w' = (eb_lheads w @ [?h]) @ map (lh_shift ?n) hs"
    "\<forall>h \<in> set hs. lh_offset h \<le> length s" "toBytes_from s 0 hs = p"
    "eb_lhsize w' + length s = eb_lhsize w + length p"
    using assms(1) by (auto simp: eb_adds_def eb_list_def)
  have sz: "eb_size w' - ?n - eb_lhsize w = length p"
    using 1(1,5) by (simp add: eb_size_def)
  let ?k = "\<lparr>lh_offset = 0, lh_size = length p\<rparr>"
  have nth: "eb_lheads w' ! length (eb_lheads w) = ?h"
    by (simp add: 1(2))
  have heads: "eb_lheads (listEnd (fst (eb_list w)) w') =
      eb_lheads w @ map (lh_shift ?n) (?k # hs)"
    using sz by (simp add: listEnd_def eb_list_def nth Let_def 1(2) lh_shift_def)
  have str: "eb_str (listEnd (fst (eb_list w)) w') = eb_str w @ s"
    by (simp add: listEnd_def Let_def 1(1))
  have lhs: "eb_lhsize (listEnd (fst (eb_list w)) w') = eb_lhsize w' + headsize (word_of_nat (length p))"
    using sz assms(2) by (simp add: listEnd_def eb_list_def nth Let_def headsize_def word64_less_56)
  have "toBytes_from s 0 (?k # hs) = puthead 0xC0 0xF7 (word_of_nat (length p)) @ p"
    using 1(4) by (simp add: lh_encode_def)
  moreover have "\<forall>h \<in> set (?k # hs). lh_offset h \<le> length s"
    using 1(3) by simp
  ultimately show ?thesis
    unfolding eb_adds_def
    using heads str lhs 1(5) by (intro exI [of _ s] exI [of _ "?k # hs"]) (simp add: length_puthead)
qed

lemma write_value_adds:
  "rlp_small v \<Longrightarrow> eb_adds w (rlp_enc v) (write_value v w)"
  "length (concat (map rlp_enc vs)) < 2 ^ 63 \<Longrightarrow>
   eb_adds w (concat (map rlp_enc vs)) (write_values vs w)"
proof (induction v w and vs w rule: write_value_write_values.induct)
  case (1 b w)
  then have "length b < 2 ^ 63"
    by (auto simp: rlp_small_def split: if_splits)
  then show ?case
    using eb_adds_string by simp
next
  case (2 vs w)
  then have lt: "length (concat (map rlp_enc vs)) < 2 ^ 63"
    by (simp add: rlp_small_def Let_def)
  then show ?case
    using "2.IH" [OF refl prod.collapse] eb_adds_list
    by (simp add: Let_def case_prod_beta)
next
  case (3 w)
  then show ?case by (simp add: eb_adds_none)
next
  case (4 v vs w)
  then show ?case
    using eb_adds_trans by (simp add: rlp_small_def)
qed

lemma EncodeToBytes_eq: "rlp_small v \<Longrightarrow> EncodeToBytes v = rlp_enc v"
  using write_value_adds(1) [of v eb_reset]
  by (auto simp: EncodeToBytes_def toBytes_def eb_adds_def eb_reset_def)

lemma toBytes_size: "rlp_small v \<Longrightarrow> length (EncodeToBytes v) = eb_size (write_value v eb_reset)"
  using write_value_adds(1) [of v eb_reset]
  by (auto simp: EncodeToBytes_def toBytes_def eb_adds_def eb_reset_def eb_size_def)

section \<open>Splitting inverts encoding, and accepts nothing else\<close>

lemma putint_be_val:
  assumes "length b \<le> 8" "b \<noteq> []" "b ! 0 \<noteq> 0"
  shows "putint (word_of_nat (be_val b)) = b"
proof (rule putint_be [of "word_of_nat (be_val b)"])
  fix n
  assume a: "putint (word_of_nat (be_val b)) = be_bytes n (unat (word_of_nat (be_val b) :: uint64))"
    "unat (word_of_nat (be_val b) :: uint64) < 256 ^ n"
    "n = 1 \<or> 256 ^ (n - 1) \<le> unat (word_of_nat (be_val b) :: uint64)" "1 \<le> n"
  have "be_val b < 256 ^ length b"
    by (rule be_val_bound)
  also have "\<dots> \<le> 256 ^ 8"
    by (rule power_increasing) (use assms(1) in auto)
  finally have u: "unat (word_of_nat (be_val b) :: uint64) = be_val b"
    by (simp add: unat_of_nat)
  obtain x c where b: "b = x # c" and x: "x \<noteq> 0"
    using assms(2,3) by (cases b) auto
  have lo: "256 ^ length c \<le> be_val b"
    unfolding b using be_val_Cons_ge x by simp
  have hi: "be_val b < 256 ^ Suc (length c)"
    using be_val_bound [of b] by (simp add: b)
  have "n = Suc (length c)"
  proof (rule le_antisym)
    show "n \<le> Suc (length c)"
    proof (rule ccontr)
      assume "\<not> ?thesis"
      then have "Suc (length c) \<le> n - 1" "n \<noteq> 1" by auto
      then have "(256::nat) ^ Suc (length c) \<le> 256 ^ (n - 1)"
        by (intro power_increasing) auto
      then show False using a(3) u hi \<open>n \<noteq> 1\<close> by linarith
    qed
    show "Suc (length c) \<le> n"
    proof (rule ccontr)
      assume "\<not> ?thesis"
      then have "(256::nat) ^ n \<le> 256 ^ length c"
        by (intro power_increasing) auto
      then show False using a(2) u lo by linarith
    qed
  qed
  then show ?thesis
    using a(1) u be_bytes_be_val [of b] by (simp add: b)
qed

lemma putint_canonical: "be_val b = unat i \<Longrightarrow> length b \<le> 8 \<Longrightarrow> b \<noteq> [] \<Longrightarrow> b ! 0 \<noteq> 0 \<Longrightarrow> putint i = b"
  using putint_be_val [of b] by simp

lemma readSize_putint:
  "56 \<le> unat i \<Longrightarrow> readSize (putint i @ r) (intsize i) = Inr (unat i)"
  using putint_nonzero [of i] putint_bounds [of i]
  by (auto simp: readSize_def length_putint Let_def nth_append)

lemma readSize_Inr:
  assumes "readSize b n = Inr sz" "1 \<le> n" "n \<le> 8"
  shows "b = putint (word_of_nat sz) @ drop n b \<and> intsize (word_of_nat sz) = n \<and> 56 \<le> sz \<and> n \<le> length b"
proof -
  have l: "n \<le> length b" and sz: "sz = be_val (take n b)" "56 \<le> sz" and nz: "b ! 0 \<noteq> 0"
    using assms by (auto simp: readSize_def Let_def split: if_splits)
  have "putint (word_of_nat (be_val (take n b))) = take n b"
    by (rule putint_be_val) (use assms l nz in auto)
  then have "putint (word_of_nat sz) = take n b" and "intsize (word_of_nat sz) = n"
    using sz l length_putint [of "word_of_nat sz"] by auto
  then show ?thesis
    using sz l by simp
qed

fun item_head :: "kind \<Rightarrow> bytes \<Rightarrow> bytes" where
  "item_head Byte c = []"
| "item_head String c = puthead 0x80 0xB7 (word_of_nat (length c))"
| "item_head List c = puthead 0xC0 0xF7 (word_of_nat (length c))"

fun item_ok :: "kind \<Rightarrow> bytes \<Rightarrow> bool" where
  "item_ok Byte c = (length c = 1 \<and> c ! 0 < 0x80)"
| "item_ok String c = (\<not> (length c = 1 \<and> c ! 0 < 0x80))"
| "item_ok List c = True"

lemma unat_add_byte: "unat a + n < 256 \<Longrightarrow> unat ((a :: byte) + word_of_nat n) = unat a + n"
  by (simp add: unat_word_ariths(1) unat_of_nat)

lemma tag_bounds:
  "n < 56 \<Longrightarrow> \<not> 0x80 + word_of_nat n < (0x80 :: byte)"
  "n < 56 \<Longrightarrow> 0x80 + word_of_nat n < (0xB8 :: byte)"
  "n < 56 \<Longrightarrow> \<not> 0xC0 + word_of_nat n < (0xC0 :: byte)"
  "n < 56 \<Longrightarrow> 0xC0 + word_of_nat n < (0xF8 :: byte)"
  "1 \<le> n \<Longrightarrow> n \<le> 8 \<Longrightarrow> \<not> 0xB7 + word_of_nat n < (0xB8 :: byte)"
  "n \<le> 8 \<Longrightarrow> 0xB7 + word_of_nat n < (0xC0 :: byte)"
  "1 \<le> n \<Longrightarrow> n \<le> 8 \<Longrightarrow> \<not> 0xF7 + word_of_nat n < (0xF8 :: byte)"
  "n < 64 \<Longrightarrow> unat (word_of_nat n :: byte) = n"
  by (simp_all add: word_less_nat_alt unat_add_byte unat_of_nat)

lemma tag_bounds':
  assumes "1 \<le> n" "n \<le> 8"
  shows "\<not> 0xB7 + word_of_nat n < (0x80 :: byte)" "\<not> 0xF7 + word_of_nat n < (0x80 :: byte)"
    "\<not> 0xF7 + word_of_nat n < (0xB8 :: byte)" "\<not> 0xF7 + word_of_nat n < (0xC0 :: byte)"
  using assms by (simp_all add: word_less_nat_alt unat_add_byte)

lemma tag_bounds_list:
  "n < 56 \<Longrightarrow> \<not> 0xC0 + word_of_nat n < (0x80 :: byte)"
  "n < 56 \<Longrightarrow> \<not> 0xC0 + word_of_nat n < (0xB8 :: byte)"
  by (simp_all add: word_less_nat_alt unat_add_byte)

lemmas tags = tag_bounds tag_bounds' tag_bounds_list

lemma readKind_item:
  assumes "length c < 2 ^ 63" "item_ok k c"
  shows "readKind (item_head k c @ c @ r) = Inr (k, length (item_head k c), length c)"
proof (cases "k = Byte")
  case True
  then show ?thesis
    using assms by (cases c) (auto simp: readKind_def)
next
  case False
  let ?n = "length c" and ?w = "word_of_nat (length c) :: uint64"
  have u: "unat ?w = ?n" using assms(1) by (rule unat_word64)
  show ?thesis
  proof (cases "?n < 56")
    case True
    then have "?w < 56" using assms(1) by (simp add: word64_less_56)
    then show ?thesis
      using False assms(2) u True
      by (cases k) (auto simp: readKind_def puthead_def tags Let_def nth_append)
  next
    case f: False
    then have w: "\<not> ?w < 56" using assms(1) by (simp add: word64_less_56)
    have s: "readSize (putint ?w @ c @ r) (intsize ?w) = Inr ?n"
      using readSize_putint [of ?w "c @ r"] u f by simp
    have b: "1 \<le> intsize ?w" "intsize ?w \<le> 8"
      using putint_bounds [of ?w] by (simp_all add: length_putint)
    then show ?thesis
      using False w s
      by (cases k) (auto simp: readKind_def puthead_def tags Let_def length_putint)
  qed
qed

lemma Split_item:
  assumes "length c < 2 ^ 63" "item_ok k c"
  shows "Split (item_head k c @ c @ r) = Inr (k, c, r)"
  using readKind_item [OF assms, of r] by (simp add: Split_def)

lemma tag_range:
  "(b :: byte) < 0xB8 \<Longrightarrow> \<not> b < 0x80 \<Longrightarrow> unat (b - 0x80) < 56"
  "b < 0xF8 \<Longrightarrow> \<not> b < 0xC0 \<Longrightarrow> unat (b - 0xC0) < 56"
  "b < 0xC0 \<Longrightarrow> \<not> b < 0xB8 \<Longrightarrow> 1 \<le> unat (b - 0xB7) \<and> unat (b - 0xB7) \<le> 8"
  "\<not> b < 0xF8 \<Longrightarrow> 1 \<le> unat (b - 0xF7) \<and> unat (b - 0xF7) \<le> 8"
  using unsigned_less [where ?'a = nat, of b]
  by (auto simp: word_less_nat_alt word_le_nat_alt unat_sub not_less)

lemma puthead_short: "n < 56 \<Longrightarrow> puthead a l (word_of_nat n) = [a + word_of_nat n]"
  by (simp add: puthead_def word64_less_56 unat_of_nat)

lemma puthead_long:
  "56 \<le> n \<Longrightarrow> n < 2 ^ 63 \<Longrightarrow>
   puthead a l (word_of_nat n) = (l + word_of_nat (intsize (word_of_nat n))) # putint (word_of_nat n)"
  by (simp add: puthead_def word64_less_56 length_putint Let_def)

lemma long_item:
  assumes "readSize d (unat (t - l)) = Inr cs" "1 \<le> unat (t - l) \<and> unat (t - l) \<le> 8"
    "cs \<le> length d - unat (t - l)" "length d < 2 ^ 63"
  shows "\<exists>e. t # d = puthead a l (word_of_nat cs) @ e \<and> cs \<le> length e \<and> 56 \<le> cs
    \<and> length (puthead a l (word_of_nat cs)) = unat (t - l) + 1"
proof -
  let ?n = "unat (t - l)"
  have rs: "d = putint (word_of_nat cs) @ drop ?n d" "intsize (word_of_nat cs) = ?n" "56 \<le> cs"
    using readSize_Inr assms by blast+
  have "cs < 2 ^ 63" using assms by linarith
  then have "puthead a l (word_of_nat cs) = t # putint (word_of_nat cs)"
    using rs(2,3) by (simp add: puthead_long)
  moreover have "length (putint (word_of_nat cs)) = ?n"
    using rs(2) by (simp add: length_putint)
  ultimately show ?thesis
    using rs assms(3) by (intro exI [of _ "drop ?n d"]) auto
qed

lemma item_split:
  assumes "b = h @ d" "cs \<le> length d" "item_head k (take cs d) = h" "item_ok k (take cs d)" "ts = length h"
  shows "\<exists>c r. b = item_head k c @ c @ r \<and> ts = length (item_head k c) \<and> cs = length c \<and> item_ok k c"
proof -
  have "b = item_head k (take cs d) @ take cs d @ drop cs d \<and> ts = length (item_head k (take cs d))
      \<and> cs = length (take cs d) \<and> item_ok k (take cs d)"
    using assms by simp
  then show ?thesis by blast
qed

lemma readKind_Inr:
  assumes "readKind b = Inr (k, ts, cs)" "length b < 2 ^ 63"
  shows "\<exists>c r. b = item_head k c @ c @ r \<and> ts = length (item_head k c) \<and> cs = length c \<and> item_ok k c"
proof -
  obtain t b' where b: "b = t # b'"
    using assms(1) by (cases b) (auto simp: readKind_def)
  have cs: "cs \<le> length b - ts"
    using assms(1) by (auto simp: readKind_def Let_def Suc_le_eq split: if_splits sum.splits)
  consider (byte) "t < 0x80" "k = Byte" "ts = 0" "cs = 1"
    | (short) "\<not> t < 0x80" "t < 0xB8" "k = String" "ts = 1" "cs = unat (t - 0x80)"
        "\<not> (cs = 1 \<and> length b > 1 \<and> b ! 1 < 128)"
    | (long) "\<not> t < 0xB8" "t < 0xC0" "k = String" "ts = unat (t - 0xB7) + 1"
        "readSize b' (unat (t - 0xB7)) = Inr cs"
    | (lshort) "\<not> t < 0xC0" "t < 0xF8" "k = List" "ts = 1" "cs = unat (t - 0xC0)"
    | (llong) "\<not> t < 0xF8" "k = List" "ts = unat (t - 0xF7) + 1"
        "readSize b' (unat (t - 0xF7)) = Inr cs"
    using assms(1) unfolding readKind_def b Let_def
    by (auto split: if_splits sum.splits)
  then show ?thesis
  proof cases
    case byte
    then show ?thesis using item_split [of b "[]" b 1 Byte] by (simp add: b)
  next
    case short
    have "cs < 56" using tag_range(1) short by blast
    moreover have "t = 0x80 + word_of_nat cs" using short by simp
    ultimately show ?thesis
      using item_split [of b "[t]" b' cs String ts] cs short(3,4,6) b by (auto simp: puthead_short)
  next
    case long
    have "cs \<le> length b' - unat (t - 0xB7)" "length b' < 2 ^ 63" using cs long assms(2) b by auto
    then obtain e where "b = puthead 0x80 0xB7 (word_of_nat cs) @ e" "cs \<le> length e" "56 \<le> cs"
        "length (puthead 0x80 0xB7 (word_of_nat cs)) = ts"
      using long_item [OF long(5)] tag_range(3) long(1,2,4) b by metis
    then show ?thesis
      using item_split [of b _ e cs String ts] long(3) by simp
  next
    case lshort
    have "cs < 56" using tag_range(2) lshort by blast
    moreover have "t = 0xC0 + word_of_nat cs" using lshort by simp
    ultimately show ?thesis
      using item_split [of b "[t]" b' cs List ts] cs lshort(3,4) b by (auto simp: puthead_short)
  next
    case llong
    have "cs \<le> length b' - unat (t - 0xF7)" "length b' < 2 ^ 63" using cs llong assms(2) b by auto
    then obtain e where "b = puthead 0xC0 0xF7 (word_of_nat cs) @ e" "cs \<le> length e" "56 \<le> cs"
        "length (puthead 0xC0 0xF7 (word_of_nat cs)) = ts"
      using long_item [OF llong(4)] tag_range(4) llong(1,3) b by metis
    then show ?thesis
      using item_split [of b _ e cs List ts] llong(2) by simp
  qed
qed

lemma Split_iff:
  assumes "length b < 2 ^ 63"
  shows "Split b = Inr (k, c, r) \<longleftrightarrow> b = item_head k c @ c @ r \<and> item_ok k c"
proof
  assume "Split b = Inr (k, c, r)"
  then obtain ts cs where "readKind b = Inr (k, ts, cs)" "c = take cs (drop ts b)" "r = drop (ts + cs) b"
    by (auto simp: Split_def split: sum.splits)
  moreover obtain c' r' where "b = item_head k c' @ c' @ r'" "ts = length (item_head k c')"
      "cs = length c'" "item_ok k c'"
    using readKind_Inr [OF calculation(1) assms] by blast
  ultimately show "b = item_head k c @ c @ r \<and> item_ok k c"
    by simp
next
  assume "b = item_head k c @ c @ r \<and> item_ok k c"
  then show "Split b = Inr (k, c, r)"
    using Split_item assms by simp
qed

fun rlp_kind :: "rlp \<Rightarrow> kind" where
  "rlp_kind (RStr b) = (if length b = 1 \<and> b ! 0 \<le> 0x7F then Byte else String)"
| "rlp_kind (RList vs) = List"

fun rlp_content :: "rlp \<Rightarrow> bytes" where
  "rlp_content (RStr b) = b"
| "rlp_content (RList vs) = concat (map rlp_enc vs)"

lemma byte_le_7F: "(b :: byte) \<le> 0x7F \<longleftrightarrow> b < 0x80"
  by (simp add: word_le_nat_alt word_less_nat_alt) linarith

lemma rlp_enc_item: "rlp_enc v = item_head (rlp_kind v) (rlp_content v) @ rlp_content v"
  by (cases v) (simp_all add: Let_def)

lemma rlp_item_ok: "item_ok (rlp_kind v) (rlp_content v)"
  by (cases v) (simp_all add: byte_le_7F)

lemma rlp_small_content: "rlp_small v \<Longrightarrow> length (rlp_content v) < 2 ^ 63"
  unfolding rlp_small_def using rlp_enc_item [of v] by simp

lemma Split_rlp_enc:
  "rlp_small v \<Longrightarrow> Split (rlp_enc v @ r) = Inr (rlp_kind v, rlp_content v, r)"
  using Split_item [OF rlp_small_content rlp_item_ok] by (simp add: rlp_enc_item)

lemma rlp_enc_nonempty: "rlp_enc v \<noteq> []"
  using rlp_enc_item [of v] rlp_item_ok [of v] by (cases "rlp_kind v") (auto simp: puthead_def Let_def)

lemma CountValues_concat:
  "length (concat (map rlp_enc vs)) < 2 ^ 63 \<Longrightarrow> CountValues (concat (map rlp_enc vs)) = Inr (length vs)"
proof (induction vs)
  case (Cons v vs)
  let ?rest = "concat (map rlp_enc vs)"
  have s: "rlp_small v" using Cons.prems by (simp add: rlp_small_def)
  have "readKind (rlp_enc v @ ?rest) =
      Inr (rlp_kind v, length (item_head (rlp_kind v) (rlp_content v)), length (rlp_content v))"
    using readKind_item [OF rlp_small_content [OF s] rlp_item_ok, of ?rest]
    by (simp add: rlp_enc_item [of v])
  moreover have "length (item_head (rlp_kind v) (rlp_content v)) + length (rlp_content v) = length (rlp_enc v)"
    by (simp add: rlp_enc_item [of v])
  ultimately show ?case
    using Cons rlp_enc_nonempty [of v] by (subst CountValues.simps) simp
qed (simp add: CountValues.simps)

lemma rlp_enc_prefix_free:
  assumes "rlp_small v" "rlp_small w" "rlp_enc v @ r = rlp_enc w @ s"
  shows "rlp_enc v = rlp_enc w \<and> r = s"
proof -
  have "rlp_kind v = rlp_kind w" "rlp_content v = rlp_content w" "r = s"
    using Split_rlp_enc [OF assms(1), of r] Split_rlp_enc [OF assms(2), of s] assms(3) by simp_all
  then show ?thesis
    by (simp only: rlp_enc_item [of v] rlp_enc_item [of w])
qed

end
