(* ===== verification/Hasher.thy ===== *)
theory Hasher
  imports Trie Rlp
begin

text \<open>
  Hashing and storing nodes: \<open>trie/hasher.go\<close>, the node codec of \<open>trie/node.go\<close> and the part of
  \<open>trie/database.go\<close> that keeps nodes in memory. The Keccak-256 function is the parameter
  \<open>K\<close>: the implementation is not part of the model, and what the theorems need of it (output
  length, no collision between the encodings at hand) is stated where it is used.

  The loader of the trie operations, a function from hashes to nodes, is \<open>Database_node\<close> of a
  database.
\<close>

type_synonym keccak = "bytes \<Rightarrow> bytes"

section \<open>Node caches and encoding\<close>

text \<open>The generation distance is computed in \<open>uint16\<close> and wraps.\<close>

definition flag_canUnload :: "nodeFlag \<Rightarrow> uint16 \<Rightarrow> uint16 \<Rightarrow> bool" where
  "flag_canUnload fl cachegen cachelimit \<longleftrightarrow> \<not> fl_dirty fl \<and> cachegen - fl_gen fl \<ge> cachelimit"

fun canUnload :: "node \<Rightarrow> uint16 \<Rightarrow> uint16 \<Rightarrow> bool" where
  "canUnload (FullN cs fl) g l = flag_canUnload fl g l"
| "canUnload (ShortN k v fl) g l = flag_canUnload fl g l"
| "canUnload n g l = False"

fun node_cache :: "node \<Rightarrow> bytes option \<times> bool" where
  "node_cache (FullN cs fl) = (fl_hash fl, fl_dirty fl)"
| "node_cache (ShortN k v fl) = (fl_hash fl, fl_dirty fl)"
| "node_cache n = (None, True)"

text \<open>
  The RLP value of a node. A full node writes an empty string for a missing child; a missing
  value of a short node is a nil interface, which is written as an empty list.
\<close>

fun node_rlp :: "node \<Rightarrow> rlp" where
  "node_rlp (FullN cs fl) =
     RList (map (\<lambda>c. case c of NilN \<Rightarrow> RStr [] | _ \<Rightarrow> node_rlp c) cs)"
| "node_rlp (ShortN k v fl) = RList [RStr k, node_rlp v]"
| "node_rlp (HashN h) = RStr h"
| "node_rlp (ValueN v) = RStr v"
| "node_rlp NilN = RList []"

section \<open>Cached nodes\<close>

datatype rawnode =
    RawNil | RawNode bytes | RawFull "rawnode list" | RawShort bytes rawnode | RawHash bytes
  | RawValue bytes

fun simplifyNode :: "node \<Rightarrow> rawnode" where
  "simplifyNode (ShortN k v fl) = RawShort k (simplifyNode v)"
| "simplifyNode (FullN cs fl) =
     RawFull (map (\<lambda>c. case c of NilN \<Rightarrow> RawNil | _ \<Rightarrow> simplifyNode c) cs)"
| "simplifyNode (ValueN v) = RawValue v"
| "simplifyNode (HashN h) = RawHash h"
| "simplifyNode NilN = RawNil"

text \<open>
  The code panics on an empty compact key, and on nil and unparsed nodes below an expanded one;
  none of them is ever stored. The model returns an empty key and a nil node there.
\<close>

definition expandKey :: "bytes \<Rightarrow> bytes" where
  "expandKey k = (case compactToHex k of None \<Rightarrow> [] | Some x \<Rightarrow> x)"

fun expandNode :: "bytes option \<Rightarrow> rawnode \<Rightarrow> uint16 \<Rightarrow> node" where
  "expandNode h (RawShort k v) g =
     ShortN (expandKey k) (expandNode None v g) \<lparr>fl_hash = h, fl_gen = g, fl_dirty = False\<rparr>"
| "expandNode h (RawFull cs) g =
     FullN (map (\<lambda>c. case c of RawNil \<Rightarrow> NilN | _ \<Rightarrow> expandNode None c g) cs)
       \<lparr>fl_hash = h, fl_gen = g, fl_dirty = False\<rparr>"
| "expandNode h (RawValue v) g = ValueN v"
| "expandNode h (RawHash x) g = HashN x"
| "expandNode h _ g = NilN"

record cachedNode =
  cn_node :: rawnode
  cn_size :: uint16
  cn_parents :: uint16
  cn_children :: "(hash \<times> uint16) list"
  cn_flushPrev :: hash
  cn_flushNext :: hash

record database =
  db_disk :: "hash \<Rightarrow> bytes option"
  db_nodes :: "hash \<Rightarrow> cachedNode option"
  db_oldest :: hash
  db_newest :: hash
  db_preimages :: "(hash \<times> bytes) list"
  db_nodesSize :: int
  db_preimagesSize :: int

definition newCachedNode :: cachedNode where
  "newCachedNode = \<lparr>cn_node = RawNil, cn_size = 0, cn_parents = 0, cn_children = [],
     cn_flushPrev = zeroHash, cn_flushNext = zeroHash\<rparr>"

definition NewDatabase :: "(hash \<Rightarrow> bytes option) \<Rightarrow> database" where
  "NewDatabase disk = \<lparr>db_disk = disk, db_nodes = [zeroHash \<mapsto> newCachedNode],
     db_oldest = zeroHash, db_newest = zeroHash, db_preimages = [], db_nodesSize = 0, db_preimagesSize = 0\<rparr>"

fun gatherChildren :: "rawnode \<Rightarrow> hash list" where
  "gatherChildren (RawShort k v) = gatherChildren v"
| "gatherChildren (RawFull cs) = concat (take 16 (map gatherChildren cs))"
| "gatherChildren (RawHash h) = [BytesToHash h]"
| "gatherChildren _ = []"

definition childs :: "cachedNode \<Rightarrow> hash list" where
  "childs n = map fst (cn_children n) @ gatherChildren (cn_node n)"

definition add_parent :: "hash \<Rightarrow> (hash \<Rightarrow> cachedNode option) \<Rightarrow> (hash \<Rightarrow> cachedNode option)" where
  "add_parent child nodes =
     (case nodes child of
        None \<Rightarrow> nodes
      | Some c \<Rightarrow> nodes(child \<mapsto> c\<lparr>cn_parents := cn_parents c + 1\<rparr>))"

text \<open>
  \<open>insert\<close> on a node that is already simplified. The code panics when the newest node of a non-empty flush
  list is not cached; the model keeps the nodes there, and the flush list invariant excludes the case.
\<close>

definition db_insert_raw :: "hash \<Rightarrow> bytes \<Rightarrow> rawnode \<Rightarrow> database \<Rightarrow> database" where
  "db_insert_raw h blob n db =
     (case db_nodes db h of
        Some _ \<Rightarrow> db
      | None \<Rightarrow>
          let entry = newCachedNode\<lparr>cn_node := n,
                cn_size := word_of_nat (length blob), cn_flushPrev := db_newest db\<rparr>;
              nodes = fold add_parent (childs entry) (db_nodes db);
              nodes = nodes(h \<mapsto> entry);
              nodes = (if db_oldest db = zeroHash then nodes
                       else case nodes (db_newest db) of
                              None \<Rightarrow> nodes
                            | Some c \<Rightarrow> nodes(db_newest db \<mapsto> c\<lparr>cn_flushNext := h\<rparr>))
          in db\<lparr>db_nodes := nodes,
                db_oldest := (if db_oldest db = zeroHash then h else db_oldest db),
                db_newest := h,
                db_nodesSize := db_nodesSize db + uint (32 + cn_size entry)\<rparr>)"

definition db_insert :: "hash \<Rightarrow> bytes \<Rightarrow> node \<Rightarrow> database \<Rightarrow> database" where
  "db_insert h blob n db = db_insert_raw h blob (simplifyNode n) db"

definition InsertBlob :: "hash \<Rightarrow> bytes \<Rightarrow> database \<Rightarrow> database" where
  "InsertBlob h blob db = db_insert_raw h blob (RawNode blob) db"

section \<open>The hasher\<close>

record hasher =
  h_cachegen :: uint16
  h_cachelimit :: uint16
  h_onleaf :: "(bytes \<Rightarrow> hash \<Rightarrow> database \<Rightarrow> database) option"

definition makeHashNode :: "keccak \<Rightarrow> bytes \<Rightarrow> bytes" where
  "makeHashNode K data = K data"

text \<open>The leaf callback on the value children of a stored node.\<close>

fun leaf_values :: "node \<Rightarrow> bytes list" where
  "leaf_values (ShortN k v fl) = (case v of ValueN b \<Rightarrow> [b] | _ \<Rightarrow> [])"
| "leaf_values (FullN cs fl) =
     concat (map (\<lambda>c. case c of ValueN b \<Rightarrow> [b] | _ \<Rightarrow> []) (take 16 cs))"
| "leaf_values n = []"

definition run_onleaf :: "hasher \<Rightarrow> node \<Rightarrow> hash \<Rightarrow> database \<Rightarrow> database" where
  "run_onleaf h n hash db =
     (case h_onleaf h of None \<Rightarrow> db | Some f \<Rightarrow> fold (\<lambda>b. f b hash) (leaf_values n) db)"

definition hasher_store ::
  "keccak \<Rightarrow> hasher \<Rightarrow> node \<Rightarrow> database option \<Rightarrow> bool \<Rightarrow> node \<times> database option" where
  "hasher_store K h n db force =
     (case n of
        NilN \<Rightarrow> (n, db)
      | HashN _ \<Rightarrow> (n, db)
      | _ \<Rightarrow>
          let tmp = EncodeToBytes (node_rlp n) in
          if length tmp < 32 \<and> \<not> force then (n, db)
          else
            let hash = (case fst (node_cache n) of None \<Rightarrow> makeHashNode K tmp | Some x \<Rightarrow> x)
            in (HashN hash,
                case db of
                  None \<Rightarrow> None
                | Some d \<Rightarrow>
                    Some (run_onleaf h n (BytesToHash hash) (db_insert (BytesToHash hash) tmp n d))))"

definition set_cached :: "node \<Rightarrow> database option \<Rightarrow> node \<Rightarrow> node" where
  "set_cached hashed db cached =
     (let upd = (\<lambda>fl. fl\<lparr>fl_hash := (case hashed of HashN x \<Rightarrow> Some x | _ \<Rightarrow> None),
                        fl_dirty := (if db \<noteq> None then False else fl_dirty fl)\<rparr>)
      in case cached of
           ShortN k v fl \<Rightarrow> ShortN k v (upd fl)
         | FullN cs fl \<Rightarrow> FullN cs (upd fl)
         | _ \<Rightarrow> cached)"

lemma size_list_take: "size_list f (take n xs) \<le> size_list f xs"
  by (induction xs arbitrary: n) (auto simp: take_Cons split: nat.splits)

function (sequential) hasher_hash ::
    "keccak \<Rightarrow> hasher \<Rightarrow> node \<Rightarrow> database option \<Rightarrow> bool \<Rightarrow> node \<times> node \<times> database option"
  and hashChildren ::
    "keccak \<Rightarrow> hasher \<Rightarrow> node \<Rightarrow> database option \<Rightarrow> node \<times> node \<times> database option"
  and hash_kids ::
    "keccak \<Rightarrow> hasher \<Rightarrow> node list \<Rightarrow> database option \<Rightarrow> node list \<times> node list \<times> database option"
where
  "hasher_hash K h n db force =
     (let full = (case hashChildren K h n db of
                    (collapsed, cached, db1) \<Rightarrow>
                      (case hasher_store K h collapsed db1 force of
                         (hashed, db2) \<Rightarrow> (hashed, set_cached hashed db2 cached, db2)))
      in case node_cache n of
           (Some x, dirty) \<Rightarrow>
             if db = None then (HashN x, n, db)
             else if canUnload n (h_cachegen h) (h_cachelimit h) then (HashN x, HashN x, db)
             else if \<not> dirty then (HashN x, n, db)
             else full
         | (None, dirty) \<Rightarrow> full)"
| "hashChildren K h (ShortN k v fl) db =
     (case v of
        ValueN b \<Rightarrow> (ShortN (hexToCompact k) v fl, ShortN k v fl, db)
      | _ \<Rightarrow>
          (case hasher_hash K h v db False of
             (hv, cv, db1) \<Rightarrow> (ShortN (hexToCompact k) hv fl, ShortN k cv fl, db1)))"
| "hashChildren K h (FullN cs fl) db =
     (case hash_kids K h (take 16 cs) db of
        (hs, cached, db1) \<Rightarrow> (FullN (hs @ drop 16 cs) fl, FullN (cached @ drop 16 cs) fl, db1))"
| "hashChildren K h n db = (n, n, db)"
| "hash_kids K h [] db = ([], [], db)"
| "hash_kids K h (c # cs) db =
     (let (hc, cc, db1) = (if is_NilN c then (c, c, db) else hasher_hash K h c db False);
          (hs, ccs, db2) = hash_kids K h cs db1
      in (hc # hs, cc # ccs, db2))"
  by pat_completeness auto
termination
  by (relation "measure (\<lambda>x. case x of
        Inl (_, _, n, _, _) \<Rightarrow> 2 * size n + 1
      | Inr (Inl (_, _, n, _)) \<Rightarrow> 2 * size n
      | Inr (Inr (_, _, cs, _)) \<Rightarrow> 2 * size_list size cs)")
    (auto simp: less_Suc_eq_le intro!: le_SucI mult_le_mono2 size_list_take)

declare hasher_hash.simps [simp del]

section \<open>Decoding stored nodes\<close>

datatype nodeError =
    NodeEOF | NodeRlp rlpError | NodeElems nat | OversizedEmbedded nat | InvalidRefSize nat
  | NodePanic | NodeOutOfFuel

text \<open>
  An embedded node is a proper part of its parent's encoding, so the length of the input is
  enough fuel. An element count that \<open>CountValues\<close> could not establish is zero.
\<close>

definition count_elems :: "bytes \<Rightarrow> nat" where
  "count_elems elems = (case CountValues elems of Inl _ \<Rightarrow> 0 | Inr c \<Rightarrow> c)"

fun decodeNode :: "nat \<Rightarrow> bytes option \<Rightarrow> bytes \<Rightarrow> uint16 \<Rightarrow> nodeError + node"
  and decodeRef :: "nat \<Rightarrow> bytes \<Rightarrow> uint16 \<Rightarrow> nodeError + (node \<times> bytes)"
  and decodeKids :: "nat \<Rightarrow> nat \<Rightarrow> bytes \<Rightarrow> uint16 \<Rightarrow> nodeError + (node list \<times> bytes)" where
  "decodeNode 0 hash buf g = Inl NodeOutOfFuel"
| "decodeNode (Suc f) hash buf g =
     (if length buf = 0 then Inl NodeEOF
      else
        let flag = \<lparr>fl_hash = hash, fl_gen = g, fl_dirty = False\<rparr> in
        case SplitList buf of
          Inl e \<Rightarrow> Inl (NodeRlp e)
        | Inr (elems, _) \<Rightarrow>
            let c = count_elems elems in
            if c = 2 then
              (case SplitString elems of
                 Inl e \<Rightarrow> Inl (NodeRlp e)
               | Inr (kbuf, rest) \<Rightarrow>
                   (case compactToHex kbuf of
                      None \<Rightarrow> Inl NodePanic
                    | Some key \<Rightarrow>
                        if hasTerm key then
                          (case SplitString rest of
                             Inl e \<Rightarrow> Inl (NodeRlp e)
                           | Inr (val, _) \<Rightarrow> Inr (ShortN key (ValueN val) flag))
                        else
                          (case decodeRef f rest g of
                             Inl e \<Rightarrow> Inl e
                           | Inr (r, _) \<Rightarrow> Inr (ShortN key r flag))))
            else if c = 17 then
              (case decodeKids f 16 elems g of
                 Inl e \<Rightarrow> Inl e
               | Inr (kids, rest) \<Rightarrow>
                   (case SplitString rest of
                      Inl e \<Rightarrow> Inl (NodeRlp e)
                    | Inr (val, _) \<Rightarrow>
                        Inr (FullN (kids @ [if length val > 0 then ValueN val else NilN]) flag)))
            else Inl (NodeElems c))"
| "decodeRef 0 buf g = Inl NodeOutOfFuel"
| "decodeRef (Suc f) buf g =
     (case Split buf of
        Inl e \<Rightarrow> Inl (NodeRlp e)
      | Inr (k, val, rest) \<Rightarrow>
          if k = List then
            if length buf - length rest > HashLength
            then Inl (OversizedEmbedded (length buf - length rest))
            else (case decodeNode f None buf g of Inl e \<Rightarrow> Inl e | Inr n \<Rightarrow> Inr (n, rest))
          else if k = String \<and> length val = 0 then Inr (NilN, rest)
          else if k = String \<and> length val = 32 then Inr (HashN val, rest)
          else Inl (InvalidRefSize (length val)))"
| "decodeKids f 0 elems g = Inr ([], elems)"
| "decodeKids f (Suc i) elems g =
     (case decodeRef f elems g of
        Inl e \<Rightarrow> Inl e
      | Inr (cld, rest) \<Rightarrow>
          (case decodeKids f i rest g of
             Inl e \<Rightarrow> Inl e
           | Inr (cs, rest) \<Rightarrow> Inr (cld # cs, rest)))"

definition node_decode_fuel :: "bytes \<Rightarrow> nat" where
  "node_decode_fuel buf = 2 * length buf + 2"

text \<open>
  \<open>mustDecodeNode\<close> panics on a malformed node. The model returns nothing there, which the trie reports as a
  missing node.
\<close>

definition mustDecodeNode :: "bytes option \<Rightarrow> bytes \<Rightarrow> uint16 \<Rightarrow> node option" where
  "mustDecodeNode hash buf g =
     (case decodeNode (node_decode_fuel buf) hash buf g of Inl e \<Rightarrow> None | Inr n \<Rightarrow> Some n)"

definition cachedNode_obj :: "cachedNode \<Rightarrow> hash \<Rightarrow> uint16 \<Rightarrow> node option" where
  "cachedNode_obj n hash g =
     (case cn_node n of
        RawNode b \<Rightarrow> mustDecodeNode (Some hash) b g
      | r \<Rightarrow> Some (expandNode (Some hash) r g))"

definition Database_node :: "database \<Rightarrow> nodeDb" where
  "Database_node db hash g =
     (case db_nodes db hash of
        Some n \<Rightarrow> cachedNode_obj n hash g
      | None \<Rightarrow>
          (case db_disk db hash of None \<Rightarrow> None | Some enc \<Rightarrow> mustDecodeNode (Some hash) enc g))"


section \<open>Root hash and commit\<close>

definition hashRoot ::
  "keccak \<Rightarrow> trie \<Rightarrow> database option \<Rightarrow> (bytes \<Rightarrow> hash \<Rightarrow> database \<Rightarrow> database) option \<Rightarrow>
   node \<times> node \<times> database option" where
  "hashRoot K t db onleaf =
     (if t_root t = NilN then (HashN emptyRoot, NilN, db)
      else hasher_hash K \<lparr>h_cachegen = t_cachegen t, h_cachelimit = t_cachelimit t, h_onleaf = onleaf\<rparr>
             (t_root t) db True)"

fun hashNode_bytes :: "node \<Rightarrow> bytes" where
  "hashNode_bytes (HashN h) = h"
| "hashNode_bytes _ = []"

definition trie_Hash :: "keccak \<Rightarrow> trie \<Rightarrow> hash \<times> trie" where
  "trie_Hash K t =
     (case hashRoot K t None None of
        (hash, cached, _) \<Rightarrow> (BytesToHash (hashNode_bytes hash), t\<lparr>t_root := cached\<rparr>))"

definition trie_Commit ::
  "keccak \<Rightarrow> trie \<Rightarrow> database \<Rightarrow> (bytes \<Rightarrow> hash \<Rightarrow> database \<Rightarrow> database) option \<Rightarrow>
   hash \<times> trie \<times> database" where
  "trie_Commit K t db onleaf =
     (case hashRoot K t (Some db) onleaf of
        (hash, cached, db') \<Rightarrow>
          (BytesToHash (hashNode_bytes hash),
           t\<lparr>t_root := cached, t_cachegen := t_cachegen t + 1, t_db := Database_node (the db')\<rparr>,
           the db'))"

end
