(* ===== verification/Interfaces.thy ===== *)
theory Interfaces
  imports Prelude
begin

text \<open>
  Contracts between components. \<open>kv_store\<close> is what a client of the trie relies on: the
  fallible operations succeed on a store that represents a map, and act on that map as lookup,
  update and removal. The lemmas below are proved once from the contract.
\<close>

section \<open>Key/value stores\<close>

datatype ('k, 'v) kv_op = Put 'k 'v | Del 'k

fun kv_apply :: "('k \<rightharpoonup> 'v) \<Rightarrow> ('k, 'v) kv_op \<Rightarrow> ('k \<rightharpoonup> 'v)" where
  "kv_apply m (Put k v) = m(k \<mapsto> v)"
| "kv_apply m (Del k) = m(k := None)"

text \<open>Running a sequence of updates on a store stops at the first error.\<close>

fun kv_run :: "('s \<Rightarrow> 'k \<Rightarrow> 'v \<Rightarrow> 'e + 's) \<Rightarrow> ('s \<Rightarrow> 'k \<Rightarrow> 'e + 's) \<Rightarrow> 's \<Rightarrow>
    ('k, 'v) kv_op list \<Rightarrow> 'e + 's" where
  "kv_run put del s [] = Inr s"
| "kv_run put del s (Put k v # ops) =
     (case put s k v of Inl e \<Rightarrow> Inl e | Inr s' \<Rightarrow> kv_run put del s' ops)"
| "kv_run put del s (Del k # ops) =
     (case del s k of Inl e \<Rightarrow> Inl e | Inr s' \<Rightarrow> kv_run put del s' ops)"

fun op_ok :: "('v \<Rightarrow> bool) \<Rightarrow> ('k, 'v) kv_op \<Rightarrow> bool" where
  "op_ok storable (Put k v) = storable v"
| "op_ok storable (Del k) = True"

locale kv_store =
  fixes rep :: "'s \<Rightarrow> ('k \<rightharpoonup> 'v) \<Rightarrow> bool"
    and get :: "'s \<Rightarrow> 'k \<Rightarrow> 'e + ('v option \<times> 's)"
    and put :: "'s \<Rightarrow> 'k \<Rightarrow> 'v \<Rightarrow> 'e + 's"
    and del :: "'s \<Rightarrow> 'k \<Rightarrow> 'e + 's"
    and storable :: "'v \<Rightarrow> bool"
  assumes rep_functional: "rep s m \<Longrightarrow> rep s m' \<Longrightarrow> m = m'"
    and rep_storable: "rep s m \<Longrightarrow> m k = Some v \<Longrightarrow> storable v"
    and get_rep: "rep s m \<Longrightarrow> \<exists>s'. get s k = Inr (m k, s') \<and> rep s' m"
    and put_rep: "rep s m \<Longrightarrow> storable v \<Longrightarrow> \<exists>s'. put s k v = Inr s' \<and> rep s' (m(k \<mapsto> v))"
    and del_rep: "rep s m \<Longrightarrow> \<exists>s'. del s k = Inr s' \<and> rep s' (m(k := None))"
begin

lemma run_rep:
  "rep s m \<Longrightarrow> list_all (op_ok storable) ops \<Longrightarrow>
   \<exists>s'. kv_run put del s ops = Inr s' \<and> rep s' (foldl kv_apply m ops)"
proof (induction ops arbitrary: s m)
  case Nil
  then show ?case by simp
next
  case (Cons a ops)
  show ?case
  proof (cases a)
    case (Put k v)
    then obtain s' where "put s k v = Inr s'" "rep s' (m(k \<mapsto> v))"
      using put_rep Cons.prems by fastforce
    moreover have "list_all (op_ok storable) ops"
      using Cons.prems(2) by simp
    ultimately have "put s k v = Inr s'" "\<exists>s''. kv_run put del s' ops = Inr s'' \<and>
        rep s'' (foldl kv_apply (m(k \<mapsto> v)) ops)"
      using Cons.IH by blast+
    then show ?thesis
      using Put by simp
  next
    case (Del k)
    then obtain s' where "del s k = Inr s'" "rep s' (m(k := None))"
      using del_rep Cons.prems by fastforce
    moreover have "list_all (op_ok storable) ops"
      using Cons.prems(2) by simp
    ultimately have "del s k = Inr s'" "\<exists>s''. kv_run put del s' ops = Inr s'' \<and>
        rep s'' (foldl kv_apply (m(k := None)) ops)"
      using Cons.IH by blast+
    then show ?thesis
      using Del by simp
  qed
qed

lemma run_get:
  assumes "rep s m" "list_all (op_ok storable) ops"
  shows "\<exists>s' s''. kv_run put del s ops = Inr s' \<and> get s' k = Inr (foldl kv_apply m ops k, s'')"
  using run_rep [OF assms] get_rep by blast

end

end
