(* ===== verification/Trie_Refinement.thy ===== *)
theory Trie_Refinement
  imports Trie Interfaces
begin

text \<open>
  The operations of theory \<open>Trie\<close> implement the abstract Patricia tree: on a node that
  \<open>expands\<close> to a canonical tree, lookup, insertion and deletion succeed, and their results
  expand to what \<open>xlookup\<close>, \<open>xinsert\<close> and \<open>xdelete\<close> give. Hence a trie represents a
  map (\<open>trie_rep\<close>) and satisfies the contract \<open>kv_store\<close>.
\<close>

section \<open>Simulation\<close>

lemma expands_functional: "expands db n s \<Longrightarrow> expands db n t \<Longrightarrow> s = t"
proof (induction arbitrary: t rule: expands.induct)
  case (exp_full cs ts fl)
  then obtain us where us: "t = XFull us" "list_all2 (expands db) cs us" by auto
  have len: "length cs = length ts" "length cs = length us"
    using exp_full.IH us(2) by (blast dest: list_all2_lengthD)+
  have "ts = us"
  proof (rule nth_equalityI)
    show "length ts = length us"
      using len by simp
    show "ts ! i = us ! i" if "i < length ts" for i
    proof -
      have "expands db (cs ! i) (us ! i)"
        using us(2) len that by (simp add: list_all2_conv_all_nth)
      then show ?thesis
        using list_all2_nthD2 [OF exp_full.IH that] by blast
    qed
  qed
  with us show ?case by simp
next
  case (exp_hash h f s)
  from exp_hash.prems obtain f' where f': "db (BytesToHash h) 0 = Some (f' 0)" "expands db (f' 0) t"
    by (auto elim: expands_hashE)
  moreover have "f' 0 = f 0"
    using f'(1) exp_hash.hyps(1) [of 0] by simp
  ultimately show ?case
    using exp_hash.IH [of 0] by simp
next
  case (exp_short n t k fl)
  then show ?case by blast
qed blast+

lemma resolveHash_expands:
  assumes "expands db (HashN h) t"
  obtains n where "resolveHash db g h p = Inr n" "is_branchN n" "expands db n t"
  using assms by (elim expands_hashE) (simp add: resolveHash_def)

text \<open>Fuel a node needs for the rest of a key.\<close>

definition node_fuel :: "node \<Rightarrow> bytes \<Rightarrow> nat" where
  "node_fuel n key = 2 * length key + (case n of HashN _ \<Rightarrow> 2 | _ \<Rightarrow> 1)"

lemma node_fuel_branch: "is_branchN n \<Longrightarrow> node_fuel n key = 2 * length key + 1"
  by (cases n) (auto simp: node_fuel_def is_branchN_def)

lemma node_fuel_le: "node_fuel n key \<le> 2 * length key + 2"
  by (cases n) (auto simp: node_fuel_def)

lemma tryGet_sim:
  assumes "expands db n t" "fits t (drop pos key)" "node_fuel n (drop pos key) \<le> f"
    "pos \<le> length key"
  shows "\<exists>n' d. tryGet f db g n key pos = Inr (xlookup t (drop pos key), n', d) \<and> expands db n' t"
  using assms
proof (induction arbitrary: pos f rule: expands.induct)
  case exp_nil
  then show ?case by (cases f) (auto simp: node_fuel_def)
next
  case (exp_value v)
  then have "drop pos key = []"
    by (auto simp: fits_def canon_root_def split: if_splits)
  then show ?case
    using exp_value by (cases f) (auto simp: node_fuel_def)
next
  case (exp_short n t k fl)
  let ?r = "drop pos key"
  have c: "canon (XShort k t)" "term_key ?r"
    using exp_short.prems(1) by (auto simp: fits_def canon_root_def val_child_def split: if_splits)
  obtain f' where f: "f = Suc f'" "2 * length ?r \<le> f'"
    using exp_short.prems(2) by (cases f) (auto simp: node_fuel_def)
  show ?case
  proof (cases "prefix k ?r")
    case True
    then obtain r where r: "?r = k @ r" by (auto simp: prefix_def)
    have kne: "k \<noteq> []" using canon_short_key c by blast
    have d: "drop (pos + length k) key = r"
      using r by (metis append_eq_conv_conj drop_drop add.commute)
    have lenr: "length ?r = length k + length r" using r by simp
    then have "pos + length k \<le> length key" using kne by (cases k) auto
    moreover have "fits t r"
      using fits_short [OF c True] r by simp
    moreover have "node_fuel n r \<le> f'"
      using f(2) lenr kne node_fuel_le [of n r] by (cases k) auto
    ultimately obtain n' d' where IH: "tryGet f' db g n key (pos + length k) = Inr (xlookup t r, n', d')"
      "expands db n' t"
      using exp_short.IH [of "pos + length k" f'] d by auto
    have "\<not> length key - pos < length k"
      using lenr by simp
    then show ?thesis
      using IH r True exp_short.hyps by (auto simp: f)
  next
    case False
    then have "k \<noteq> take (length k) ?r"
      by (metis take_is_prefix)
    then show ?thesis
      using False exp_short.hyps by (auto simp: f)
  qed
next
  case (exp_full cs ts fl)
  let ?r = "drop pos key"
  have c: "canon (XFull ts)" "term_key ?r"
    using exp_full.prems(1) by (auto simp: fits_def canon_root_def val_child_def split: if_splits)
  obtain x xs where r: "?r = x # xs"
    using c(2) by (cases ?r) auto
  have x: "x = key ! pos" "pos < length key" "xs = drop (Suc pos) key"
    using r nth_via_drop [OF r] drop_eq_Nil [of pos key] Cons_nth_drop_Suc [of pos key]
    by (cases "pos < length key"; simp)+
  obtain f' where f: "f = Suc f'" "2 * length ?r \<le> f'"
    using exp_full.prems(2) by (cases f) (auto simp: node_fuel_def)
  have lt: "unat x < 17" "fits (ts ! unat x) xs"
    using fits_child [OF c(1), of x xs] c(2) r by auto
  have len: "length cs = length ts" "length ts = 17"
    using exp_full.IH c(1) by (auto simp: canon_full_iff dest: list_all2_lengthD)
  have "node_fuel (cs ! unat x) xs \<le> f'"
    using f(2) r node_fuel_le [of "cs ! unat x" xs] by auto
  then obtain n' d' where IH: "tryGet f' db g (cs ! unat x) key (Suc pos) = Inr (xlookup (ts ! unat x) xs, n', d')"
      "expands db n' (ts ! unat x)"
    using list_all2_nthD [OF exp_full.IH, of "unat x"] lt len x by (metis Suc_leI)
  have "list_all2 (expands db) (cs[unat x := n']) ts"
    using list_all2_update_cong [of "expands db" cs ts n' "ts ! unat x" "unat x"] IH(2) exp_full.IH lt len
    by (simp add: list_all2_conv_all_nth)
  moreover have "list_all2 (expands db) cs ts"
    using exp_full.IH by (simp add: list_all2_conv_all_nth)
  ultimately show ?case
    using IH x r lt len by (auto simp: f)
next
  case (exp_hash h hf t)
  obtain f' where f: "f = Suc f'" "2 * length (drop pos key) + 1 \<le> f'"
    using exp_hash.prems(2) by (cases f) (auto simp: node_fuel_def)
  have "resolveHash db g h (take pos key) = Inr (hf g)"
    using exp_hash.hyps by (simp add: resolveHash_def)
  moreover have "node_fuel (hf g) (drop pos key) \<le> f'"
    using f(2) exp_hash.hyps(2) by (simp add: node_fuel_branch)
  then obtain n' d' where "tryGet f' db g (hf g) key pos = Inr (xlookup t (drop pos key), n', d')"
      "expands db n' t"
    using exp_hash.IH exp_hash.prems by blast
  ultimately show ?case
    by (auto simp: f)
qed

lemma trie_insert_nil:
  "trie_insert (Suc f) db g NilN pfx key value =
     Inr (True, if key = [] then value else ShortN key value (newFlag g))"
  by simp

lemma expands_xmk:
  "expands db n t \<Longrightarrow> expands db (if k = [] then n else ShortN k n fl) (xmk k t)"
  by (auto simp: xmk_def)

lemma expands_xbranch:
  assumes "expands db n s" "expands db m t"
  shows "expands db (FullN ((replicate 17 NilN)[unat a := n, unat b := m]) fl) (xbranch a s b t)"
proof -
  have "list_all2 (expands db) (replicate 17 NilN) (replicate 17 XNil)"
    by (simp add: list_all2_conv_all_nth exp_nil)
  then show ?thesis
    unfolding xbranch_def
    using assms by (intro exp_full list_all2_update_cong)
qed

lemma trie_insert_sim:
  assumes "expands db n t" "fits t key" "node_fuel n key \<le> f"
  shows "\<exists>d n'. trie_insert f db g n pfx key (ValueN v) = Inr (d, n') \<and>
           expands db n' (xinsert t key v) \<and> (\<not> d \<longrightarrow> xinsert t key v = t)"
  using assms
proof (induction arbitrary: key f pfx rule: expands.induct)
  case exp_nil
  then show ?case by (cases f) (auto simp: node_fuel_def xmk_def)
next
  case (exp_value w)
  then have "key = []"
    by (auto simp: fits_def canon_root_def split: if_splits)
  then show ?case
    using exp_value by (cases f) (auto simp: node_fuel_def)
next
  case (exp_short n t k fl)
  have c: "canon (XShort k t)" "term_key key"
    using exp_short.prems(1) by (auto simp: fits_def canon_root_def val_child_def split: if_splits)
  have kne: "k \<noteq> []" "key \<noteq> []" using canon_short_key c by auto
  obtain f' where f: "f = Suc f'" "2 * length key \<le> f'"
    using exp_short.prems(2) by (cases f) (auto simp: node_fuel_def)
  show ?case
  proof (cases "prefix k key")
    case True
    then have m: "prefixLen key k = length k"
      by (simp add: prefixLen_eq_length_iff)
    let ?r = "drop (length k) key"
    have "node_fuel n ?r \<le> f'"
      using f(2) True kne node_fuel_le [of n ?r] prefix_length_le [OF True] by (cases k) auto
    then obtain d n' where IH: "trie_insert f' db g n (pfx @ take (length k) key) ?r (ValueN v) = Inr (d, n')"
      "expands db n' (xinsert t ?r v)" "\<not> d \<longrightarrow> xinsert t ?r v = t"
      using exp_short.IH [of ?r f'] fits_short [OF c True] by blast
    show ?thesis
      using IH m kne exp_short.hyps by (auto simp: f Let_def)
  next
    case False
    then have lt: "prefixLen key k < length k"
      using prefixLen_le(2) [of key k] by (simp add: le_less prefixLen_eq_length_iff)
    obtain p a b k' r where s: "k = p @ a # k'" "key = p @ b # r" "a \<noteq> b" "prefixLen key k = length p"
      by (rule prefixLen_split [OF lt prefixLen_lt_key [OF c lt]])
    have ab: "unat a < 17" "unat b < 17"
      using canon_short_split [of p a k' t] term_key_split [of p b r] c s by auto
    obtain f'' where f'': "f' = Suc f''"
      using f(2) kne by (cases f') auto
    let ?c1 = "if k' = [] then n else ShortN k' n (newFlag g)"
    let ?c2 = "if r = [] then ValueN v else ShortN r (ValueN v) (newFlag g)"
    let ?br = "FullN ((replicate 17 NilN)[unat a := ?c1, unat b := ?c2]) (newFlag g)"
    have ins: "trie_insert f db g (ShortN k n fl) pfx key (ValueN v) =
      Inr (True, if p = [] then ?br else ShortN p ?br (newFlag g))"
      using s ab by (simp add: f f'' Let_def)
    have "expands db ?br (xbranch a (xmk k' t) b (xmk r (XVal v)))"
      using exp_short.hyps by (intro expands_xbranch expands_xmk exp_value)
    then have "expands db (if p = [] then ?br else ShortN p ?br (newFlag g))
      (xmk p (xbranch a (xmk k' t) b (xmk r (XVal v))))"
      by (rule expands_xmk)
    then show ?thesis
      unfolding ins xinsert_short_split [OF s(1,2,3)] by blast
  qed
next
  case (exp_full cs ts fl)
  have c: "canon (XFull ts)" "term_key key"
    using exp_full.prems(1) by (auto simp: fits_def canon_root_def val_child_def split: if_splits)
  obtain x xs where r: "key = x # xs"
    using c(2) by (cases key) auto
  obtain f' where f: "f = Suc f'" "2 * length key \<le> f'"
    using exp_full.prems(2) by (cases f) (auto simp: node_fuel_def)
  have lt: "unat x < 17" "fits (ts ! unat x) xs"
    using fits_child [OF c(1), of x xs] c(2) r by auto
  have len: "length cs = length ts" "length ts = 17"
    using exp_full.IH c(1) by (auto simp: canon_full_iff dest: list_all2_lengthD)
  have all: "list_all2 (expands db) cs ts"
    using exp_full.IH by (simp add: list_all2_conv_all_nth)
  have "node_fuel (cs ! unat x) xs \<le> f'"
    using f(2) r node_fuel_le [of "cs ! unat x" xs] by auto
  then obtain d n' where IH: "trie_insert f' db g (cs ! unat x) (pfx @ [x]) xs (ValueN v) = Inr (d, n')"
      "expands db n' (xinsert (ts ! unat x) xs v)" "\<not> d \<longrightarrow> xinsert (ts ! unat x) xs v = ts ! unat x"
    using list_all2_nthD [OF exp_full.IH, of "unat x"] lt by (simp add: len) blast
  have "list_all2 (expands db) (cs[unat x := n']) (ts[unat x := xinsert (ts ! unat x) xs v])"
    using all IH(2) by (rule list_all2_update_cong)
  then show ?case
    using IH r lt len all by (auto simp: f)
next
  case (exp_hash h hf t)
  obtain f' where f: "f = Suc f'" "2 * length key + 1 \<le> f'"
    using exp_hash.prems(2) by (cases f) (auto simp: node_fuel_def)
  have res: "resolveHash db g h pfx = Inr (hf g)"
    using exp_hash.hyps by (simp add: resolveHash_def)
  have "node_fuel (hf g) key \<le> f'"
    using f(2) exp_hash.hyps(2) by (simp add: node_fuel_branch)
  then obtain d n' where IH: "trie_insert f' db g (hf g) pfx key (ValueN v) = Inr (d, n')"
      "expands db n' (xinsert t key v)" "\<not> d \<longrightarrow> xinsert t key v = t"
    using exp_hash.IH exp_hash.prems by blast
  have "key \<noteq> []"
  proof
    assume "key = []"
    then have "val_child t" using exp_hash.prems(1) by (simp add: fits_def)
    then show False
      using exp_hash.hyps(2,3) [of g] by (cases "hf g") (auto simp: is_branchN_def val_child_def)
  qed
  then show ?case
    using IH res exp_hash.hyps(3) by (auto simp: f)
qed


lemma childPos_noneg: "pos \<noteq> -1 \<Longrightarrow> childPos i pos cs = (if \<exists>c \<in> set cs. \<not> is_NilN c then -2 else pos)"
  by (induction cs arbitrary: i) auto

lemma childPos_start:
  "childPos i (-1) cs =
     (case filter (\<lambda>j. \<not> is_NilN (cs ! j)) [0..<length cs] of
        [] \<Rightarrow> -1 | [j] \<Rightarrow> int (i + j) | _ \<Rightarrow> -2)"
proof (induction cs arbitrary: i)
  case Nil
  then show ?case by simp
next
  case (Cons c cs)
  let ?F = "\<lambda>xs. filter (\<lambda>j. \<not> is_NilN (xs ! j)) [0..<length xs]"
  have up: "?F (c # cs) = (if is_NilN c then [] else [0]) @ map Suc (?F cs)"
    by (simp add: upt_conv_Cons map_Suc_upt [symmetric] filter_map comp_def del: upt_Suc)
  show ?case
  proof (cases "is_NilN c")
    case True
    then show ?thesis
      using Cons [of "Suc i"] up by (auto split: list.splits)
  next
    case False
    have "(\<exists>c \<in> set cs. \<not> is_NilN c) \<longleftrightarrow> ?F cs \<noteq> []"
      by (force simp: filter_empty_conv in_set_conv_nth)
    then show ?thesis
      using False up by (auto simp: childPos_noneg split: list.splits)
  qed
qed

lemma expands_is_nil: "expands db n t \<Longrightarrow> is_NilN n \<longleftrightarrow> t = XNil"
proof (induction rule: expands.induct)
  case (exp_hash h f t)
  then have "is_branchN (f 0)" "is_NilN (f 0) = (t = XNil)" by auto
  then show ?case by (cases "f 0") (auto simp: is_branchN_def)
qed auto

lemma childPos_live:
  assumes "list_all2 (expands db) cs ts"
  shows "childPos 0 (-1) cs = (case live ts of [] \<Rightarrow> -1 | [j] \<Rightarrow> int j | _ \<Rightarrow> -2)"
proof -
  have "filter (\<lambda>j. \<not> is_NilN (cs ! j)) [0..<length cs] = live ts"
    unfolding live_def using assms list_all2_lengthD [OF assms]
    by (intro filter_cong) (auto simp: list_all2_conv_all_nth dest: expands_is_nil)
  then show ?thesis
    by (simp add: childPos_start cong: list.case_cong)
qed

lemma expands_resolve:
  assumes "expands db n t" "t \<noteq> XNil" "\<forall>v. t \<noteq> XVal v"
  obtains n' where "resolve db g n p = Inr n'" "expands db n' t" "is_branchN n'"
proof (cases n)
  case (HashN h)
  then show thesis
    using that assms(1) resolveHash_expands [of db h t g p] by (auto simp: resolve_def)
qed (use assms that in \<open>auto simp: resolve_def is_branchN_def\<close>)

lemma reduceFull_expands:
  assumes "list_all2 (expands db) cs ts" "length ts = 17" "live ts \<noteq> []"
    and "\<forall>i < 16. canon_root (ts ! i)" "val_child (ts ! 16)"
  shows "\<exists>n'. reduceFull db g cs pfx = Inr (True, n') \<and> expands db n' (xcollapse ts)
     \<and> (\<forall>h. n' \<noteq> HashN h)"
proof (cases "\<exists>i. live ts = [i]")
  case True
  then obtain i where i: "live ts = [i]" by blast
  then have lt: "i < 17" "ts ! i \<noteq> XNil"
    using assms set_live [of ts] by auto
  have pos: "childPos 0 (-1) cs = int i"
    using i by (simp add: childPos_live [OF assms(1)])
  have ex: "expands db (cs ! i) (ts ! i)"
    using assms lt by (simp add: list_all2_conv_all_nth)
  show ?thesis
  proof (cases "i = 16")
    case True
    then obtain v where v: "ts ! 16 = XVal v"
      using lt assms(5) by (auto simp: val_child_def split: xt.splits)
    then show ?thesis
      using True pos ex i
      by (auto simp: reduceFull_def xcollapse_def xshort_def intro!: expands_intros)
  next
    case False
    then have "i < 16" using lt by simp
    then have c: "canon (ts ! i)" using assms(4) lt by (auto simp: canon_root_def)
    then obtain n' where n': "resolve db g (cs ! i) pfx = Inr n'" "expands db n' (ts ! i)" "is_branchN n'"
      using expands_resolve [OF ex, of g pfx thesis] by (cases "ts ! i") auto
    show ?thesis
      using n' ex pos False i
      by (cases n')
        (auto simp: reduceFull_def is_branchN_def xcollapse_def xshort_def intro!: expands_intros)
  qed
next
  case False
  then have "childPos 0 (-1) cs = -2" "xcollapse ts = XFull ts"
    using assms(3) by (auto simp: childPos_live [OF assms(1)] xcollapse_def split: list.splits)
  then show ?thesis
    using assms(1) by (auto simp: reduceFull_def)
qed

lemma xdelete_short_full:
  assumes "canon (XShort k t)" "term_key key" "prefix k key" "length key \<noteq> length k"
  shows "\<exists>us. t = XFull us"
proof -
  have "drop (length k) key \<noteq> []"
    using assms(3,4) prefix_length_le [of k key] by auto
  then show ?thesis
    using assms(1) fits_short [OF assms(1-3)]
    by (cases t) (auto simp: fits_def canon_root_def)
qed

lemma xdelete_children:
  assumes "canon (XFull ts)" "term_key (x # xs)"
  defines "us \<equiv> ts[unat x := xdelete (ts ! unat x) xs]"
  shows "live us \<noteq> []" "\<forall>i < 16. canon_root (us ! i)" "val_child (us ! 16)"
proof -
  let ?u = "xdelete (ts ! unat x) xs"
  have x: "unat x < length ts" "length ts = 17"
    using fits_child(1) [OF assms(1,2)] assms(1) by (auto simp: canon_full_iff)
  have ih: "if xs = [] then ?u = XNil else canon_root ?u"
    using canon_xdelete fits_child(2) [OF assms(1,2)] by blast
  have iff: "unat x = 16 \<longleftrightarrow> xs = []"
    using assms(2) by (simp add: unat_term_key)
  show "live us \<noteq> []"
    unfolding us_def using assms(1) by (intro live_update_ne) (simp add: canon_full_iff)
  have "canon_root (us ! i)" if "i < 16" for i
    unfolding us_def using ih assms(1) that iff
    by (cases "i = unat x") (auto simp: canon_full_iff canon_root_def)
  then show "\<forall>i < 16. canon_root (us ! i)" by blast
  show "val_child (us ! 16)"
    unfolding us_def using ih assms(1) iff x
    by (cases "unat x = 16") (auto simp: canon_full_iff val_child_def)
qed

lemma trie_delete_sim:
  assumes "expands db n t" "fits t key" "node_fuel n key \<le> f"
  shows "\<exists>d n'. trie_delete f db g n pfx key = Inr (d, n') \<and>
           expands db n' (xdelete t key) \<and> (if d then \<forall>h. n' \<noteq> HashN h else xdelete t key = t)"
  using assms
proof (induction arbitrary: key f pfx rule: expands.induct)
  case exp_nil
  then show ?case by (cases f) (auto simp: node_fuel_def)
next
  case (exp_value w)
  then show ?case by (cases f) (auto simp: node_fuel_def)
next
  case (exp_short n t k fl)
  have c: "canon (XShort k t)" "term_key key"
    using exp_short.prems(1) by (auto simp: fits_def canon_root_def val_child_def split: if_splits)
  have kne: "k \<noteq> []" using canon_short_key c by auto
  obtain f' where f: "f = Suc f'" "2 * length key \<le> f'"
    using exp_short.prems(2) by (cases f) (auto simp: node_fuel_def)
  show ?case
  proof (cases "prefix k key")
    case False
    then have "prefixLen key k < length k"
      using prefixLen_le(2) [of key k] by (simp add: le_less prefixLen_eq_length_iff)
    then show ?thesis
      using False exp_short.hyps by (auto simp: f Let_def)
  next
    case True
    then have m: "prefixLen key k = length k"
      by (simp add: prefixLen_eq_length_iff)
    let ?r = "drop (length k) key"
    show ?thesis
    proof (cases "length key = length k")
      case True
      then show ?thesis
        using \<open>prefix k key\<close> m by (auto simp: f Let_def)
    next
      case False
      obtain us where us: "t = XFull us"
        using xdelete_short_full [OF c True False] by blast
      have "node_fuel n ?r \<le> f'"
        using f(2) True kne node_fuel_le [of n ?r] prefix_length_le [OF True] by (cases k) auto
      then obtain d n' where IH: "trie_delete f' db g n (pfx @ take (length k) key) ?r = Inr (d, n')"
        "expands db n' (xdelete t ?r)" "if d then \<forall>h. n' \<noteq> HashN h else xdelete t ?r = t"
        using exp_short.IH [of ?r f'] fits_short [OF c True] by blast
      have del: "xdelete (XShort k t) key = xshort k (xdelete t ?r)"
        using True False by simp
      show ?thesis
      proof (cases d)
        case True
        let ?n = "case n' of ShortN ck cv cfl \<Rightarrow> ShortN (k @ ck) cv (newFlag g)
            | _ \<Rightarrow> ShortN k n' (newFlag g)"
        have "expands db ?n (xshort k (xdelete t ?r))"
          using IH(2,3) True by (cases n') (auto simp: xshort_def intro!: expands_intros)
        moreover have "?n \<noteq> HashN h" for h
          by (cases n') auto
        ultimately show ?thesis
          unfolding del using IH True m False by (auto simp: f Let_def)
      next
        case False
        then show ?thesis
          unfolding del using IH us m exp_short.hyps \<open>length key \<noteq> length k\<close>
          by (auto simp: f Let_def xshort_def)
      qed
    qed
  qed
next
  case (exp_full cs ts fl)
  have c: "canon (XFull ts)" "term_key key"
    using exp_full.prems(1) by (auto simp: fits_def canon_root_def val_child_def split: if_splits)
  obtain x xs where r: "key = x # xs"
    using c(2) by (cases key) auto
  obtain f' where f: "f = Suc f'" "2 * length key \<le> f'"
    using exp_full.prems(2) by (cases f) (auto simp: node_fuel_def)
  have lt: "unat x < 17" "fits (ts ! unat x) xs"
    using fits_child [OF c(1), of x xs] c(2) r by auto
  have len: "length cs = length ts" "length ts = 17"
    using exp_full.IH c(1) by (auto simp: canon_full_iff dest: list_all2_lengthD)
  have all: "list_all2 (expands db) cs ts"
    using exp_full.IH by (simp add: list_all2_conv_all_nth)
  have "node_fuel (cs ! unat x) xs \<le> f'"
    using f(2) r node_fuel_le [of "cs ! unat x" xs] by auto
  then obtain d n' where IH: "trie_delete f' db g (cs ! unat x) (pfx @ [x]) xs = Inr (d, n')"
      "expands db n' (xdelete (ts ! unat x) xs)"
      "if d then \<forall>h. n' \<noteq> HashN h else xdelete (ts ! unat x) xs = ts ! unat x"
    using list_all2_nthD [OF exp_full.IH, of "unat x"] lt by (simp add: len) blast
  let ?ts = "ts[unat x := xdelete (ts ! unat x) xs]"
  have upd: "list_all2 (expands db) (cs[unat x := n']) ?ts"
    using all IH(2) by (rule list_all2_update_cong)
  have del: "xdelete (XFull ts) key = xcollapse ?ts"
    using r lt len by simp
  show ?case
  proof (cases d)
    case True
    have "live ?ts \<noteq> []" "\<forall>i < 16. canon_root (?ts ! i)" "val_child (?ts ! 16)"
      using xdelete_children [OF c(1), of x xs] c(2) r by auto
    then obtain m where "reduceFull db g (cs[unat x := n']) pfx = Inr (True, m)"
        "expands db m (xcollapse ?ts)" "\<forall>h. m \<noteq> HashN h"
      using reduceFull_expands [OF upd, of g pfx] len by auto
    then show ?thesis
      unfolding del using len True IH(1) r lt by (auto simp: f)
  next
    case False
    then have "?ts = ts" using IH(3) by simp
    moreover have "xcollapse ts = XFull ts"
      using c(1) by (auto simp: xcollapse_def canon_full_iff split: list.splits)
    ultimately show ?thesis
      using False IH(1) r lt len all unfolding del by (auto simp: f)
  qed
next
  case (exp_hash h hf t)
  obtain f' where f: "f = Suc f'" "2 * length key + 1 \<le> f'"
    using exp_hash.prems(2) by (cases f) (auto simp: node_fuel_def)
  have res: "resolveHash db g h pfx = Inr (hf g)"
    using exp_hash.hyps by (simp add: resolveHash_def)
  have "node_fuel (hf g) key \<le> f'"
    using f(2) exp_hash.hyps(2) by (simp add: node_fuel_branch)
  then obtain d n' where IH: "trie_delete f' db g (hf g) pfx key = Inr (d, n')"
      "expands db n' (xdelete t key)" "if d then \<forall>h. n' \<noteq> HashN h else xdelete t key = t"
    using exp_hash.IH exp_hash.prems by blast
  then show ?case
    using res exp_hash.hyps(3) by (auto simp: f)
qed

section \<open>Tries as maps\<close>

text \<open>
  \<open>trie_rep t m\<close>: the trie \<open>t\<close> stores the key/value map \<open>m\<close>. Keys are the caller's byte
  slices; values are not empty.
\<close>

definition xmap :: "xt \<Rightarrow> bytes \<Rightarrow> bytes option" where
  "xmap x key = xlookup x (keybytesToHex key)"

text \<open>A tree reached through the byte-string interface holds only keys of whole bytes.\<close>

definition byte_keys :: "xt \<Rightarrow> bool" where
  "byte_keys x \<longleftrightarrow> (\<forall>key. term_key key \<longrightarrow> xlookup x key \<noteq> None \<longrightarrow> odd (length key))"

definition trie_rep :: "trie \<Rightarrow> (bytes \<rightharpoonup> bytes) \<Rightarrow> bool" where
  "trie_rep t m \<longleftrightarrow>
     (\<exists>x. expands (t_db t) (t_root t) x \<and> canon_root x \<and> m = xmap x \<and> byte_keys x)"

lemma trie_repE:
  assumes "trie_rep t m"
  obtains x where "expands (t_db t) (t_root t) x" "canon_root x" "m = xmap x" "byte_keys x"
  using assms by (auto simp: trie_rep_def)

lemma trie_repI:
  "expands (t_db t) (t_root t) x \<Longrightarrow> canon_root x \<Longrightarrow> m = xmap x \<Longrightarrow> byte_keys x \<Longrightarrow> trie_rep t m"
  by (auto simp: trie_rep_def)

lemma byte_keys_nil [simp]: "byte_keys XNil"
  by (simp add: byte_keys_def)

lemma fits_term_key: "canon_root x \<Longrightarrow> term_key key \<Longrightarrow> fits x key"
  by (auto simp: fits_def)

lemma byte_keys_xinsert:
  "canon_root x \<Longrightarrow> byte_keys x \<Longrightarrow> byte_keys (xinsert x (keybytesToHex key) v)"
  unfolding byte_keys_def
  using xlookup_xinsert [OF fits_term_key fits_term_key, of x "keybytesToHex key"]
  by (auto split: if_splits)

lemma byte_keys_xdelete:
  "canon_root x \<Longrightarrow> byte_keys x \<Longrightarrow> byte_keys (xdelete x (keybytesToHex key))"
  unfolding byte_keys_def
  using xlookup_xdelete [OF fits_term_key fits_term_key, of x "keybytesToHex key"]
  by (auto split: if_splits)

lemma canon_root_unique:
  assumes "canon_root x" "canon_root y" "byte_keys x" "byte_keys y" "xmap x = xmap y"
  shows "x = y"
proof (rule canon_unique [OF assms(1,2)])
  fix key assume t: "term_key key"
  show "xlookup x key = xlookup y key"
  proof (cases "odd (length key)")
    case True
    have "key = butlast key @ [16]" "is_nibbles (butlast key)" "even (length (butlast key))"
      using t True by (auto simp: term_key_def) (metis append_butlast_last_id)
    then have "key = keybytesToHex (decodeNibbles (butlast key))"
      using keybytesToHex_decodeNibbles by simp
    then show ?thesis
      using assms(5) by (metis xmap_def)
  next
    case False
    then show ?thesis using assms(3,4) t by (metis byte_keys_def)
  qed
qed

lemma fits_keybytes [simp]: "canon_root x \<Longrightarrow> fits x (keybytesToHex key)"
  by (simp add: fits_def)

lemma key_fuel_enough: "node_fuel n (keybytesToHex key) \<le> key_fuel (keybytesToHex key)"
  using node_fuel_le [of n "keybytesToHex key"] by (simp add: key_fuel_def)

lemma TryGet_rep:
  assumes "trie_rep t m"
  shows "\<exists>t'. TryGet t key = Inr (m key, t') \<and> trie_rep t' m \<and> t_prefix t' = t_prefix t \<and> t_db t' = t_db t"
proof -
  obtain x where x: "expands (t_db t) (t_root t) x" "canon_root x" "m = xmap x" "byte_keys x"
    using assms by (rule trie_repE)
  let ?k = "keybytesToHex key"
  obtain n' d where g: "tryGet (key_fuel ?k) (t_db t) (t_cachegen t) (t_root t) ?k 0 =
      Inr (xlookup x (drop 0 ?k), n', d)" "expands (t_db t) n' x"
    using tryGet_sim [OF x(1), of 0 ?k "key_fuel ?k" "t_cachegen t"] x(2) key_fuel_enough by auto
  let ?t' = "if d then t\<lparr>t_root := n'\<rparr> else t"
  have "trie_rep ?t' m"
    using x g by (auto intro: trie_repI)
  then show ?thesis
    using g x(3) by (auto simp: TryGet_def xmap_def Let_def)
qed

lemma TryUpdate_rep:
  assumes "trie_rep t m"
  shows "\<exists>t'. TryUpdate t key value = Inr t' \<and>
    trie_rep t' (if value = [] then m(key := None) else m(key \<mapsto> value)) \<and>
    t_prefix t' = t_prefix t \<and> t_db t' = t_db t"
proof -
  obtain x where x: "expands (t_db t) (t_root t) x" "canon_root x" "m = xmap x" "byte_keys x"
    using assms by (rule trie_repE)
  let ?k = "keybytesToHex key"
  have f: "fits x ?k" "node_fuel (t_root t) ?k \<le> key_fuel ?k"
    using x(2) key_fuel_enough by auto
  show ?thesis
  proof (cases "value = []")
    case True
    obtain d n' where n': "trie_delete (key_fuel ?k) (t_db t) (t_cachegen t) (t_root t) [] ?k = Inr (d, n')"
      "expands (t_db t) n' (xdelete x ?k)"
      using trie_delete_sim [OF x(1) f] by blast
    have "canon_root (xdelete x ?k)"
      using canon_xdelete [OF f(1)] by simp
    moreover have "m(key := None) = xmap (xdelete x ?k)"
      using x(2,3) f(1) by (auto simp: xmap_def fun_eq_iff xlookup_xdelete)
    ultimately have "trie_rep (t\<lparr>t_root := n'\<rparr>) (m(key := None))"
      using n' byte_keys_xdelete [OF x(2,4)] by (auto intro: trie_repI)
    then show ?thesis
      using n' True by (auto simp: TryUpdate_def Let_def)
  next
    case False
    obtain d n' where n': "trie_insert (key_fuel ?k) (t_db t) (t_cachegen t) (t_root t) [] ?k (ValueN value) = Inr (d, n')"
      "expands (t_db t) n' (xinsert x ?k value)"
      using trie_insert_sim [OF x(1) f] by blast
    have "canon_root (xinsert x ?k value)"
      using canon_xinsert [OF f(1) False] by (simp add: canon_root_def)
    moreover have "m(key \<mapsto> value) = xmap (xinsert x ?k value)"
      using x(2,3) f(1) by (auto simp: xmap_def fun_eq_iff xlookup_xinsert)
    ultimately have "trie_rep (t\<lparr>t_root := n'\<rparr>) (m(key \<mapsto> value))"
      using n' byte_keys_xinsert [OF x(2,4)] by (auto intro: trie_repI)
    then show ?thesis
      using n' False by (auto simp: TryUpdate_def Let_def)
  qed
qed

lemma TryDelete_eq: "TryDelete t key = TryUpdate t key []"
  by (simp add: TryDelete_def TryUpdate_def)

lemma TryDelete_rep:
  assumes "trie_rep t m"
  shows "\<exists>t'. TryDelete t key = Inr t' \<and> trie_rep t' (m(key := None)) \<and>
    t_prefix t' = t_prefix t \<and> t_db t' = t_db t"
  using TryUpdate_rep [OF assms, of key "[]"] by (simp add: TryDelete_eq)

lemma trie_rep_functional: "trie_rep t m \<Longrightarrow> trie_rep t m' \<Longrightarrow> m = m'"
  by (auto simp: trie_rep_def dest: expands_functional)

lemma xlookup_nonempty: "fits t key \<Longrightarrow> xlookup t key \<noteq> Some []"
proof (induction t key rule: xlookup.induct)
  case (2 v key)
  then show ?case by (auto simp: fits_def val_child_def)
next
  case (3 k t key)
  then have "canon (XShort k t)" "term_key key"
    by (auto simp: fits_def canon_root_def val_child_def split: if_splits)
  then show ?case
    using "3.IH" fits_short by auto
next
  case (4 ts key)
  then have c: "canon (XFull ts)" "term_key key"
    by (auto simp: fits_def canon_root_def val_child_def split: if_splits)
  then show ?case
    using "4.IH" fits_child(2) [OF c(1)] by (cases key) auto
qed auto

lemma trie_rep_nonempty: "trie_rep t m \<Longrightarrow> m key \<noteq> Some []"
  by (auto simp: trie_rep_def xmap_def xlookup_nonempty)

lemma trie_New_empty:
  "root = zeroHash \<or> root = emptyRoot \<Longrightarrow>
   \<exists>t. NewTrieWithPrefix root pfx db = Inr t \<and> trie_rep t Map.empty \<and> t_prefix t = Some pfx \<and> t_db t = db"
  by (auto simp: NewTrieWithPrefix_def trie_New_def Let_def xmap_def canon_root_def fun_eq_iff
      intro!: trie_repI [where x = XNil] exp_nil)


section \<open>The trie is a key/value store\<close>

interpretation trie_kv: kv_store trie_rep TryGet TryUpdate TryDelete "\<lambda>v. v \<noteq> []"
proof
  show "m = m'" if "trie_rep s m" "trie_rep s m'" for s m m'
    using that by (rule trie_rep_functional)
  show "v \<noteq> []" if "trie_rep s m" "m k = Some v" for s m k v
    using trie_rep_nonempty that by blast
  show "\<exists>s'. TryGet s k = Inr (m k, s') \<and> trie_rep s' m" if "trie_rep s m" for s m k
    using TryGet_rep [OF that] by blast
  show "\<exists>s'. TryUpdate s k v = Inr s' \<and> trie_rep s' (m(k \<mapsto> v))"
    if "trie_rep s m" "v \<noteq> []" for s m k v
    using TryUpdate_rep [OF that(1), of k v] that(2) by auto
  show "\<exists>s'. TryDelete s k = Inr s' \<and> trie_rep s' (m(k := None))" if "trie_rep s m" for s m k
    using TryDelete_rep [OF that] by blast
qed

lemma Get_rep:
  "trie_rep t m \<Longrightarrow> \<exists>t'. Get t key = Inr (m key, t') \<and> trie_rep t' m \<and>
     t_prefix t' = t_prefix t \<and> t_db t' = t_db t"
  using TryGet_rep [of t m key] by (auto simp: Get_def)

lemma Delete_rep:
  "trie_rep t m \<Longrightarrow> \<exists>t'. Delete t key = Inr t' \<and> trie_rep t' (m(key := None)) \<and>
     t_prefix t' = t_prefix t \<and> t_db t' = t_db t"
  using TryDelete_rep [of t m key] by (auto simp: Delete_def)

lemma Update_rep:
  "trie_rep t m \<Longrightarrow> v \<noteq> [] \<Longrightarrow> \<exists>t'. Update t key v = Inr t' \<and>
     trie_rep t' (m(key \<mapsto> v)) \<and> t_prefix t' = t_prefix t \<and> t_db t' = t_db t"
  using TryUpdate_rep [of t m key v] by (auto simp: Update_def)

section \<open>Properties\<close>

text \<open>
  C5. Any sequence of updates and deletions on a trie that represents a map succeeds, and the
  resulting trie represents the map the same sequence of map updates gives: lazy loading,
  path compression and node splitting and merging are invisible to the caller.
\<close>

theorem trie_ops_refine:
  assumes "trie_rep t m" "list_all (op_ok (\<lambda>v. v \<noteq> [])) ops"
  shows "\<exists>t'. kv_run TryUpdate TryDelete t ops = Inr t' \<and> trie_rep t' (foldl kv_apply m ops)"
  using assms by (rule trie_kv.run_rep)

definition no_nodes :: nodeDb where
  "no_nodes = (\<lambda>h g. None)"

definition empty_trie :: trie where
  "empty_trie = \<lparr>t_db = no_nodes, t_root = NilN, t_originalRoot = zeroHash, t_prefix = None,
     t_cachegen = 0, t_cachelimit = 0\<rparr>"

lemma empty_trie_rep: "trie_rep empty_trie Map.empty"
  by (auto simp: empty_trie_def xmap_def canon_root_def fun_eq_iff
      intro!: trie_repI [where x = XNil] exp_nil)

theorem trie_ops_refine_witness:
  "\<exists>t'. kv_run TryUpdate TryDelete empty_trie [Put [1, 2] [7], Put [1] [8], Del [1, 2]] = Inr t' \<and>
     trie_rep t' [[1] \<mapsto> [8]]"
proof -
  have "foldl kv_apply Map.empty [Put [1, 2] [7], Put [1] [8], Del [1, 2 :: byte]] = [[1] \<mapsto> [8 :: byte]]"
    by (auto simp: fun_eq_iff)
  then show ?thesis
    using trie_ops_refine [OF empty_trie_rep, of "[Put [1, 2] [7], Put [1] [8], Del [1, 2]]"]
    by simp
qed

end
