(* ===== verification/Merkle.thy ===== *)
theory Merkle
  imports Hasher Trie_Refinement
begin

text \<open>
  The root hash of a trie. \<open>xenc\<close> is the Merkle encoding of an abstract tree; \<open>hgood\<close> says that
  every cached hash in a node is the hash of the tree it stands for. Every trie operation keeps
  \<open>hgood\<close>, and hashing a good node computes the Merkle hash, so that the root hash is a function
  of the contents alone, and, as long as the hash function has no collision on the encodings at
  hand, determines them.
\<close>

section \<open>The Merkle encoding of a tree\<close>

text \<open>
  The RLP value that is hashed for a tree: subtrees whose encoding has at least 32 bytes are
  replaced by its hash.
\<close>

definition merkle_ref :: "keccak \<Rightarrow> rlp \<Rightarrow> rlp" where
  "merkle_ref K e = (if length (EncodeToBytes e) < 32 then e else RStr (K (EncodeToBytes e)))"

fun xenc :: "keccak \<Rightarrow> xt \<Rightarrow> rlp" where
  "xenc K XNil = RList []"
| "xenc K (XVal v) = RStr v"
| "xenc K (XShort k t) =
     RList [RStr (hexToCompact k), case t of XVal v \<Rightarrow> RStr v | _ \<Rightarrow> merkle_ref K (xenc K t)]"
| "xenc K (XFull ts) =
     RList (map (\<lambda>t. case t of XNil \<Rightarrow> RStr [] | XVal v \<Rightarrow> RStr v | _ \<Rightarrow> merkle_ref K (xenc K t)) ts)"

definition xhash :: "keccak \<Rightarrow> xt \<Rightarrow> bytes" where
  "xhash K t = K (EncodeToBytes (xenc K t))"

definition xbig :: "keccak \<Rightarrow> xt \<Rightarrow> bool" where
  "xbig K t \<longleftrightarrow> 32 \<le> length (EncodeToBytes (xenc K t))"

definition xchild :: "keccak \<Rightarrow> xt \<Rightarrow> rlp" where
  "xchild K t = (case t of XNil \<Rightarrow> RStr [] | XVal v \<Rightarrow> RStr v | _ \<Rightarrow> merkle_ref K (xenc K t))"

lemma xenc_full: "xenc K (XFull ts) = RList (map (xchild K) ts)"
  by (simp add: xchild_def)

lemma xenc_short: "t \<noteq> XNil \<Longrightarrow> xenc K (XShort k t) = RList [RStr (hexToCompact k), xchild K t]"
  by (cases t) (simp_all add: xchild_def)

declare xenc.simps(3,4) [simp del]

section \<open>Cached hashes are right\<close>

text \<open>
  Every hash cached in a node, and every hash node, is the hash of the tree it stands for; below
  the root it stands for a tree too big to be embedded.
\<close>

definition hash_is :: "keccak \<Rightarrow> bool \<Rightarrow> xt \<Rightarrow> bytes \<Rightarrow> bool" where
  "hash_is K inner x h \<longleftrightarrow> h = xhash K x \<and> (inner \<longrightarrow> xbig K x)"

inductive hgood :: "keccak \<Rightarrow> nodeDb \<Rightarrow> bool \<Rightarrow> node \<Rightarrow> bool" for K db where
  hg_nil: "hgood K db s NilN"
| hg_value: "hgood K db s (ValueN v)"
| hg_short: "hgood K db True v \<Longrightarrow>
    (\<And>h x. fl_hash fl = Some h \<Longrightarrow> expands db (ShortN k v fl) x \<Longrightarrow> hash_is K s x h) \<Longrightarrow>
    hgood K db s (ShortN k v fl)"
| hg_full: "(\<And>c. c \<in> set cs \<Longrightarrow> hgood K db True c) \<Longrightarrow>
    (\<And>h x. fl_hash fl = Some h \<Longrightarrow> expands db (FullN cs fl) x \<Longrightarrow> hash_is K s x h) \<Longrightarrow>
    hgood K db s (FullN cs fl)"
| hg_hash: "(\<And>x. expands db (HashN h) x \<Longrightarrow> hash_is K s x h) \<Longrightarrow>
    (\<And>g n. db (BytesToHash h) g = Some n \<Longrightarrow> hgood K db s n) \<Longrightarrow> hgood K db s (HashN h)"

inductive_cases hg_shortE: "hgood K db s (ShortN k v fl)"
inductive_cases hg_fullE: "hgood K db s (FullN cs fl)"
inductive_cases hg_hashE: "hgood K db s (HashN h)"

lemma hgood_short_new [intro]: "hgood K db True v \<Longrightarrow> hgood K db s (ShortN k v (newFlag g))"
  by (rule hg_short) (auto simp: newFlag_def)

lemma hgood_full_new [intro]: "(\<And>c. c \<in> set cs \<Longrightarrow> hgood K db True c) \<Longrightarrow> hgood K db s (FullN cs (newFlag g))"
  by (rule hg_full) (auto simp: newFlag_def)

lemma hgood_shortD: "hgood K db s (ShortN k v fl) \<Longrightarrow> hgood K db True v"
  by (erule hg_shortE) simp

lemma hgood_fullD: "hgood K db s (FullN cs fl) \<Longrightarrow> c \<in> set cs \<Longrightarrow> hgood K db True c"
  by (erule hg_fullE) simp

lemma hgood_resolveHash: "hgood K db s (HashN h) \<Longrightarrow> resolveHash db g h p = Inr n \<Longrightarrow> hgood K db s n"
  by (erule hg_hashE) (auto simp: resolveHash_def Let_def split: option.splits)

lemma hgood_resolve: "hgood K db s n \<Longrightarrow> resolve db g n p = Inr n' \<Longrightarrow> hgood K db s n'"
  by (cases n) (auto simp: resolve_def dest: hgood_resolveHash)

lemma hgood_weaken: "hgood K db True n \<Longrightarrow> hgood K db s n"
proof (induction "True" n rule: hgood.induct)
  case (hg_short v fl k)
  then show ?case by (intro hgood.hg_short) (auto simp: hash_is_def)
next
  case (hg_full cs fl)
  then show ?case by (intro hgood.hg_full) (auto simp: hash_is_def)
next
  case (hg_hash h)
  then show ?case by (intro hgood.hg_hash) (auto simp: hash_is_def)
qed (auto intro: hgood.intros)

lemma hgood_branch:
  "hgood K db True c1 \<Longrightarrow> hgood K db True c2 \<Longrightarrow>
   hgood K db s (FullN ((replicate 17 NilN)[i := c1, j := c2]) (newFlag g))"
  by (auto intro!: hgood_full_new intro: hg_nil dest!: set_update_subset_insert [THEN subsetD])

lemma trie_insert_hgood:
  "hgood K db s n \<Longrightarrow> hgood K db True w \<Longrightarrow> trie_insert f db g n p key w = Inr (d, n') \<Longrightarrow>
   (key = [] \<longrightarrow> s) \<Longrightarrow> hgood K db s n'"
proof (induction f arbitrary: s n p key w d n')
  case (Suc f)
  show ?case
  proof (cases "key = []")
    case True
    then show ?thesis
      using Suc.prems by (auto split: node.splits)
  next
    case False
    show ?thesis
    proof (cases n)
      case (ShortN k v fl)
      then have v: "hgood K db True v" using Suc.prems(1) hgood_shortD by blast
      show ?thesis
      proof (cases "prefixLen key k = length k")
        case True
        then show ?thesis
          using Suc.prems False ShortN Suc.IH [OF v Suc.prems(2)]
          by (auto simp: Let_def split: sum.splits if_splits intro!: hgood_short_new)
      next
        case f: False
        then obtain d1 c1 d2 c2 where
          i1: "trie_insert f db g NilN (p @ take (prefixLen key k + 1) k) (drop (prefixLen key k + 1) k) v = Inr (d1, c1)"
          and i2: "trie_insert f db g NilN (p @ take (prefixLen key k + 1) key)
              (drop (prefixLen key k + 1) key) w = Inr (d2, c2)"
          and n': "n' = (let branch = FullN ((replicate 17 NilN)
                [unat (k ! prefixLen key k) := c1, unat (key ! prefixLen key k) := c2]) (newFlag g)
              in if prefixLen key k = 0 then branch else ShortN (take (prefixLen key k) key) branch (newFlag g))"
          using Suc.prems(3) False ShortN
          by (auto simp: Let_def split: sum.splits if_splits)
        have "hgood K db True c1" "hgood K db True c2"
          using Suc.IH [OF hg_nil v i1] Suc.IH [OF hg_nil Suc.prems(2) i2] by simp_all
        then show ?thesis
          unfolding n' Let_def using hgood_branch by (auto intro!: hgood_short_new)
      qed
    next
      case (FullN cs fl)
      show ?thesis
      proof (cases "length cs \<le> unat (hd key)")
        case False
        then have c: "hgood K db True (cs ! unat (hd key))"
          using Suc.prems(1) FullN hgood_fullD by (metis not_le nth_mem)
        show ?thesis
          using Suc.prems \<open>key \<noteq> []\<close> FullN False Suc.IH [OF c Suc.prems(2)] hgood_fullD
          by (auto split: sum.splits if_splits
              intro!: hgood_full_new dest!: set_update_subset_insert [THEN subsetD])
      qed (use Suc.prems \<open>key \<noteq> []\<close> FullN in simp)
    next
      case (HashN h)
      then obtain rn d' nn where r: "resolveHash db g h p = Inr rn"
          "trie_insert f db g rn p key w = Inr (d', nn)" "n' = nn \<or> n' = rn"
        using Suc.prems(3) False by (auto split: sum.splits if_splits)
      have "hgood K db s rn" using hgood_resolveHash [OF _ r(1)] Suc.prems(1) HashN by blast
      then show ?thesis
        using Suc.IH [OF _ Suc.prems(2) r(2)] Suc.prems(4) r(3) by blast
    qed (use Suc.prems False in \<open>auto intro!: hgood_short_new\<close>)
  qed
qed simp

lemma reduceFull_hgood:
  assumes "\<And>c. c \<in> set cs \<Longrightarrow> hgood K db True c" "reduceFull db g cs p = Inr (d, n')"
    "childPos 0 (-1) cs < int (length cs)"
  shows "hgood K db s n'"
proof (cases "0 \<le> childPos 0 (-1) cs")
  case True
  then have c: "hgood K db True (cs ! nat (childPos 0 (-1) cs))"
    using assms(1,3) by (intro assms(1) nth_mem) linarith
  show ?thesis
    using assms(2) True c hgood_resolve [OF c]
    by (auto simp: reduceFull_def Let_def split: sum.splits if_splits node.splits
        intro!: hgood_short_new dest: hgood_shortD)
next
  case False
  then show ?thesis
    using assms by (auto simp: reduceFull_def Let_def intro!: hgood_full_new)
qed

lemma childPos_bound: "pos < int i \<Longrightarrow> childPos i pos cs < int (i + length cs)"
proof (induction cs arbitrary: i pos)
  case (Cons c cs)
  then show ?case
    using Cons.IH [of "int i" "Suc i"] Cons.IH [of pos "Suc i"] by auto
qed simp

lemma trie_delete_hgood:
  "hgood K db s n \<Longrightarrow> trie_delete f db g n p key = Inr (d, n') \<Longrightarrow> hgood K db s n'"
proof (induction f arbitrary: s n p key d n')
  case (Suc f)
  show ?case
  proof (cases n)
    case (ShortN k v fl)
    then have v: "hgood K db True v" using Suc.prems(1) hgood_shortD by blast
    show ?thesis
      using Suc.prems ShortN Suc.IH [OF v]
      by (auto simp: Let_def split: sum.splits if_splits node.splits
          intro!: hgood_short_new hg_nil intro: hgood_shortD [OF Suc.IH [OF v]])
  next
    case (FullN cs fl)
    show ?thesis
    proof (cases "key = [] \<or> length cs \<le> unat (hd key)")
      case False
      then have c: "hgood K db True (cs ! unat (hd key))"
        using Suc.prems(1) FullN hgood_fullD by (metis not_le nth_mem)
      have "hgood K db s n'" if "trie_delete f db g (cs ! unat (hd key)) (p @ [hd key]) (tl key) = Inr (True, nn)"
        "reduceFull db g (cs[unat (hd key) := nn]) p = Inr (d, n')" for nn
      proof (rule reduceFull_hgood [OF _ that(2)])
        show "hgood K db True x" if "x \<in> set (cs[unat (hd key) := nn])" for x
          using that Suc.IH [OF c \<open>trie_delete f db g (cs ! unat (hd key)) (p @ [hd key]) (tl key) = Inr (True, nn)\<close>]
            Suc.prems(1) FullN hgood_fullD set_update_subset_insert by fastforce
        show "childPos 0 (-1) (cs[unat (hd key) := nn]) < int (length (cs[unat (hd key) := nn]))"
          using childPos_bound [of "-1" 0 "cs[unat (hd key) := nn]"] by simp
      qed
      then show ?thesis
        using Suc.prems False FullN by (auto split: sum.splits if_splits)
    qed (use Suc.prems FullN in auto)
  next
    case (HashN h)
    then obtain rn d' nn where r: "resolveHash db g h p = Inr rn"
        "trie_delete f db g rn p key = Inr (d', nn)" "n' = nn \<or> n' = rn"
      using Suc.prems(2) by (auto split: sum.splits if_splits)
    have "hgood K db s rn" using hgood_resolveHash [OF _ r(1)] Suc.prems(1) HashN by blast
    then show ?thesis
      using Suc.IH [OF _ r(2)] r(3) by blast
  qed (use Suc.prems in \<open>auto intro: hg_nil\<close>)
qed simp
lemma list_all2_replace: "list_all2 P cs ts \<Longrightarrow> P c (ts ! i) \<Longrightarrow> list_all2 P (cs[i := c]) ts"
  using list_all2_update_cong [of P cs ts c "ts ! i" i] by simp

lemma tryGet_expands:
  "expands db n x \<Longrightarrow> tryGet f db g n key pos = Inr (v, n', d) \<Longrightarrow> expands db n' x"
proof (induction f arbitrary: n x pos v n' d)
  case (Suc f)
  show ?case
  proof (cases n)
    case (ShortN k w fl)
    then show ?thesis
      using Suc.prems Suc.IH by (auto split: sum.splits if_splits intro!: exp_short)
  next
    case (FullN cs fl)
    then obtain ts where ts: "x = XFull ts" "list_all2 (expands db) cs ts"
      using Suc.prems by auto
    show ?thesis
    proof (cases "length key \<le> pos \<or> length cs \<le> unat (key ! pos)")
      case False
      then have "expands db (cs ! unat (key ! pos)) (ts ! unat (key ! pos))"
        using ts(2) by (simp add: list_all2_conv_all_nth)
      then have "list_all2 (expands db) (cs[unat (key ! pos) := nn]) ts"
        if "tryGet f db g (cs ! unat (key ! pos)) key (pos + 1) = Inr (v, nn, d)" for nn
        by (rule list_all2_replace [OF ts(2) Suc.IH [OF _ that]])
      then show ?thesis
        using Suc.prems ts FullN False by (auto split: sum.splits if_splits intro!: exp_full)
    qed (use Suc.prems FullN in auto)
  next
    case (HashN h)
    then obtain rn d' where r: "resolveHash db g h (take pos key) = Inr rn"
        "tryGet f db g rn key pos = Inr (v, n', d')"
      using Suc.prems(2) by (auto split: sum.splits)
    have "expands db rn x"
      using Suc.prems(1) r(1) HashN
      by (auto simp: resolveHash_def Let_def split: option.splits elim!: expands_hashE)
    then show ?thesis using Suc.IH r(2) by blast
  qed (use Suc.prems in auto)
qed simp

lemma tryGet_hgood:
  "hgood K db s n \<Longrightarrow> expands db n x \<Longrightarrow> tryGet f db g n key pos = Inr (v, n', d) \<Longrightarrow> hgood K db s n'"
proof (induction f arbitrary: s n x pos v n' d)
  case (Suc f)
  show ?case
  proof (cases n)
    case (ShortN k w fl)
    then obtain y where y: "x = XShort k y" "expands db w y" using Suc.prems by auto
    have w: "hgood K db True w" using hgood_shortD Suc.prems(1) ShortN by blast
    have "hgood K db s (ShortN k nn (fl\<lparr>fl_gen := g\<rparr>))"
      if t: "tryGet f db g w key (pos + length k) = Inr (v, nn, d)" for nn
    proof (rule hg_short)
      show "hgood K db True nn" using Suc.IH [OF w y(2) t] .
      fix h z
      assume a: "fl_hash (fl\<lparr>fl_gen := g\<rparr>) = Some h" "expands db (ShortN k nn (fl\<lparr>fl_gen := g\<rparr>)) z"
      then have "z = x"
        using tryGet_expands [OF y(2) t] y(1) expands_functional by blast
      then show "hash_is K s z h"
        using a(1) Suc.prems(1,2) ShortN by (auto elim: hg_shortE)
    qed
    then show ?thesis
      using Suc.prems ShortN by (auto split: sum.splits if_splits)
  next
    case (FullN cs fl)
    then obtain ts where ts: "x = XFull ts" "list_all2 (expands db) cs ts"
      using Suc.prems by auto
    show ?thesis
    proof (cases "length key \<le> pos \<or> length cs \<le> unat (key ! pos)")
      case False
      let ?i = "unat (key ! pos)"
      have e: "expands db (cs ! ?i) (ts ! ?i)" and g: "hgood K db True (cs ! ?i)"
        using ts(2) False Suc.prems(1) FullN hgood_fullD [of K db s cs fl "cs ! ?i"]
        by (auto simp: list_all2_conv_all_nth)
      have "hgood K db s (FullN (cs[?i := nn]) (fl\<lparr>fl_gen := g\<rparr>))"
        if t: "tryGet f db g (cs ! ?i) key (pos + 1) = Inr (v, nn, d)" for nn
      proof (rule hg_full)
        fix c assume "c \<in> set (cs[?i := nn])"
        then show "hgood K db True c"
          using Suc.IH [OF g e t] hgood_fullD Suc.prems(1) FullN set_update_subset_insert by fastforce
      next
        fix h z
        assume a: "fl_hash (fl\<lparr>fl_gen := g\<rparr>) = Some h" "expands db (FullN (cs[?i := nn]) (fl\<lparr>fl_gen := g\<rparr>)) z"
        have "list_all2 (expands db) (cs[?i := nn]) ts"
          by (rule list_all2_replace [OF ts(2) tryGet_expands [OF e t]])
        then have "z = x"
          using a(2) ts(1) expands_functional exp_full by blast
        moreover have "fl_hash fl = Some h" using a(1) by simp
        ultimately show "hash_is K s z h"
          using Suc.prems(1,2) unfolding FullN by (blast elim: hg_fullE)
      qed
      then show ?thesis
        using Suc.prems FullN False by (auto split: sum.splits if_splits)
    qed (use Suc.prems FullN in auto)
  next
    case (HashN h)
    then obtain rn d' where r: "resolveHash db g h (take pos key) = Inr rn"
        "tryGet f db g rn key pos = Inr (v, n', d')"
      using Suc.prems(3) by (auto split: sum.splits)
    have "expands db rn x"
      using Suc.prems(2) r(1) HashN
      by (auto simp: resolveHash_def Let_def split: option.splits elim!: expands_hashE)
    then show ?thesis
      using Suc.IH [OF hgood_resolveHash [OF _ r(1)] _ r(2)] Suc.prems(1) HashN by blast
  qed (use Suc.prems in \<open>auto intro: hgood.intros\<close>)
qed simp

section \<open>Hashing computes the Merkle hash\<close>

definition kid_rlp :: "node \<Rightarrow> rlp" where
  "kid_rlp c = (case c of NilN \<Rightarrow> RStr [] | _ \<Rightarrow> node_rlp c)"

lemma node_rlp_full: "node_rlp (FullN cs fl) = RList (map kid_rlp cs)"
  by (simp add: kid_rlp_def)

definition hashes_to :: "keccak \<Rightarrow> hasher \<Rightarrow> nodeDb \<Rightarrow> bool \<Rightarrow> bool \<Rightarrow> node \<Rightarrow> xt \<Rightarrow> bool" where
  "hashes_to K h db s force n x \<longleftrightarrow>
     (\<exists>hd c. hasher_hash K h n None force = (hd, c, None) \<and> \<not> is_NilN hd
        \<and> node_rlp hd = (if force then RStr (xhash K x) else merkle_ref K (xenc K x))
        \<and> (force \<longrightarrow> hd = HashN (xhash K x)) \<and> expands db c x \<and> hgood K db s c)"

lemma kid_rlp_node: "\<not> is_NilN n \<Longrightarrow> kid_rlp n = node_rlp n"
  by (cases n) (auto simp: kid_rlp_def)

lemma kid_nil [simp]: "kid_rlp NilN = RStr []" "xchild K XNil = RStr []"
  by (simp_all add: kid_rlp_def xchild_def)

lemma xchild_canon: "canon t \<Longrightarrow> xchild K t = merkle_ref K (xenc K t)"
  by (cases t) (auto simp: xchild_def)

lemma hash_kids_ok:
  assumes "list_all2 (expands db) cs ts" "\<forall>t \<in> set ts. canon_root t" "\<forall>c \<in> set cs. hgood K db True c"
    "\<And>c t. c \<in> set cs \<Longrightarrow> expands db c t \<Longrightarrow> canon t \<Longrightarrow> hgood K db True c \<Longrightarrow> hashes_to K h db True False c t"
  shows "\<exists>hs ccs. hash_kids K h cs None = (hs, ccs, None) \<and> map kid_rlp hs = map (xchild K) ts
    \<and> list_all2 (expands db) ccs ts \<and> (\<forall>c \<in> set ccs. hgood K db True c)"
  using assms
proof (induction cs ts rule: list_all2_induct)
  case (Cons c cs t ts)
  then obtain hs ccs where r: "hash_kids K h cs None = (hs, ccs, None)"
      "map kid_rlp hs = map (xchild K) ts" "list_all2 (expands db) ccs ts" "\<forall>c \<in> set ccs. hgood K db True c"
    by auto
  show ?case
  proof (cases "is_NilN c")
    case True
    then have "t = XNil" using Cons.hyps(1) expands_is_nil by blast
    then show ?thesis
      using True r Cons.hyps(1) Cons.prems by (cases c) auto
  next
    case False
    then have "canon t" using Cons.hyps(1) Cons.prems(1) expands_is_nil by (auto simp: canon_root_def)
    then obtain hd cc where "hasher_hash K h c None False = (hd, cc, None)" "\<not> is_NilN hd"
        "node_rlp hd = merkle_ref K (xenc K t)" "expands db cc t" "hgood K db True cc"
      using Cons.prems(3) [of c t] Cons.hyps(1) Cons.prems(2) by (auto simp: hashes_to_def)
    then show ?thesis
      using False r \<open>canon t\<close> by (auto simp: kid_rlp_node xchild_canon)
  qed
qed simp

lemma store_hash:
  assumes "is_branchN n"
  shows "hasher_store K h n None force =
    (if length (EncodeToBytes (node_rlp n)) < 32 \<and> \<not> force then n
     else HashN (case fst (node_cache n) of None \<Rightarrow> K (EncodeToBytes (node_rlp n)) | Some x \<Rightarrow> x), None)"
  using assms by (cases n) (auto simp: hasher_store_def Let_def makeHashNode_def is_branchN_def split: option.splits)

text \<open>
  A node without a cached hash, once its children are hashed: \<open>col\<close> is the collapsed and \<open>cch\<close>
  the cached copy.
\<close>

lemma hash_fresh:
  assumes "node_cache n = (None, dirty)" "hashChildren K h n None = (col, cch, None)"
    "is_branchN col" "fst (node_cache col) = None" "node_rlp col = xenc K x"
    "\<And>hd. expands db (set_cached hd None cch) x"
    "\<And>hd. (\<And>y. hd = HashN y \<Longrightarrow> hash_is K s x y) \<Longrightarrow> hgood K db s (set_cached hd None cch)"
    "\<not> force \<longrightarrow> s" "force \<longrightarrow> \<not> s"
  shows "hashes_to K h db s force n x"
proof -
  have big: "xbig K x \<longleftrightarrow> \<not> length (EncodeToBytes (node_rlp col)) < 32"
    by (auto simp: xbig_def assms(5))
  have nn: "\<not> is_NilN col" using assms(3) by (cases col) (auto simp: is_branchN_def)
  have eq: "hasher_hash K h n None force =
      (let r = hasher_store K h col None force in (fst r, set_cached (fst r) None cch, None))"
    using assms(1,2) by (subst hasher_hash.simps) (simp add: store_hash [OF assms(3)] Let_def)
  show ?thesis
  proof (cases "\<not> xbig K x \<and> \<not> force")
    case True
    then have "hasher_store K h col None force = (col, None)"
      using big by (simp add: store_hash [OF assms(3)])
    moreover have "hgood K db s (set_cached col None cch)"
      by (rule assms(7)) (use assms(3) in \<open>auto simp: is_branchN_def\<close>)
    ultimately show ?thesis
      using eq nn assms(5,6) True big unfolding hashes_to_def
      by (auto simp: merkle_ref_def)
  next
    case False
    then have st: "hasher_store K h col None force = (HashN (xhash K x), None)"
      using big assms(4,5) by (auto simp: store_hash [OF assms(3)] xhash_def)
    have "hgood K db s (set_cached (HashN (xhash K x)) None cch)"
      by (rule assms(7)) (use False assms(8,9) in \<open>auto simp: hash_is_def\<close>)
    then show ?thesis
      using eq st assms(5,6) False big unfolding hashes_to_def
      by (auto simp: merkle_ref_def xhash_def)
  qed
qed

lemma hash_cached:
  assumes "node_cache n = (Some y, dirty)" "expands db n x" "hgood K db s n" "\<not> force \<longrightarrow> s" "force \<longrightarrow> \<not> s"
  shows "hashes_to K h db s force n x"
proof -
  have "hash_is K s x y"
    using assms(1-3) by (cases n) (auto elim: hg_shortE, (blast elim: hg_fullE)+)
  then show ?thesis
    using assms unfolding hashes_to_def
    by (subst hasher_hash.simps) (auto simp: Let_def hash_is_def merkle_ref_def xbig_def xhash_def)
qed

lemma expands_hash_branch: "expands db (HashN h) y \<Longrightarrow> (\<exists>k t. y = XShort k t) \<or> (\<exists>ts. y = XFull ts)"
proof (erule expands_hashE)
  fix f :: "uint16 \<Rightarrow> node"
  assume "\<And>g. is_branchN (f g)" "\<And>g. expands db (f g) y"
  then have "is_branchN (f 0)" "expands db (f 0) y" by blast+
  then show ?thesis by (cases "f 0") (auto simp: is_branchN_def)
qed

lemma hashes_to_hash:
  assumes "expands db (HashN y) x" "hgood K db s (HashN y)" "\<not> force \<longrightarrow> s" "force \<longrightarrow> \<not> s"
  shows "hashes_to K h db s force (HashN y) x"
proof -
  have "hash_is K s x y" using assms by (blast elim: hg_hashE)
  then show ?thesis
    using assms unfolding hashes_to_def
    by (subst hasher_hash.simps)
      (auto simp: Let_def hash_is_def merkle_ref_def xbig_def xhash_def hasher_store_def set_cached_def)
qed

lemma hashes_to_short:
  assumes "expands db (ShortN k v fl) x" "hgood K db s (ShortN k v fl)" "canon x" "fl_hash fl = None"
    "\<not> force \<longrightarrow> s" "force \<longrightarrow> \<not> s"
    "\<And>y. expands db v y \<Longrightarrow> canon y \<Longrightarrow> hgood K db True v \<Longrightarrow> hashes_to K h db True False v y"
  shows "hashes_to K h db s force (ShortN k v fl) x"
proof -
  obtain y where y: "x = XShort k y" "expands db v y" using assms(1) by auto
  have v: "hgood K db True v" using assms(2) hgood_shortD by blast
  have "\<exists>hv cv. hashChildren K h (ShortN k v fl) None = (ShortN (hexToCompact k) hv fl, ShortN k cv fl, None)
      \<and> node_rlp hv = xchild K y \<and> expands db cv y \<and> hgood K db True cv"
  proof (cases v)
    case (ValueN b)
    then show ?thesis using y v by (auto simp: xchild_def)
  next
    case NilN
    then show ?thesis using y assms(3) by auto
  next
    case (HashN u)
    then have "canon y" using y assms(3) expands_hash_branch by fastforce
    then show ?thesis
      using assms(7) [OF y(2) _ v] HashN xchild_canon by (fastforce simp: hashes_to_def)
  next
    case (ShortN k' v' fl')
    then show ?thesis using y assms(3) by auto
  next
    case (FullN cs fl')
    then have "canon y" using y assms(3) by auto
    then show ?thesis
      using assms(7) [OF y(2) _ v] FullN xchild_canon by (fastforce simp: hashes_to_def)
  qed
  then obtain hv cv where c: "hashChildren K h (ShortN k v fl) None = (ShortN (hexToCompact k) hv fl, ShortN k cv fl, None)"
      "node_rlp hv = xchild K y" "expands db cv y" "hgood K db True cv" by blast
  have "y \<noteq> XNil" using assms(3) y(1) by auto
  show ?thesis
  proof (rule hash_fresh [OF _ c(1)])
    show "node_rlp (ShortN (hexToCompact k) hv fl) = xenc K x"
      using y(1) c(2) \<open>y \<noteq> XNil\<close> by (simp add: xenc_short)
    show "expands db (set_cached hd None (ShortN k cv fl)) x" for hd
      using c(3) y(1) by (auto simp: set_cached_def)
    show "hgood K db s (set_cached hd None (ShortN k cv fl))"
      if a: "\<And>u. hd = HashN u \<Longrightarrow> hash_is K s x u" for hd
    proof -
      have "z = x" if "expands db (ShortN k cv f) z" for z f
        using that c(3) y(1) expands_functional by blast
      then have "hgood K db s (ShortN k cv f)" if "\<forall>y. fl_hash f = Some y \<longrightarrow> hash_is K s x y" for f
        using c(4) that by (metis hg_short)
      then show ?thesis
        using a by (auto simp: set_cached_def split: node.splits)
    qed
  qed (use assms in \<open>simp_all add: is_branchN_def\<close>)
qed
lemma list_split_last: "length xs = 17 \<Longrightarrow> xs = take 16 xs @ [xs ! 16]"
  by (metis append_take_drop_id Cons_nth_drop_Suc drop_all eval_nat_numeral(3) lessI order_refl
      semiring_norm(26,27) numeral_nat(2))

lemma hashes_to_full:
  assumes "expands db (FullN cs fl) x" "hgood K db s (FullN cs fl)" "canon x" "fl_hash fl = None"
    "\<not> force \<longrightarrow> s" "force \<longrightarrow> \<not> s"
    "\<And>c t. c \<in> set cs \<Longrightarrow> expands db c t \<Longrightarrow> canon t \<Longrightarrow> hgood K db True c \<Longrightarrow> hashes_to K h db True False c t"
  shows "hashes_to K h db s force (FullN cs fl) x"
proof -
  obtain ts where ts: "x = XFull ts" "list_all2 (expands db) cs ts" using assms(1) by auto
  have l: "length ts = 17" "\<forall>i < 16. canon_root (ts ! i)" "val_child (ts ! 16)" "length cs = 17"
    using assms(3) ts canon_full_iff by (auto dest: list_all2_lengthD)
  have g: "\<forall>c \<in> set cs. hgood K db True c" using assms(2) hgood_fullD by blast
  have "\<exists>hs ccs. hash_kids K h (take 16 cs) None = (hs, ccs, None) \<and> map kid_rlp hs = map (xchild K) (take 16 ts)
      \<and> list_all2 (expands db) ccs (take 16 ts) \<and> (\<forall>c \<in> set ccs. hgood K db True c)"
  proof (rule hash_kids_ok)
    show "list_all2 (expands db) (take 16 cs) (take 16 ts)" using ts(2) by (rule list_all2_takeI)
    show "\<forall>t \<in> set (take 16 ts). canon_root t" using l by (auto simp: in_set_conv_nth)
  qed (use g assms(7) in \<open>auto dest: in_set_takeD\<close>)
  then obtain hs ccs where k: "hash_kids K h (take 16 cs) None = (hs, ccs, None)"
      "map kid_rlp hs = map (xchild K) (take 16 ts)" "list_all2 (expands db) ccs (take 16 ts)"
      "\<forall>c \<in> set ccs. hgood K db True c" by blast
  have d: "drop 16 cs = [cs ! 16]" "drop 16 ts = [ts ! 16]"
    using l by (auto simp: Cons_nth_drop_Suc [symmetric])
  have e16: "expands db (cs ! 16) (ts ! 16)" using ts(2) l by (simp add: list_all2_conv_all_nth)
  have "kid_rlp (cs ! 16) = xchild K (ts ! 16)"
    using e16 l(3) expands_hash_branch [of db _ "ts ! 16"]
    by (cases "cs ! 16") (auto simp: val_child_def kid_rlp_def xchild_def, fastforce)
  then have rl: "map kid_rlp (hs @ drop 16 cs) = map (xchild K) ts"
    using k(2) d by (metis append_take_drop_id list.simps(8,9) map_append)
  have ex: "list_all2 (expands db) (ccs @ drop 16 cs) ts"
    using list_all2_appendI [OF k(3), of "[cs ! 16]" "[ts ! 16]"] e16
    by (simp add: d flip: list_split_last [OF l(1)])
  have gd: "\<And>c. c \<in> set (ccs @ drop 16 cs) \<Longrightarrow> hgood K db True c"
    using k(4) g by (auto dest: in_set_dropD)
  show ?thesis
  proof (rule hash_fresh)
    show "hashChildren K h (FullN cs fl) None = (FullN (hs @ drop 16 cs) fl, FullN (ccs @ drop 16 cs) fl, None)"
      using k(1) by simp
    show "node_rlp (FullN (hs @ drop 16 cs) fl) = xenc K x"
      using rl ts(1) by (simp add: node_rlp_full xenc_full del: node_rlp.simps)
    show "expands db (set_cached hd None (FullN (ccs @ drop 16 cs) fl)) x" for hd
      using ex ts(1) by (auto simp: set_cached_def)
    show "hgood K db s (set_cached hd None (FullN (ccs @ drop 16 cs) fl))"
      if a: "\<And>u. hd = HashN u \<Longrightarrow> hash_is K s x u" for hd
    proof -
      have "z = x" if "expands db (FullN (ccs @ drop 16 cs) f) z" for z f
        using that ex ts(1) expands_functional exp_full by blast
      then have "hgood K db s (FullN (ccs @ drop 16 cs) f)"
        if "\<forall>y. fl_hash f = Some y \<longrightarrow> hash_is K s x y" for f
        using gd that by (metis hg_full)
      then show ?thesis
        using a by (auto simp: set_cached_def split: node.splits)
    qed
  qed (use assms in \<open>simp_all add: is_branchN_def\<close>)
qed

lemma hasher_hash_ok:
  "expands db n x \<Longrightarrow> hgood K db s n \<Longrightarrow> canon x \<Longrightarrow> \<not> force \<longrightarrow> s \<Longrightarrow> force \<longrightarrow> \<not> s \<Longrightarrow>
   hashes_to K h db s force n x"
proof (induction n arbitrary: x s force)
  case (FullN cs fl)
  show ?case
  proof (cases "fl_hash fl")
    case None
    show ?thesis
      by (rule hashes_to_full [OF FullN.prems(1-3) None FullN.prems(4,5)]) (use FullN.IH in auto)
  next
    case (Some y)
    then show ?thesis using hash_cached [of "FullN cs fl" y] FullN.prems by auto
  qed
next
  case (ShortN k v fl)
  show ?case
  proof (cases "fl_hash fl")
    case None
    show ?thesis
      by (rule hashes_to_short [OF ShortN.prems(1-3) None ShortN.prems(4,5)]) (use ShortN.IH in auto)
  next
    case (Some y)
    then show ?thesis using hash_cached [of "ShortN k v fl" y] ShortN.prems by auto
  qed
next
  case (HashN y)
  then show ?case using hashes_to_hash by blast
qed auto
section \<open>Tries with right hashes\<close>

definition trie_ok :: "keccak \<Rightarrow> trie \<Rightarrow> (bytes \<rightharpoonup> bytes) \<Rightarrow> bool" where
  "trie_ok K t m \<longleftrightarrow> trie_rep t m \<and> hgood K (t_db t) False (t_root t)"

lemma TryUpdate_hgood:
  assumes "hgood K (t_db t) False (t_root t)" "TryUpdate t key v = Inr t'"
  shows "hgood K (t_db t') False (t_root t')"
proof (cases "v = []")
  case True
  then obtain d n where "trie_delete (key_fuel (keybytesToHex key)) (t_db t) (t_cachegen t) (t_root t) []
      (keybytesToHex key) = Inr (d, n)" "t' = t\<lparr>t_root := n\<rparr>"
    using assms(2) by (auto simp: TryUpdate_def Let_def split: sum.splits)
  then show ?thesis
    using trie_delete_hgood [OF assms(1)] by simp
next
  case False
  then obtain d n where "trie_insert (key_fuel (keybytesToHex key)) (t_db t) (t_cachegen t) (t_root t) []
      (keybytesToHex key) (ValueN v) = Inr (d, n)" "t' = t\<lparr>t_root := n\<rparr>"
    using assms(2) by (auto simp: TryUpdate_def Let_def split: sum.splits)
  then show ?thesis
    using trie_insert_hgood [OF assms(1) hg_value] by simp
qed

lemma TryGet_hgood:
  assumes "trie_ok K t m" "TryGet t key = Inr (v, t')"
  shows "hgood K (t_db t') False (t_root t')"
proof -
  obtain x where x: "expands (t_db t) (t_root t) x" "hgood K (t_db t) False (t_root t)"
    using assms(1) by (auto simp: trie_ok_def trie_rep_def)
  show ?thesis
    using assms(2) tryGet_hgood [OF x(2,1)] x(2)
    by (auto simp: TryGet_def Let_def split: sum.splits if_splits)
qed

lemma trie_Hash_ok:
  assumes "expands (t_db t) (t_root t) x" "canon_root x" "hgood K (t_db t) False (t_root t)"
  shows "\<exists>t'. trie_Hash K t = (if x = XNil then BytesToHash emptyRoot else BytesToHash (xhash K x), t')
    \<and> expands (t_db t') (t_root t') x \<and> hgood K (t_db t') False (t_root t')
    \<and> t_db t' = t_db t \<and> t_prefix t' = t_prefix t \<and> t_cachegen t' = t_cachegen t"
proof (cases "t_root t = NilN")
  case True
  then have "x = XNil" using assms(1) by auto
  then show ?thesis
    using True assms(3) by (auto simp: trie_Hash_def hashRoot_def intro: hg_nil)
next
  case False
  then have "x \<noteq> XNil" using expands_is_nil [OF assms(1)] by (cases "t_root t") auto
  then have "canon x" using assms(2) by (simp add: canon_root_def)
  then show ?thesis
    using hasher_hash_ok [OF assms(1,3), of True "\<lparr>h_cachegen = t_cachegen t, h_cachelimit = t_cachelimit t, h_onleaf = None\<rparr>"]
      False \<open>x \<noteq> XNil\<close>
    by (auto simp: trie_Hash_def hashRoot_def hashes_to_def)
qed

lemma trie_Hash_rep:
  assumes "trie_ok K t m"
  shows "\<exists>h t'. trie_Hash K t = (h, t') \<and> trie_ok K t' m \<and> t_db t' = t_db t \<and> t_prefix t' = t_prefix t"
proof -
  obtain x where x: "expands (t_db t) (t_root t) x" "canon_root x" "m = xmap x"
      "hgood K (t_db t) False (t_root t)" "byte_keys x"
    using assms by (auto simp: trie_ok_def trie_rep_def)
  show ?thesis
    using trie_Hash_ok [OF x(1,2,4)] x(2,3,5) by (auto simp: trie_ok_def trie_rep_def)
qed

lemma TryGet_ok:
  assumes "trie_ok K t m"
  shows "\<exists>t'. TryGet t key = Inr (m key, t') \<and> trie_ok K t' m \<and> t_prefix t' = t_prefix t \<and> t_db t' = t_db t"
proof -
  have "trie_rep t m" using assms by (simp add: trie_ok_def)
  then obtain t' where t': "TryGet t key = Inr (m key, t')" "trie_rep t' m" "t_prefix t' = t_prefix t"
      "t_db t' = t_db t"
    using TryGet_rep by blast
  then show ?thesis
    using TryGet_hgood [OF assms t'(1)] unfolding trie_ok_def by blast
qed

lemma TryUpdate_ok:
  assumes "trie_ok K t m"
  shows "\<exists>t'. TryUpdate t key v = Inr t' \<and> trie_ok K t' (if v = [] then m(key := None) else m(key \<mapsto> v)) \<and>
    t_prefix t' = t_prefix t \<and> t_db t' = t_db t"
proof -
  have "trie_rep t m" and g: "hgood K (t_db t) False (t_root t)" using assms by (simp_all add: trie_ok_def)
  then obtain t' where t': "TryUpdate t key v = Inr t'"
      "trie_rep t' (if v = [] then m(key := None) else m(key \<mapsto> v))" "t_prefix t' = t_prefix t" "t_db t' = t_db t"
    using TryUpdate_rep by blast
  have "trie_ok K t' (if v = [] then m(key := None) else m(key \<mapsto> v))"
    unfolding trie_ok_def by (rule conjI [OF t'(2) TryUpdate_hgood [OF g t'(1)]])
  then show ?thesis using t'(1,3,4) by blast
qed

interpretation merkle_kv: kv_store "trie_ok K" TryGet TryUpdate TryDelete "\<lambda>v. v \<noteq> []" for K
proof
  show "m = m'" if "trie_ok K s m" "trie_ok K s m'" for s m m'
    using that trie_rep_functional unfolding trie_ok_def by blast
  show "v \<noteq> []" if "trie_ok K s m" "m k = Some v" for s m k v
    using that trie_rep_nonempty unfolding trie_ok_def by blast
  show "\<exists>s'. TryGet s k = Inr (m k, s') \<and> trie_ok K s' m" if "trie_ok K s m" for s m k
    using TryGet_ok [OF that] by blast
  show "\<exists>s'. TryUpdate s k v = Inr s' \<and> trie_ok K s' (m(k \<mapsto> v))" if "trie_ok K s m" "v \<noteq> []" for s m k v
    using TryUpdate_ok [OF that(1), of k v] that(2) by auto
  show "\<exists>s'. TryDelete s k = Inr s' \<and> trie_ok K s' (m(k := None))" if "trie_ok K s m" for s m k
    using TryUpdate_ok [OF that, of k "[]"] by (auto simp: TryDelete_eq)
qed

lemma trie_Hash_determined:
  assumes "trie_ok K t m" "trie_ok K t' m"
  shows "fst (trie_Hash K t) = fst (trie_Hash K t')"
proof -
  obtain x where x: "expands (t_db t) (t_root t) x" "canon_root x" "m = xmap x"
      "hgood K (t_db t) False (t_root t)" "byte_keys x"
    using assms(1) by (auto simp: trie_ok_def trie_rep_def)
  obtain y where y: "expands (t_db t') (t_root t') y" "canon_root y" "m = xmap y"
      "hgood K (t_db t') False (t_root t')" "byte_keys y"
    using assms(2) by (auto simp: trie_ok_def trie_rep_def)
  have "x = y" using canon_root_unique x y by auto
  then show ?thesis
    using trie_Hash_ok [OF x(1,2,4)] trie_Hash_ok [OF y(1,2,4)] by auto
qed

section \<open>The root hash authenticates the contents\<close>

lemma concat_enc_inject:
  assumes "\<And>v w. v \<in> set vs \<Longrightarrow> rlp_small v \<Longrightarrow> rlp_small w \<Longrightarrow> rlp_enc v = rlp_enc w \<Longrightarrow> v = w"
    "length (concat (map rlp_enc vs)) < 2 ^ 63" "concat (map rlp_enc vs) = concat (map rlp_enc ws)"
  shows "vs = ws"
  using assms
proof (induction vs arbitrary: ws)
  case Nil
  then show ?case using rlp_enc_nonempty by (cases ws) auto
next
  case (Cons v vs)
  obtain u us where ws: "ws = u # us"
    using Cons.prems(3) rlp_enc_nonempty [of v] by (cases ws) auto
  have eq: "rlp_enc v @ concat (map rlp_enc vs) = rlp_enc u @ concat (map rlp_enc us)"
    using Cons.prems(3) ws by simp
  have sm: "rlp_small v" "rlp_small u" and l: "length (concat (map rlp_enc vs)) < 2 ^ 63"
    using Cons.prems(2) arg_cong [OF eq, of length] by (auto simp: rlp_small_def)
  have "rlp_enc v = rlp_enc u" "concat (map rlp_enc vs) = concat (map rlp_enc us)"
    using rlp_enc_prefix_free [OF sm eq] by blast+
  moreover have "vs = us"
    by (rule Cons.IH) (use Cons.prems(1) l calculation(2) in auto)
  ultimately show ?case
    using Cons.prems(1) [of v u] sm ws by simp
qed

lemma rlp_enc_inject: "rlp_small v \<Longrightarrow> rlp_small w \<Longrightarrow> rlp_enc v = rlp_enc w \<Longrightarrow> v = w"
proof (induction v arbitrary: w)
  case (RStr b)
  then have "rlp_kind (RStr b) = rlp_kind w" "b = rlp_content w"
    using Split_rlp_enc [OF RStr.prems(1), of "[]"] Split_rlp_enc [OF RStr.prems(2), of "[]"] by auto
  then show ?case by (cases w) (auto split: if_splits)
next
  case (RList vs)
  then have k: "List = rlp_kind w" "concat (map rlp_enc vs) = rlp_content w"
    using Split_rlp_enc [OF RList.prems(1), of "[]"] Split_rlp_enc [OF RList.prems(2), of "[]"] by auto
  then obtain ws where w: "w = RList ws"
    by (cases w) (auto split: if_splits)
  have "vs = ws"
    by (rule concat_enc_inject [OF RList.IH])
      (use rlp_small_content [OF RList.prems(1)] k(2) w in auto)
  then show ?case using w by simp
qed

text \<open>The encodings that are hashed or embedded for a tree.\<close>

fun xencs :: "keccak \<Rightarrow> xt \<Rightarrow> rlp set" where
  "xencs K XNil = {}"
| "xencs K (XVal v) = {}"
| "xencs K (XShort k t) = insert (xenc K (XShort k t)) (xencs K t)"
| "xencs K (XFull ts) = insert (xenc K (XFull ts)) (\<Union>t \<in> set ts. xencs K t)"

definition collision_free :: "keccak \<Rightarrow> rlp set \<Rightarrow> bool" where
  "collision_free K S \<longleftrightarrow>
     (\<forall>a \<in> S. \<forall>b \<in> S. K (EncodeToBytes a) = K (EncodeToBytes b) \<longrightarrow> EncodeToBytes a = EncodeToBytes b)"

lemma collision_free_mono: "collision_free K S \<Longrightarrow> T \<subseteq> S \<Longrightarrow> collision_free K T"
  by (auto simp: collision_free_def)

lemma collision_freeD:
  assumes "collision_free K S" "\<forall>e \<in> S. rlp_small e" "a \<in> S" "b \<in> S" "K (EncodeToBytes a) = K (EncodeToBytes b)"
  shows "a = b"
proof -
  have "EncodeToBytes a = EncodeToBytes b" using assms by (auto simp: collision_free_def)
  then show ?thesis using assms(2-4) rlp_enc_inject EncodeToBytes_eq by metis
qed

lemma xenc_list: "canon t \<Longrightarrow> \<exists>es. xenc K t = RList es"
  by (cases t) (auto simp: xenc_full xenc.simps)

lemma xenc_mem: "canon t \<Longrightarrow> xenc K t \<in> xencs K t"
  by (cases t) auto

lemma merkle_ref_inject:
  assumes "collision_free K S" "\<forall>e \<in> S. rlp_small e" "xenc K s \<in> S" "xenc K t \<in> S" "canon s" "canon t"
    "merkle_ref K (xenc K s) = merkle_ref K (xenc K t)"
  shows "xenc K s = xenc K t"
  using assms(7) collision_freeD [OF assms(1-4)] xenc_list [OF assms(5), of K] xenc_list [OF assms(6), of K]
  by (auto simp: merkle_ref_def split: if_splits)

lemma merkle_ref_nonempty:
  "\<forall>b. K b \<noteq> [] \<Longrightarrow> canon t \<Longrightarrow> merkle_ref K (xenc K t) \<noteq> RStr []"
  using xenc_list [of t K] by (auto simp: merkle_ref_def)

lemma valid_hex_key: "term_key k \<Longrightarrow> valid_hex k" "is_nibbles k \<Longrightarrow> valid_hex k"
proof -
  assume "is_nibbles k"
  then show "valid_hex k"
    by (cases k rule: rev_cases) (auto simp: valid_hex_def hasTerm_def)
qed (auto simp: valid_hex_def term_key_def hasTerm_def)

lemma nibbles_not_term_key: "is_nibbles k \<Longrightarrow> \<not> term_key k"
  by (cases k rule: rev_cases) auto

lemma xenc_short_full: "canon (XFull ts) \<Longrightarrow> xenc K (XShort k t) \<noteq> xenc K (XFull ts)"
proof
  assume "canon (XFull ts)" "xenc K (XShort k t) = xenc K (XFull ts)"
  then have "length ts = 17" "length (map (xchild K) ts) = 2"
    unfolding xenc_full xenc.simps(3) canon_full_iff by (auto dest: arg_cong [where f = length])
  then show False by simp
qed

lemma xenc_inject:
  assumes "canon x" "canon y" "xenc K x = xenc K y" "\<forall>b. K b \<noteq> []"
    "collision_free K S" "\<forall>e \<in> S. rlp_small e" "xencs K x \<subseteq> S" "xencs K y \<subseteq> S"
  shows "x = y"
  using assms(1-3,7,8)
proof (induction x arbitrary: y)
  case (XShort k t)
  note inj = merkle_ref_inject [OF assms(5,6)]
  obtain k' t' where y: "y = XShort k' t'"
    using XShort.prems(2,3) xenc_short_full by (cases y) auto
  have nn: "t \<noteq> XNil" "t' \<noteq> XNil" using XShort.prems(1,2) y by auto
  have e: "hexToCompact k = hexToCompact k'" "xchild K t = xchild K t'"
    using XShort.prems(3) y nn by (auto simp: xenc_short)
  have "valid_hex k" "valid_hex k'"
    using XShort.prems(1,2) y valid_hex_key by (auto elim!: canon_short_cases)
  then have k: "k = k'" using e(1) hexToCompact_inject by blast
  show ?case
  proof (cases "term_key k")
    case True
    then obtain v v' where "t = XVal v" "t' = XVal v'"
      using XShort.prems(1,2) y k nibbles_not_term_key by (metis canon_short_cases)
    then show ?thesis using e(2) k y by (simp add: xchild_def)
  next
    case False
    then have c: "canon t" "canon t'"
      using XShort.prems(1,2) y k by (auto elim!: canon_short_cases)
    have "xenc K t = xenc K t'"
      by (rule inj) (use c e(2) xchild_canon XShort.prems(4,5) y xenc_mem in auto)
    then show ?thesis
      using XShort.IH [of t'] c XShort.prems(4,5) y k by auto
  qed
next
  case (XFull ts)
  obtain ts' where y: "y = XFull ts'"
    using XFull.prems(1-3) xenc_short_full [of ts K] by (cases y) force+
  have l: "length ts = 17" "length ts' = 17" using XFull.prems(1,2) y canon_full_iff by auto
  have m: "map (xchild K) ts = map (xchild K) ts'" using XFull.prems(3) y by (simp add: xenc_full)
  have "ts ! i = ts' ! i" if i: "i < 17" for i
  proof -
    have xc: "xchild K (ts ! i) = xchild K (ts' ! i)"
      using m i l by (metis nth_map)
    show ?thesis
    proof (cases "i = 16")
      case True
      then show ?thesis
        using xc XFull.prems(1,2) y
        by (auto simp: canon_full_iff val_child_def xchild_def split: xt.splits)
    next
      case False
      then have c: "canon_root (ts ! i)" "canon_root (ts' ! i)"
        using i XFull.prems(1,2) y by (auto simp: canon_full_iff)
      have mem: "ts ! i \<in> set ts" "ts' ! i \<in> set ts'" using i l by auto
      have "ts ! i = XNil \<longleftrightarrow> ts' ! i = XNil"
        using c xc merkle_ref_nonempty [OF assms(4), of "ts ! i"] xchild_canon [of "ts ! i" K]
          merkle_ref_nonempty [OF assms(4), of "ts' ! i"] xchild_canon [of "ts' ! i" K]
        by (auto simp: canon_root_def)
      moreover have "ts ! i = ts' ! i" if d: "canon (ts ! i)" "canon (ts' ! i)"
      proof -
        have in_S: "xenc K (ts ! i) \<in> S" "xenc K (ts' ! i) \<in> S"
          using xenc_mem [OF d(1), of K] xenc_mem [OF d(2), of K] XFull.prems(4,5) y mem by auto
        have "xenc K (ts ! i) = xenc K (ts' ! i)"
          by (rule merkle_ref_inject [OF assms(5,6) in_S d])
            (use d xc xchild_canon in auto)
        then show ?thesis
          using XFull.IH [OF mem(1), of "ts' ! i"] d XFull.prems(4,5) y mem by auto
      qed
      ultimately show ?thesis using c by (auto simp: canon_root_def)
    qed
  qed
  then show ?case using y l by (simp add: list_eq_iff_nth_eq)
qed auto

definition trie_encs :: "keccak \<Rightarrow> trie \<Rightarrow> rlp set" where
  "trie_encs K t = (\<Union>x \<in> {x. expands (t_db t) (t_root t) x}. xencs K x)"

lemma trie_encs_eq: "expands (t_db t) (t_root t) x \<Longrightarrow> trie_encs K t = xencs K x"
  using expands_functional unfolding trie_encs_def by blast

lemma BytesToHash_32: "length b = 32 \<Longrightarrow> BytesToHash b = b"
  by (simp add: BytesToHash_def setBytes_def HashLength_def)

definition xroot :: "keccak \<Rightarrow> xt \<Rightarrow> rlp" where
  "xroot K x = (if x = XNil then RStr [] else xenc K x)"

lemma xroot_inject:
  assumes "canon_root x" "canon_root y" "xroot K x = xroot K y" "\<forall>b. K b \<noteq> []"
    "collision_free K S" "\<forall>e \<in> S. rlp_small e" "xencs K x \<subseteq> S" "xencs K y \<subseteq> S"
  shows "x = y"
proof (cases "x = XNil \<or> y = XNil")
  case True
  then show ?thesis
    using assms(1-3) xenc_list [of x K] xenc_list [of y K]
    by (auto simp: canon_root_def xroot_def split: if_splits)
next
  case False
  then show ?thesis
    using assms(1-3) by (intro xenc_inject [OF _ _ _ assms(4-8)]) (simp_all add: canon_root_def xroot_def)
qed

lemma xroot_mem: "canon_root x \<Longrightarrow> xroot K x \<in> insert (RStr []) (xencs K x)"
  using xenc_mem [of x K] by (auto simp: canon_root_def xroot_def)

lemma EncodeToBytes_empty: "EncodeToBytes (RStr []) = [0x80]"
  by (simp add: EncodeToBytes_eq rlp_small_def puthead_def)

lemma trie_Hash_xroot:
  assumes "expands (t_db t) (t_root t) x" "canon_root x" "hgood K (t_db t) False (t_root t)"
    "\<forall>b. length (K b) = 32" "K [0x80] = emptyRoot"
  shows "fst (trie_Hash K t) = K (EncodeToBytes (xroot K x))"
  using trie_Hash_ok [OF assms(1-3)] assms(4,5)
  by (auto simp: xroot_def xhash_def BytesToHash_32 EncodeToBytes_empty, simp add: emptyRoot_def BytesToHash_32)

lemma trie_Hash_authentic:
  assumes "trie_ok K t m" "trie_ok K t' m'" "fst (trie_Hash K t) = fst (trie_Hash K t')"
    "\<forall>b. length (K b) = 32" "K [0x80] = emptyRoot"
    "collision_free K (insert (RStr []) (trie_encs K t \<union> trie_encs K t'))"
    "\<forall>e \<in> trie_encs K t \<union> trie_encs K t'. rlp_small e"
  shows "m = m'"
proof -
  obtain x where x: "expands (t_db t) (t_root t) x" "canon_root x" "m = xmap x"
      "hgood K (t_db t) False (t_root t)"
    using assms(1) by (auto simp: trie_ok_def trie_rep_def)
  obtain y where y: "expands (t_db t') (t_root t') y" "canon_root y" "m' = xmap y"
      "hgood K (t_db t') False (t_root t')"
    using assms(2) by (auto simp: trie_ok_def trie_rep_def)
  let ?S = "insert (RStr []) (xencs K x \<union> xencs K y)"
  have S: "collision_free K ?S" "\<forall>e \<in> ?S. rlp_small e"
    using assms(6,7) trie_encs_eq [OF x(1), of K] trie_encs_eq [OF y(1), of K]
    by (auto simp: rlp_small_def puthead_def)
  have "K (EncodeToBytes (xroot K x)) = K (EncodeToBytes (xroot K y))"
    using assms(3) trie_Hash_xroot [OF x(1,2,4) assms(4,5)] trie_Hash_xroot [OF y(1,2,4) assms(4,5)] by simp
  then have "xroot K x = xroot K y"
    using collision_freeD [OF S] xroot_mem [OF x(2), of K] xroot_mem [OF y(2), of K] by blast
  moreover have "\<forall>b. K b \<noteq> []" using assms(4) by (metis list.size(3) zero_neq_numeral)
  ultimately have "x = y"
    using xroot_inject [OF x(2) y(2) _ _ S] by blast
  then show ?thesis using x(3) y(3) by simp
qed

lemma nil_trie_ok: "t_root t = NilN \<Longrightarrow> trie_ok K t Map.empty"
  by (auto simp: trie_ok_def trie_rep_def canon_root_def xmap_def fun_eq_iff intro!: exI [of _ XNil] expands_intros hg_nil)

lemma empty_trie_ok: "trie_ok K empty_trie Map.empty"
  using empty_trie_rep by (simp add: trie_ok_def empty_trie_def hg_nil)

section \<open>Properties\<close>

text \<open>
  C14: The root hash is a function of the contents: two tries built from the empty one by any two
  sequences of updates and deletions that give the same map have the same root hash, whatever
  the hash function, the order of the operations and the deleted keys.
\<close>

theorem root_hash_history_independent:
  assumes "kv_run TryUpdate TryDelete empty_trie ops = Inr t"
    "kv_run TryUpdate TryDelete empty_trie ops' = Inr t'"
    "list_all (op_ok (\<lambda>v. v \<noteq> [])) ops" "list_all (op_ok (\<lambda>v. v \<noteq> [])) ops'"
    "foldl kv_apply Map.empty ops = foldl kv_apply Map.empty ops'"
  shows "fst (trie_Hash K t) = fst (trie_Hash K t')"
proof -
  have "trie_ok K t (foldl kv_apply Map.empty ops)" "trie_ok K t' (foldl kv_apply Map.empty ops')"
    using merkle_kv.run_rep [OF empty_trie_ok assms(3)] merkle_kv.run_rep [OF empty_trie_ok assms(4)] assms(1,2)
    by auto
  then show ?thesis using trie_Hash_determined assms(5) by metis
qed

theorem root_hash_history_independent_witness:
  "\<exists>t t'. kv_run TryUpdate TryDelete empty_trie [Put [1] [7], Put [2] [8]] = Inr t
    \<and> kv_run TryUpdate TryDelete empty_trie [Put [3] [9], Put [2] [8], Put [1] [7], Del [3]] = Inr t'
    \<and> fst (trie_Hash (\<lambda>b. b) t) = fst (trie_Hash (\<lambda>b. b) t')"
proof -
  let ?a = "[Put [1] [7], Put [2] [8 :: byte]] :: (bytes, bytes) kv_op list"
  let ?b = "[Put [3] [9], Put [2] [8], Put [1] [7], Del [3 :: byte]] :: (bytes, bytes) kv_op list"
  obtain t t' where r: "kv_run TryUpdate TryDelete empty_trie ?a = Inr t"
      "kv_run TryUpdate TryDelete empty_trie ?b = Inr t'"
    using trie_kv.run_rep [OF empty_trie_rep, of ?a] trie_kv.run_rep [OF empty_trie_rep, of ?b] by auto
  have "foldl kv_apply Map.empty ?a = foldl kv_apply Map.empty ?b"
    by (auto simp: fun_eq_iff)
  then show ?thesis
    using root_hash_history_independent [OF r] r by auto
qed

text \<open>
  C6: The root hash authenticates the contents: two tries with the same root hash hold the same
  map, provided the hash function returns 32 bytes, maps the encoding of the empty string to the
  constant \<open>emptyRoot\<close> and has no collision among the node encodings of the two tries.
\<close>

theorem root_hash_authenticates:
  assumes "trie_ok K t m" "trie_ok K t' m'" "fst (trie_Hash K t) = fst (trie_Hash K t')"
    "\<forall>b. length (K b) = 32" "K [0x80] = emptyRoot"
    "collision_free K (insert (RStr []) (trie_encs K t \<union> trie_encs K t'))"
    "\<forall>e \<in> trie_encs K t \<union> trie_encs K t'. rlp_small e"
  shows "m = m'"
  using assms by (rule trie_Hash_authentic)

definition pad_hash :: keccak where
  "pad_hash b = (if b = [0x80] then emptyRoot else take 32 (b @ replicate 32 0))"

text \<open>The trie with the one entry \<open>[1] \<mapsto> [v]\<close>.\<close>

definition entry_trie :: "byte \<Rightarrow> trie" where
  "entry_trie v = empty_trie\<lparr>t_root := ShortN (keybytesToHex [1]) (ValueN [v]) (newFlag 0)\<rparr>"

lemma entry_trie_expands:
  "expands (t_db (entry_trie v)) (t_root (entry_trie v)) (XShort [0, 1, 16] (XVal [v]))"
  by (auto simp: entry_trie_def intro!: expands_intros)

lemma entry_trie_ok: "trie_ok K (entry_trie v) [[1] \<mapsto> [v]]"
proof -
  have "TryUpdate empty_trie [1] [v] = Inr (entry_trie v)"
    by (simp add: TryUpdate_def entry_trie_def empty_trie_def key_fuel_def numeral_eq_Suc)
  then show ?thesis
    using TryUpdate_ok [OF empty_trie_ok, of "[1]" "[v]"] by auto
qed

lemma entry_trie_encs: "trie_encs pad_hash (entry_trie v) = {RList [RStr [0x20, 1], RStr [v]]}"
  unfolding trie_encs_eq [OF entry_trie_expands]
  by (simp add: xenc.simps hexToCompact_def hasTerm_def)

definition leaf_trie :: trie where
  "leaf_trie = entry_trie 2"

lemmas leaf_trie_expands = entry_trie_expands [of 2, folded leaf_trie_def]

lemmas leaf_trie_ok = entry_trie_ok [of _ 2, folded leaf_trie_def]

lemma trie_encs_determined: "trie_ok K t m \<Longrightarrow> trie_ok K t' m \<Longrightarrow> trie_encs K t = trie_encs K t'"
  using canon_root_unique trie_encs_eq unfolding trie_ok_def trie_rep_def by metis

lemma pad_hash_32: "length (pad_hash b) = 32" "pad_hash [0x80] = emptyRoot"
  by (auto simp: pad_hash_def emptyRoot_def)

lemma entry_small: "v < 0x80 \<Longrightarrow> rlp_small (RList [RStr [0x20, 1], RStr [v]])" "rlp_small (RStr [])"
  by (simp_all add: rlp_small_def puthead_def word_le_nat_alt word_less_nat_alt)

lemma entry_collision_free:
  "collision_free pad_hash (insert (RStr []) ({RList [RStr [0x20, 1], RStr [2]]} \<union> {RList [RStr [0x20, 1], RStr [v]]}))"
  if "v \<in> {2, 3}"
  using that entry_small
  by (auto simp: collision_free_def pad_hash_def EncodeToBytes_eq emptyRoot_def puthead_def word_le_nat_alt word_less_nat_alt)

text \<open>
  Two different runs of operations end in the same root hash and, by the theorem, in the same contents; the
  trie with another value has another root hash.
\<close>

theorem root_hash_authenticates_witness:
  "\<exists>t m. kv_run TryUpdate TryDelete empty_trie [Put [1] [7], Put [2] [8], Put [1] [2], Del [2]] = Inr t \<and>
     trie_ok pad_hash t m \<and> fst (trie_Hash pad_hash t) = fst (trie_Hash pad_hash (entry_trie 2)) \<and>
     collision_free pad_hash (insert (RStr []) (trie_encs pad_hash t \<union> trie_encs pad_hash (entry_trie 2))) \<and>
     m = [[1] \<mapsto> [2]] \<and> fst (trie_Hash pad_hash t) \<noteq> fst (trie_Hash pad_hash (entry_trie 3))"
proof -
  let ?ops = "[Put [1] [7], Put [2] [8], Put [1] [2], Del [2 :: byte]] :: (bytes, bytes) kv_op list"
  obtain t where t: "kv_run TryUpdate TryDelete empty_trie ?ops = Inr t" "trie_ok pad_hash t (foldl kv_apply Map.empty ?ops)"
    using merkle_kv.run_rep [OF empty_trie_ok, of ?ops pad_hash] by auto
  have m: "foldl kv_apply Map.empty ?ops = [[1] \<mapsto> [2]]" by (auto simp: fun_eq_iff)
  have h: "fst (trie_Hash pad_hash t) = fst (trie_Hash pad_hash (entry_trie 2))"
    using trie_Hash_determined [OF t(2)] entry_trie_ok [of pad_hash 2] unfolding m by blast
  have e: "trie_encs pad_hash t = {RList [RStr [0x20, 1], RStr [2]]}"
    using trie_encs_determined [OF t(2)] entry_trie_ok [of pad_hash 2] entry_trie_encs [of 2] unfolding m by blast
  have c: "collision_free pad_hash (insert (RStr []) (trie_encs pad_hash t \<union> trie_encs pad_hash (entry_trie v)))"
    "\<forall>x \<in> trie_encs pad_hash t \<union> trie_encs pad_hash (entry_trie v). rlp_small x" if "v \<in> {2, 3}" for v
    using entry_collision_free [OF that] entry_small that unfolding e entry_trie_encs by (auto simp: word_less_nat_alt)
  have *: "foldl kv_apply Map.empty ?ops = [[1] \<mapsto> [v]]"
    if "fst (trie_Hash pad_hash t) = fst (trie_Hash pad_hash (entry_trie v))" "v \<in> {2, 3}" for v
    using root_hash_authenticates [OF t(2) entry_trie_ok that(1) _ _ c [OF that(2)]] pad_hash_32 by blast
  have "([[1] \<mapsto> [2]] :: bytes \<rightharpoonup> bytes) [1] \<noteq> [[1] \<mapsto> [3]] [1]" by simp
  then have "[[1] \<mapsto> [2]] \<noteq> ([[1] \<mapsto> [3]] :: bytes \<rightharpoonup> bytes)" by metis
  then have "fst (trie_Hash pad_hash t) \<noteq> fst (trie_Hash pad_hash (entry_trie 3))"
    using * [of 3] unfolding m by blast
  then show ?thesis using t h c(1) [of 2] * [of 2] by blast
qed

end
