(* ===== verification/Ethdb.thy ===== *)
theory Ethdb
  imports Prelude
begin

text \<open>
  The in-memory database of \<open>ethdb/memory_database.go\<close> and its batches: writes collected in a
  batch reach the database, in order, when the batch is written.
\<close>

type_synonym memDatabase = "bytes \<rightharpoonup> bytes"

definition NewMemDatabase :: memDatabase where
  "NewMemDatabase = Map.empty"

definition mem_Put :: "bytes \<Rightarrow> bytes \<Rightarrow> memDatabase \<Rightarrow> memDatabase" where
  "mem_Put key value db = db(key \<mapsto> value)"

definition mem_Has :: "bytes \<Rightarrow> memDatabase \<Rightarrow> bool" where
  "mem_Has key db \<longleftrightarrow> db key \<noteq> None"

text \<open>\<open>None\<close> is the error \<open>not found\<close>.\<close>

definition mem_Get :: "bytes \<Rightarrow> memDatabase \<Rightarrow> bytes option" where
  "mem_Get key db = db key"

definition mem_Delete :: "bytes \<Rightarrow> memDatabase \<Rightarrow> memDatabase" where
  "mem_Delete key db = db(key := None)"

record kv =
  kv_k :: bytes
  kv_v :: bytes
  kv_del :: bool

record memBatch =
  mb_writes :: "kv list"
  mb_size :: nat

definition NewBatch :: memBatch where
  "NewBatch = \<lparr>mb_writes = [], mb_size = 0\<rparr>"

definition mb_Put :: "bytes \<Rightarrow> bytes \<Rightarrow> memBatch \<Rightarrow> memBatch" where
  "mb_Put key value b = b\<lparr>mb_writes := mb_writes b @ [\<lparr>kv_k = key, kv_v = value, kv_del = False\<rparr>],
     mb_size := mb_size b + length value\<rparr>"

definition mb_Delete :: "bytes \<Rightarrow> memBatch \<Rightarrow> memBatch" where
  "mb_Delete key b = b\<lparr>mb_writes := mb_writes b @ [\<lparr>kv_k = key, kv_v = [], kv_del = True\<rparr>],
     mb_size := mb_size b + 1\<rparr>"

definition write_kv :: "kv \<Rightarrow> memDatabase \<Rightarrow> memDatabase" where
  "write_kv w db = (if kv_del w then mem_Delete (kv_k w) db else mem_Put (kv_k w) (kv_v w) db)"

definition mb_Write :: "memBatch \<Rightarrow> memDatabase \<Rightarrow> memDatabase" where
  "mb_Write b db = fold write_kv (mb_writes b) db"

definition mb_ValueSize :: "memBatch \<Rightarrow> nat" where
  "mb_ValueSize b = mb_size b"

definition mb_Reset :: "memBatch \<Rightarrow> memBatch" where
  "mb_Reset b = b\<lparr>mb_writes := [], mb_size := 0\<rparr>"

lemma mb_Write_NewBatch [simp]: "mb_Write NewBatch db = db" "mb_Write (mb_Reset b) db = db"
  by (simp_all add: mb_Write_def NewBatch_def mb_Reset_def)

lemma mb_Write_Put [simp]: "mb_Write (mb_Put k v b) db = (mb_Write b db)(k \<mapsto> v)"
  by (simp add: mb_Write_def mb_Put_def write_kv_def mem_Put_def)

lemma mb_Write_Delete [simp]: "mb_Write (mb_Delete k b) db = (mb_Write b db)(k := None)"
  by (simp add: mb_Write_def mb_Delete_def write_kv_def mem_Delete_def)

end
