(* ===== verification/Trie_Database.thy ===== *)
theory Trie_Database
  imports Merkle Ethdb
begin

text \<open>
  The trie node database of \<open>trie/database.go\<close>: nodes cached in memory with reference counts and
  a flush list in the order of their insertion, garbage collection of dereferenced tries, flushing of
  the oldest nodes to disk and persisting whole tries. The type of the database and the insertion of
  nodes are in \<open>Hasher\<close>.

  The disk database is a map from keys to values; \<open>write\<close> is its batch write, which may fail
  (\<open>None\<close>). Statistics for logging are left out. \<open>DbPanic\<close> is the dereference of a nil node.
  The recursions over the node graph take fuel; on a graph without cycles, fuel above the height of
  the node they start from is enough.
\<close>

section \<open>Reading\<close>

datatype dbErr = DbPanic | DbFuel | WriteErr

fun raw_rlp :: "rawnode \<Rightarrow> rlp" where
  "raw_rlp (RawFull cs) = RList (map (\<lambda>c. case c of RawNil \<Rightarrow> RStr [] | _ \<Rightarrow> raw_rlp c) cs)"
| "raw_rlp (RawShort k v) = RList [RStr k, raw_rlp v]"
| "raw_rlp (RawHash h) = RStr h"
| "raw_rlp (RawValue v) = RStr v"
| "raw_rlp (RawNode b) = RStr b"
| "raw_rlp RawNil = RList []"

text \<open>The code panics on the nil node of the metaroot, which is never read; its encoding here is unused.\<close>

definition cachedNode_rlp :: "cachedNode \<Rightarrow> bytes" where
  "cachedNode_rlp n = (case cn_node n of RawNode b \<Rightarrow> b | r \<Rightarrow> EncodeToBytes (raw_rlp r))"

definition Database_Node :: "database \<Rightarrow> hash \<Rightarrow> bytes option" where
  "Database_Node db h = (case db_nodes db h of Some n \<Rightarrow> Some (cachedNode_rlp n) | None \<Rightarrow> db_disk db h)"

definition secureKeyPrefix :: bytes where
  "secureKeyPrefix = [0x73, 0x65, 0x63, 0x75, 0x72, 0x65, 0x2D, 0x6B, 0x65, 0x79, 0x2D]"

definition secureKey :: "hash \<Rightarrow> bytes" where
  "secureKey key = secureKeyPrefix @ key"

definition insertPreimage :: "hash \<Rightarrow> bytes \<Rightarrow> database \<Rightarrow> database" where
  "insertPreimage h preimage db =
     (case map_of (db_preimages db) h of
        Some _ \<Rightarrow> db
      | None \<Rightarrow> db\<lparr>db_preimages := db_preimages db @ [(h, preimage)],
                  db_preimagesSize := db_preimagesSize db + int (32 + length preimage)\<rparr>)"

definition Database_preimage :: "database \<Rightarrow> hash \<Rightarrow> bytes option" where
  "Database_preimage db h =
     (case map_of (db_preimages db) h of Some p \<Rightarrow> Some p | None \<Rightarrow> db_disk db (secureKey h))"

text \<open>The code counts sizes in \<open>float64\<close>, which is exact up to \<open>2^53\<close>; the model has integers.\<close>

definition Database_Size :: "database \<Rightarrow> int \<times> int" where
  "Database_Size db = (db_nodesSize db + (int (card (dom (db_nodes db))) - 1) * 2 * 32, db_preimagesSize db)"

section \<open>References\<close>

text \<open>The map of external children as an association list with counts.\<close>

definition child_count :: "cachedNode \<Rightarrow> hash \<Rightarrow> uint16 option" where
  "child_count n c = map_of (cn_children n) c"

definition set_child :: "hash \<Rightarrow> uint16 \<Rightarrow> (hash \<times> uint16) list \<Rightarrow> (hash \<times> uint16) list" where
  "set_child c v xs = (if c \<in> fst ` set xs then map (\<lambda>(k, w). if k = c then (k, v) else (k, w)) xs else xs @ [(c, v)])"

definition reference :: "hash \<Rightarrow> hash \<Rightarrow> database \<Rightarrow> dbErr + database" where
  "reference child parent db =
     (case db_nodes db child of
        None \<Rightarrow> Inr db
      | Some node \<Rightarrow>
          (case db_nodes db parent of
             None \<Rightarrow> Inl DbPanic
           | Some p \<Rightarrow>
               if child_count p child \<noteq> None \<and> parent \<noteq> zeroHash then Inr db
               else
                 (let nodes = (db_nodes db)(child \<mapsto> node\<lparr>cn_parents := cn_parents node + 1\<rparr>);
                      p = (if parent = child then node\<lparr>cn_parents := cn_parents node + 1\<rparr> else p);
                      old = (case child_count p child of None \<Rightarrow> 0 | Some v \<Rightarrow> v)
                  in Inr (db\<lparr>db_nodes := nodes(parent \<mapsto> p\<lparr>cn_children := set_child child (old + 1) (cn_children p)\<rparr>)\<rparr>))))"

definition drop_child :: "hash \<Rightarrow> cachedNode \<Rightarrow> cachedNode" where
  "drop_child child node =
     (case child_count node child of
        None \<Rightarrow> node
      | Some v \<Rightarrow>
          if v = 0 then node
          else if v - 1 = 0 then node\<lparr>cn_children := filter (\<lambda>(k, w). k \<noteq> child) (cn_children node)\<rparr>
          else node\<lparr>cn_children := set_child child (v - 1) (cn_children node)\<rparr>)"

text \<open>Setting a link of a node panics when there is no such node.\<close>

definition set_prev :: "hash \<Rightarrow> hash \<Rightarrow> database \<Rightarrow> dbErr + database" where
  "set_prev h v db =
     (case db_nodes db h of
        None \<Rightarrow> Inl DbPanic
      | Some n \<Rightarrow> Inr (db\<lparr>db_nodes := (db_nodes db)(h \<mapsto> n\<lparr>cn_flushPrev := v\<rparr>)\<rparr>))"

definition set_next :: "hash \<Rightarrow> hash \<Rightarrow> database \<Rightarrow> dbErr + database" where
  "set_next h v db =
     (case db_nodes db h of
        None \<Rightarrow> Inl DbPanic
      | Some n \<Rightarrow> Inr (db\<lparr>db_nodes := (db_nodes db)(h \<mapsto> n\<lparr>cn_flushNext := v\<rparr>)\<rparr>))"

text \<open>Removing a node from the flush list, as \<open>dereference\<close> and \<open>uncache\<close> do.\<close>

definition unlink :: "hash \<Rightarrow> cachedNode \<Rightarrow> database \<Rightarrow> dbErr + database" where
  "unlink h node db =
     (if h = db_oldest db then set_prev (cn_flushNext node) zeroHash (db\<lparr>db_oldest := cn_flushNext node\<rparr>)
      else if h = db_newest db then set_next (cn_flushPrev node) zeroHash (db\<lparr>db_newest := cn_flushPrev node\<rparr>)
      else (case set_next (cn_flushPrev node) (cn_flushNext node) db of
              Inl e \<Rightarrow> Inl e
            | Inr db \<Rightarrow> set_prev (cn_flushNext node) (cn_flushPrev node) db))"

definition drop_node :: "hash \<Rightarrow> database \<Rightarrow> database" where
  "drop_node h db =
     db\<lparr>db_nodes := (db_nodes db)(h := None),
       db_nodesSize := db_nodesSize db - (case db_nodes db h of None \<Rightarrow> 0 | Some n \<Rightarrow> 32 + uint (cn_size n))\<rparr>"

text \<open>The node \<open>child\<close> without the reference from \<open>parent\<close>.\<close>

definition drop_reference :: "hash \<Rightarrow> hash \<Rightarrow> database \<Rightarrow> dbErr + database" where
  "drop_reference child parent db =
     (case db_nodes db parent of
        None \<Rightarrow> Inl DbPanic
      | Some p \<Rightarrow>
          (let db = db\<lparr>db_nodes := (db_nodes db)(parent \<mapsto> drop_child child p)\<rparr> in
           case db_nodes db child of
             None \<Rightarrow> Inr db
           | Some n \<Rightarrow>
               Inr (if cn_parents n > 0
                    then db\<lparr>db_nodes := (db_nodes db)(child \<mapsto> n\<lparr>cn_parents := cn_parents n - 1\<rparr>)\<rparr>
                    else db)))"

fun dereference :: "nat \<Rightarrow> hash \<Rightarrow> hash \<Rightarrow> database \<Rightarrow> dbErr + database"
and dereferences :: "nat \<Rightarrow> hash list \<Rightarrow> hash \<Rightarrow> database \<Rightarrow> dbErr + database" where
  "dereference 0 child parent db = Inl DbFuel"
| "dereference (Suc f) child parent db =
     (case drop_reference child parent db of
        Inl e \<Rightarrow> Inl e
      | Inr db \<Rightarrow>
          (case db_nodes db child of
             None \<Rightarrow> Inr db
           | Some node \<Rightarrow>
               if cn_parents node \<noteq> 0 then Inr db
               else
                 (case unlink child node db of
                    Inl e \<Rightarrow> Inl e
                  | Inr db \<Rightarrow>
                      (case dereferences f (childs node) child db of
                         Inl e \<Rightarrow> Inl e
                       | Inr db \<Rightarrow> Inr (drop_node child db)))))"
| "dereferences f [] child db = Inr db"
| "dereferences 0 (h # hs) child db = Inl DbFuel"
| "dereferences (Suc f) (h # hs) child db =
     (case dereference (Suc f) h child db of
        Inl e \<Rightarrow> Inl e
      | Inr db \<Rightarrow> dereferences (Suc f) hs child db)"

definition Dereference :: "nat \<Rightarrow> hash \<Rightarrow> database \<Rightarrow> dbErr + database" where
  "Dereference f root db = (if root = zeroHash then Inr db else dereference f root zeroHash db)"

section \<open>Flushing\<close>

definition IdealBatchSize :: nat where
  "IdealBatchSize = 100 * 1024"

type_synonym diskWrite = "memBatch \<Rightarrow> memDatabase \<Rightarrow> memDatabase option"

text \<open>\<open>batch.Write\<close> followed by \<open>batch.Reset\<close>.\<close>

definition flush :: "diskWrite \<Rightarrow> memBatch \<Rightarrow> memDatabase \<Rightarrow> dbErr + (memBatch \<times> memDatabase)" where
  "flush write b d = (case write b d of None \<Rightarrow> Inl WriteErr | Some d \<Rightarrow> Inr (mb_Reset b, d))"

fun put_preimages :: "diskWrite \<Rightarrow> (hash \<times> bytes) list \<Rightarrow> memBatch \<Rightarrow> memDatabase \<Rightarrow>
    dbErr + (memBatch \<times> memDatabase)" where
  "put_preimages write [] b d = Inr (b, d)"
| "put_preimages write ((h, p) # ps) b d =
     (let b = mb_Put (secureKey h) p b in
      case (if mb_ValueSize b > IdealBatchSize then flush write b d else Inr (b, d)) of
        Inl e \<Rightarrow> Inl e
      | Inr (b, d) \<Rightarrow> put_preimages write ps b d)"

text \<open>Adding a node to a batch, which is written when it is large.\<close>

definition put_node :: "diskWrite \<Rightarrow> hash \<Rightarrow> cachedNode \<Rightarrow> memBatch \<Rightarrow> memDatabase \<Rightarrow>
    dbErr + (memBatch \<times> memDatabase)" where
  "put_node write h node b d =
     (let b = mb_Put h (cachedNode_rlp node) b in
      if mb_ValueSize b \<ge> IdealBatchSize then flush write b d else Inr (b, d))"

text \<open>
  The first loop of \<open>Cap\<close> writes nodes from the oldest on until the size fits; its result is the
  first node that stays. The second loop removes the nodes before it.
\<close>

partial_function (option) cap_write :: "diskWrite \<Rightarrow> int \<Rightarrow> (hash \<Rightarrow> cachedNode option) \<Rightarrow> int \<Rightarrow> hash \<Rightarrow>
    memBatch \<Rightarrow> memDatabase \<Rightarrow> (dbErr + (hash \<times> memBatch \<times> memDatabase)) option" where
  "cap_write write limit nodes sz oldest b d =
     (if sz > limit \<and> oldest \<noteq> zeroHash then
        (case nodes oldest of
           None \<Rightarrow> Some (Inl DbPanic)
         | Some node \<Rightarrow>
             (case put_node write oldest node b d of
                Inl e \<Rightarrow> Some (Inl e)
              | Inr bd \<Rightarrow>
                  cap_write write limit nodes (sz - (96 + uint (cn_size node))) (cn_flushNext node) (fst bd) (snd bd)))
      else Some (Inr (oldest, b, d)))"

partial_function (option) cap_drop :: "hash \<Rightarrow> database \<Rightarrow> (dbErr + database) option" where
  "cap_drop oldest db =
     (if db_oldest db \<noteq> oldest then
        (case db_nodes db (db_oldest db) of
           None \<Rightarrow> Some (Inl DbPanic)
         | Some node \<Rightarrow>
             cap_drop oldest (db\<lparr>db_nodes := (db_nodes db)(db_oldest db := None), db_oldest := cn_flushNext node,
                               db_nodesSize := db_nodesSize db - (32 + uint (cn_size node))\<rparr>))
      else Some (Inr db))"

text \<open>
  After an error the database in memory is as before; an error result does not say how much of the
  data has reached the disk by then.
\<close>

definition Cap :: "diskWrite \<Rightarrow> int \<Rightarrow> database \<Rightarrow> (dbErr + database) option" where
  "Cap write limit db =
     (let sz = fst (Database_Size db);
          flushPreimages = (db_preimagesSize db > 4 * 1024 * 1024)
      in case (if flushPreimages then put_preimages write (db_preimages db) NewBatch (db_disk db)
               else Inr (NewBatch, db_disk db)) of
           Inl e \<Rightarrow> Some (Inl e)
         | Inr (b, d) \<Rightarrow>
             (case cap_write write limit (db_nodes db) sz (db_oldest db) b d of
                None \<Rightarrow> None
              | Some (Inl e) \<Rightarrow> Some (Inl e)
              | Some (Inr (oldest, b, d)) \<Rightarrow>
                  (case write b d of
                     None \<Rightarrow> Some (Inl WriteErr)
                   | Some d \<Rightarrow>
                       (let db = db\<lparr>db_disk := d\<rparr>;
                            db = (if flushPreimages then db\<lparr>db_preimages := [], db_preimagesSize := 0\<rparr> else db)
                        in case cap_drop oldest db of
                             None \<Rightarrow> None
                           | Some (Inl e) \<Rightarrow> Some (Inl e)
                           | Some (Inr db) \<Rightarrow>
                               Some (if db_oldest db \<noteq> zeroHash then set_prev (db_oldest db) zeroHash db else Inr db)))))"

fun db_commit :: "diskWrite \<Rightarrow> nat \<Rightarrow> (hash \<Rightarrow> cachedNode option) \<Rightarrow> hash \<Rightarrow> memBatch \<Rightarrow> memDatabase \<Rightarrow>
    dbErr + (memBatch \<times> memDatabase)"
and db_commits :: "diskWrite \<Rightarrow> nat \<Rightarrow> (hash \<Rightarrow> cachedNode option) \<Rightarrow> hash list \<Rightarrow> memBatch \<Rightarrow> memDatabase \<Rightarrow>
    dbErr + (memBatch \<times> memDatabase)" where
  "db_commit write 0 nodes h b d = Inl DbFuel"
| "db_commit write (Suc f) nodes h b d =
     (case nodes h of
        None \<Rightarrow> Inr (b, d)
      | Some node \<Rightarrow>
          (case db_commits write f nodes (childs node) b d of
             Inl e \<Rightarrow> Inl e
           | Inr (b, d) \<Rightarrow> put_node write h node b d))"
| "db_commits write f nodes [] b d = Inr (b, d)"
| "db_commits write 0 nodes (h # hs) b d = Inl DbFuel"
| "db_commits write (Suc f) nodes (h # hs) b d =
     (case db_commit write (Suc f) nodes h b d of
        Inl e \<Rightarrow> Inl e
      | Inr (b, d) \<Rightarrow> db_commits write (Suc f) nodes hs b d)"

fun uncache :: "nat \<Rightarrow> hash \<Rightarrow> database \<Rightarrow> dbErr + database"
and uncaches :: "nat \<Rightarrow> hash list \<Rightarrow> database \<Rightarrow> dbErr + database" where
  "uncache 0 h db = Inl DbFuel"
| "uncache (Suc f) h db =
     (case db_nodes db h of
        None \<Rightarrow> Inr db
      | Some node \<Rightarrow>
          (case unlink h node db of
             Inl e \<Rightarrow> Inl e
           | Inr db \<Rightarrow>
               (case uncaches f (childs node) db of
                  Inl e \<Rightarrow> Inl e
                | Inr db \<Rightarrow> Inr (drop_node h db))))"
| "uncaches f [] db = Inr db"
| "uncaches 0 (h # hs) db = Inl DbFuel"
| "uncaches (Suc f) (h # hs) db =
     (case uncache (Suc f) h db of
        Inl e \<Rightarrow> Inl e
      | Inr db \<Rightarrow> uncaches (Suc f) hs db)"

definition Database_Commit :: "diskWrite \<Rightarrow> nat \<Rightarrow> hash \<Rightarrow> database \<Rightarrow> dbErr + database" where
  "Database_Commit write f node db =
     (case put_preimages write (db_preimages db) NewBatch (db_disk db) of
        Inl e \<Rightarrow> Inl e
      | Inr (b, d) \<Rightarrow>
          (case db_commit write f (db_nodes db) node b d of
             Inl e \<Rightarrow> Inl e
           | Inr (b, d) \<Rightarrow>
               (case write b d of
                  None \<Rightarrow> Inl WriteErr
                | Some d \<Rightarrow> uncache f node (db\<lparr>db_disk := d, db_preimages := [], db_preimagesSize := 0\<rparr>))))"

section \<open>The flush list\<close>

definition links :: "(hash \<Rightarrow> cachedNode option) \<Rightarrow> hash \<Rightarrow> hash \<Rightarrow> bool" where
  "links nodes a b \<longleftrightarrow> (\<exists>m n. nodes a = Some m \<and> nodes b = Some n \<and> cn_flushNext m = b \<and> cn_flushPrev n = a)"

definition ends :: "(hash \<Rightarrow> cachedNode option) \<Rightarrow> hash \<Rightarrow> bool" where
  "ends nodes h \<longleftrightarrow> (\<exists>n. nodes h = Some n \<and> cn_flushNext n = zeroHash)"

text \<open>
  The nodes of the cache are the meta root, the nodes \<open>hs\<close> of the flush list, oldest first, and
  the nodes \<open>X\<close> that are being removed and are no longer in the list.
\<close>

definition flush_inv :: "database \<Rightarrow> hash list \<Rightarrow> hash set \<Rightarrow> bool" where
  "flush_inv db hs X \<longleftrightarrow> distinct hs \<and> zeroHash \<notin> set hs \<and> zeroHash \<notin> X \<and> X \<inter> set hs = {}
     \<and> dom (db_nodes db) = insert zeroHash (set hs \<union> X)
     \<and> successively (links (db_nodes db)) hs
     \<and> (if hs = [] then db_oldest db = zeroHash
        else db_oldest db = hd hs \<and> db_newest db = last hs \<and> ends (db_nodes db) (last hs))"

definition node_body :: "cachedNode \<Rightarrow> rawnode \<times> uint16 \<times> uint16 \<times> (hash \<times> uint16) list" where
  "node_body n = (cn_node n, cn_size n, cn_parents n, cn_children n)"

text \<open>Databases that differ in their links only.\<close>

definition same_bodies :: "database \<Rightarrow> database \<Rightarrow> bool" where
  "same_bodies db db' \<longleftrightarrow> (\<forall>h. map_option node_body (db_nodes db' h) = map_option node_body (db_nodes db h))
     \<and> db_disk db' = db_disk db \<and> db_preimages db' = db_preimages db \<and> db_preimagesSize db' = db_preimagesSize db
     \<and> db_nodesSize db' = db_nodesSize db"

lemma links_prev:
  assumes "nodes x = Some n" "x \<notin> set (tl l)"
  shows "successively (links (nodes(x \<mapsto> n\<lparr>cn_flushPrev := v\<rparr>))) l = successively (links nodes) l"
  using assms(2) by (induction "links nodes" l rule: successively.induct) (auto simp: links_def assms(1))

lemma links_next:
  assumes "nodes x = Some n" "x \<notin> set (butlast l)"
  shows "successively (links (nodes(x \<mapsto> n\<lparr>cn_flushNext := v\<rparr>))) l = successively (links nodes) l"
  using assms(2) by (induction "links nodes" l rule: successively.induct) (auto simp: links_def assms(1))

lemma ends_prev: "nodes x = Some n \<Longrightarrow> ends (nodes(x \<mapsto> n\<lparr>cn_flushPrev := v\<rparr>)) h = ends nodes h"
  by (auto simp: ends_def)

lemma ends_next: "nodes x = Some n \<Longrightarrow> h \<noteq> x \<Longrightarrow> ends (nodes(x \<mapsto> n\<lparr>cn_flushNext := v\<rparr>)) h = ends nodes h"
  by (auto simp: ends_def)

lemma flush_inv_split:
  assumes "flush_inv db hs X" "h \<in> set hs" "db_nodes db h = Some node"
  obtains as bs where "hs = as @ h # bs" "h \<notin> set as" "h \<notin> set bs"
    "cn_flushNext node = (if bs = [] then zeroHash else hd bs)"
    "as \<noteq> [] \<Longrightarrow> cn_flushPrev node = last as"
proof -
  obtain as bs where hs: "hs = as @ h # bs" "h \<notin> set as" using split_list_first [OF assms(2)] by blast
  then have "h \<notin> set bs" using assms(1) by (auto simp: flush_inv_def)
  moreover have s: "successively (links (db_nodes db)) (as @ h # bs)" using assms(1) hs by (simp add: flush_inv_def)
  then have "cn_flushPrev node = last as" if "as \<noteq> []"
    using that assms(3) by (auto simp: successively_append_iff links_def)
  moreover have "cn_flushNext node = (if bs = [] then zeroHash else hd bs)"
    using s assms hs by (cases bs) (auto simp: successively_append_iff links_def flush_inv_def ends_def)
  ultimately show ?thesis using that hs by blast
qed

lemma unlink_flush:
  assumes "flush_inv db hs X" "h \<in> set hs" "db_nodes db h = Some node"
  shows "\<exists>db'. unlink h node db = Inr db' \<and> flush_inv db' (remove1 h hs) (insert h X) \<and> same_bodies db db'"
proof -
  obtain as bs where s: "hs = as @ h # bs" "h \<notin> set as" "h \<notin> set bs"
      "cn_flushNext node = (if bs = [] then zeroHash else hd bs)" "as \<noteq> [] \<Longrightarrow> cn_flushPrev node = last as"
    using flush_inv_split [OF assms] by blast
  have rm: "remove1 h hs = as @ bs" using s(1,2) by (simp add: remove1_append)
  have inv: "distinct hs" "zeroHash \<notin> set hs" "zeroHash \<notin> X" "X \<inter> set hs = {}"
      "dom (db_nodes db) = insert zeroHash (set hs \<union> X)" "successively (links (db_nodes db)) hs"
      "db_oldest db = hd hs" "db_newest db = last hs" "ends (db_nodes db) (last hs)"
    using assms(1) s(1) by (auto simp: flush_inv_def split: if_splits)
  have dom: "db_nodes db k \<noteq> None" if "k = zeroHash \<or> k \<in> set hs" for k
    using that inv(5) by blast
  show ?thesis
  proof (cases "as = []")
    case True
    let ?x = "cn_flushNext node"
    obtain n where n: "db_nodes db ?x = Some n" using dom [of ?x] s(1,4) by (cases bs) auto
    have "?x \<notin> set (tl bs)" using s inv(1,2) True by (cases bs) auto
    then have "successively (links ((db_nodes db)(?x \<mapsto> n\<lparr>cn_flushPrev := zeroHash\<rparr>))) bs"
      using links_prev [of "db_nodes db" ?x n] n inv(6) s(1) True by (cases bs) auto
    then have "flush_inv (db\<lparr>db_oldest := ?x, db_nodes := (db_nodes db)(?x \<mapsto> n\<lparr>cn_flushPrev := zeroHash\<rparr>)\<rparr>) bs (insert h X)"
      using inv s True n ends_prev [of "db_nodes db" ?x n] by (auto simp: flush_inv_def)
    moreover have "h = db_oldest db" using inv(7) s(1) True by simp
    ultimately show ?thesis
      using n rm True by (auto simp: unlink_def set_prev_def same_bodies_def node_body_def)
  next
    case False
    let ?p = "cn_flushPrev node"
    have p: "?p = last as" "?p \<in> set as" "h \<noteq> db_oldest db"
      using s(2,5) False inv(7) s(1) by auto
    obtain m where m: "db_nodes db ?p = Some m" using dom [of ?p] p s(1) by auto
    have pb: "?p \<notin> set (butlast as)" using p(1) False inv(1) s(1) by (metis append_butlast_last_id distinct_append not_distinct_conv_prefix)
    show ?thesis
    proof (cases "bs = []")
      case True
      have "successively (links ((db_nodes db)(?p \<mapsto> m\<lparr>cn_flushNext := zeroHash\<rparr>))) as"
        using links_next [of "db_nodes db" ?p m] m pb inv(6) s(1) by (simp add: successively_append_iff)
      then have "flush_inv (db\<lparr>db_newest := ?p, db_nodes := (db_nodes db)(?p \<mapsto> m\<lparr>cn_flushNext := zeroHash\<rparr>)\<rparr>) as (insert h X)"
        using inv s p m False True by (auto simp: flush_inv_def ends_def)
      moreover have "h = db_newest db" using inv(8) s(1) True by simp
      ultimately show ?thesis
        using m rm True p by (auto simp: unlink_def set_next_def same_bodies_def node_body_def)
    next
      case bs: False
      let ?x = "cn_flushNext node" and ?ns = "(db_nodes db)(?p \<mapsto> m\<lparr>cn_flushNext := cn_flushNext node\<rparr>)"
      have x: "?x = hd bs" "?x \<in> set bs" "h \<noteq> db_newest db"
        using s bs inv(8) last_in_set [OF bs] by auto
      then have "?x \<noteq> ?p" using inv(1) s(1) p(2) by auto
      note x = x this
      obtain n where n: "db_nodes db ?x = Some n" using dom [of ?x] x s(1) by auto
      then have n': "?ns ?x = Some n" using x(4) by simp
      have disj: "set as \<inter> set bs = {}" "distinct bs" using inv(1) s(1) by auto
      have "?p \<notin> set (butlast bs)" using disj(1) p(2) in_set_butlastD [of ?p bs] by blast
      moreover have "?x \<notin> set (tl as)" using disj(1) x(2) list.set_sel(2) [OF False, of ?x] by blast
      moreover have "?x \<notin> set (tl bs)" using disj(2) x(1) by (cases bs) auto
      ultimately have "successively (links (?ns(?x \<mapsto> n\<lparr>cn_flushPrev := ?p\<rparr>))) as"
          "successively (links (?ns(?x \<mapsto> n\<lparr>cn_flushPrev := ?p\<rparr>))) bs"
        using links_next [of "db_nodes db" ?p m] links_prev [of ?ns ?x n] m n' pb inv(6) s(1) bs by (simp_all add: successively_append_iff successively_Cons)
      moreover have "links (?ns(?x \<mapsto> n\<lparr>cn_flushPrev := ?p\<rparr>)) (last as) (hd bs)"
        using p(1) x(1,4) m by (auto simp: links_def)
      moreover have "last bs \<in> set bs" "last bs = last hs" using bs s(1) by simp_all
      then have "last bs \<noteq> ?p" "ends (db_nodes db) (last bs)" using disj(1) p(2) inv(9) by auto
      then have "ends (?ns(?x \<mapsto> n\<lparr>cn_flushPrev := ?p\<rparr>)) (last bs)"
        using ends_prev [of ?ns ?x n] ends_next [of "db_nodes db" ?p m "last bs"] m n' by simp
      ultimately have "flush_inv (db\<lparr>db_nodes := ?ns(?x \<mapsto> n\<lparr>cn_flushPrev := ?p\<rparr>)\<rparr>) (as @ bs) (insert h X)"
        using inv s False bs n m by (auto simp: flush_inv_def successively_append_iff)
      then show ?thesis
        using m n' rm p x by (auto simp: unlink_def set_next_def set_prev_def same_bodies_def node_body_def)
    qed
  qed
qed


lemma drop_node_flush:
  assumes "flush_inv db hs (insert h X)" "h \<notin> X"
  shows "flush_inv (drop_node h db) hs X"
proof -
  have h: "h \<notin> set hs" "h \<noteq> zeroHash" using assms(1) by (auto simp: flush_inv_def)
  have l: "links (db_nodes (drop_node h db)) a b = links (db_nodes db) a b" if "a \<noteq> h" "b \<noteq> h" for a b
    using that by (simp add: links_def drop_node_def)
  have s: "successively (links (db_nodes db)) hs" using assms(1) by (simp add: flush_inv_def)
  have "successively (links (db_nodes (drop_node h db))) hs"
    by (rule successively_mono [OF s]) (metis l h(1))
  moreover have "ends (db_nodes (drop_node h db)) (last hs) = ends (db_nodes db) (last hs)" if "hs \<noteq> []"
    using that h(1) last_in_set [OF that] by (auto simp: ends_def drop_node_def)
  moreover have "dom (db_nodes (drop_node h db)) = dom (db_nodes db) - {h}" "db_oldest (drop_node h db) = db_oldest db"
      "db_newest (drop_node h db) = db_newest db"
    by (auto simp: drop_node_def)
  moreover have "insert zeroHash (set hs \<union> insert h X) - {h} = insert zeroHash (set hs \<union> X)" using assms(2) h by auto
  ultimately show ?thesis
    using assms(1) by (simp add: flush_inv_def)
qed

text \<open>A change of the nodes that keeps the links keeps the list.\<close>

lemma flush_inv_cong:
  assumes "flush_inv db hs X" "db_oldest db' = db_oldest db" "db_newest db' = db_newest db"
    "\<And>h. map_option (\<lambda>n. (cn_flushPrev n, cn_flushNext n)) (db_nodes db' h) =
          map_option (\<lambda>n. (cn_flushPrev n, cn_flushNext n)) (db_nodes db h)"
  shows "flush_inv db' hs X"
proof -
  have m: "(\<exists>n'. db_nodes db' h = Some n' \<and> P (cn_flushPrev n') (cn_flushNext n')) \<longleftrightarrow>
      (\<exists>n. db_nodes db h = Some n \<and> P (cn_flushPrev n) (cn_flushNext n))" for h P
    using assms(4) [of h] by (cases "db_nodes db h"; cases "db_nodes db' h") auto
  have "links (db_nodes db') a b = links (db_nodes db) a b" for a b
    using m [of a "\<lambda>p n. n = b"] m [of b "\<lambda>p n. p = a"] by (auto simp: links_def)
  then have "links (db_nodes db') = links (db_nodes db)" by (simp add: fun_eq_iff)
  moreover have "ends (db_nodes db') h = ends (db_nodes db) h" for h
    using m [of h "\<lambda>p n. n = zeroHash"] by (simp add: ends_def)
  moreover have "dom (db_nodes db') = dom (db_nodes db)" using m [of _ "\<lambda>_ _. True"] by (auto simp: dom_def)
  ultimately show ?thesis using assms(1-3) by (simp add: flush_inv_def)
qed

section \<open>Garbage collection\<close>

text \<open>
  A rank that falls from every cached node to its cached children: the graph of nodes has no cycle,
  as the hash of a node depends on the hashes of its children.
\<close>

definition ranked :: "(hash \<Rightarrow> nat) \<Rightarrow> (hash \<Rightarrow> cachedNode option) \<Rightarrow> bool" where
  "ranked r nodes \<longleftrightarrow> (\<forall>h n c. h \<noteq> zeroHash \<and> nodes h = Some n \<and> c \<in> set (childs n) \<longrightarrow>
     c \<noteq> zeroHash \<and> (nodes c \<noteq> None \<longrightarrow> r c < r h))"

text \<open>The second database has only nodes of the first, with the same contents and no new children.\<close>

definition shrinks :: "database \<Rightarrow> database \<Rightarrow> bool" where
  "shrinks db db' \<longleftrightarrow> db_disk db' = db_disk db \<and> db_preimages db' = db_preimages db
     \<and> (\<forall>h n'. db_nodes db' h = Some n' \<longrightarrow> (\<exists>n. db_nodes db h = Some n \<and> cn_node n' = cn_node n
          \<and> cn_size n' = cn_size n \<and> set (childs n') \<subseteq> set (childs n)))"

lemma shrinks_refl [simp]: "shrinks db db"
  by (auto simp: shrinks_def)

lemma shrinksD:
  "shrinks db db' \<Longrightarrow> db_nodes db' h = Some n' \<Longrightarrow>
    \<exists>n. db_nodes db h = Some n \<and> cn_node n' = cn_node n \<and> cn_size n' = cn_size n \<and> set (childs n') \<subseteq> set (childs n)"
  by (simp add: shrinks_def)

lemma shrinks_trans [trans]:
  assumes "shrinks a b" "shrinks b c"
  shows "shrinks a c"
proof -
  have "\<exists>n. db_nodes a h = Some n \<and> cn_node n' = cn_node n \<and> cn_size n' = cn_size n \<and> set (childs n') \<subseteq> set (childs n)"
    if n': "db_nodes c h = Some n'" for h n'
  proof -
    obtain m where m: "db_nodes b h = Some m" "cn_node n' = cn_node m" "cn_size n' = cn_size m" "set (childs n') \<subseteq> set (childs m)"
      using shrinksD [OF assms(2) n'] by blast
    then show ?thesis using shrinksD [OF assms(1) m(1)] by auto
  qed
  then show ?thesis using assms by (simp add: shrinks_def)
qed

lemma same_bodies_shrinks: "same_bodies db db' \<Longrightarrow> shrinks db db'"
  unfolding same_bodies_def shrinks_def
proof safe
  fix h n' assume "\<forall>h. map_option node_body (db_nodes db' h) = map_option node_body (db_nodes db h)" "db_nodes db' h = Some n'"
  then obtain n where "db_nodes db h = Some n" "node_body n' = node_body n" by (metis map_option_eq_Some)
  then show "\<exists>n. db_nodes db h = Some n \<and> cn_node n' = cn_node n \<and> cn_size n' = cn_size n \<and> set (childs n') \<subseteq> set (childs n)"
    by (auto simp: node_body_def childs_def)
qed

lemma drop_node_shrinks: "shrinks db (drop_node h db)"
  by (auto simp: shrinks_def drop_node_def)

lemma ranked_shrinks: "ranked r (db_nodes db) \<Longrightarrow> shrinks db db' \<Longrightarrow> ranked r (db_nodes db')"
  unfolding ranked_def
proof (intro allI impI)
  fix h n c
  assume r: "\<forall>h n c. h \<noteq> zeroHash \<and> db_nodes db h = Some n \<and> c \<in> set (childs n) \<longrightarrow>
      c \<noteq> zeroHash \<and> (db_nodes db c \<noteq> None \<longrightarrow> r c < r h)"
    and s: "shrinks db db'" and h: "h \<noteq> zeroHash \<and> db_nodes db' h = Some n \<and> c \<in> set (childs n)"
  obtain m where "db_nodes db h = Some m" "c \<in> set (childs m)" using shrinksD [OF s, of h n] h by blast
  then have "c \<noteq> zeroHash \<and> (db_nodes db c \<noteq> None \<longrightarrow> r c < r h)" using r h by blast
  moreover have "db_nodes db c \<noteq> None" if "db_nodes db' c \<noteq> None" using that shrinksD [OF s, of c] by auto
  ultimately show "c \<noteq> zeroHash \<and> (db_nodes db' c \<noteq> None \<longrightarrow> r c < r h)" by blast
qed

lemma childs_drop_child: "set (childs (drop_child c n)) \<subseteq> set (childs n)"
  by (auto simp: drop_child_def childs_def set_child_def child_count_def image_iff split: option.splits if_splits)
    (force dest: map_of_SomeD)+

lemma drop_reference_flush:
  assumes "flush_inv db hs X" "db_nodes db parent \<noteq> None"
  shows "\<exists>db'. drop_reference child parent db = Inr db' \<and> flush_inv db' hs X \<and> shrinks db db'"
proof -
  obtain p where p: "db_nodes db parent = Some p" using assms(2) by blast
  let ?db = "db\<lparr>db_nodes := (db_nodes db)(parent \<mapsto> drop_child child p)\<rparr>"
  have fl: "cn_flushPrev (drop_child child p) = cn_flushPrev p" "cn_flushNext (drop_child child p) = cn_flushNext p"
      "cn_node (drop_child child p) = cn_node p" "cn_size (drop_child child p) = cn_size p"
    by (auto simp: drop_child_def split: option.splits if_splits)
  have 1: "flush_inv ?db hs X" by (rule flush_inv_cong [OF assms(1)]) (auto simp: fl p)
  have 2: "shrinks db ?db" using childs_drop_child [of child p] by (auto simp: shrinks_def fl p)
  show ?thesis
  proof (cases "db_nodes ?db child")
    case None
    then show ?thesis using 1 2 p by (simp add: drop_reference_def Let_def)
  next
    case (Some n)
    let ?db' = "?db\<lparr>db_nodes := (db_nodes ?db)(child \<mapsto> n\<lparr>cn_parents := cn_parents n - 1\<rparr>)\<rparr>"
    have "flush_inv ?db' hs X" by (rule flush_inv_cong [OF 1]) (use Some in auto)
    moreover have "shrinks ?db ?db'" using Some by (auto simp: shrinks_def childs_def)
    ultimately show ?thesis
      using 1 2 p Some shrinks_trans by (auto simp: drop_reference_def Let_def)
  qed
qed

lemma flush_inv_mem: "flush_inv db hs X \<Longrightarrow> db_nodes db h = Some n \<Longrightarrow> h \<noteq> zeroHash \<Longrightarrow> h \<notin> X \<Longrightarrow> h \<in> set hs"
  by (auto simp: flush_inv_def)

lemma flush_inv_pending: "flush_inv db hs X \<Longrightarrow> h \<in> X \<Longrightarrow> db_nodes db h \<noteq> None"
  by (auto simp: flush_inv_def)

text \<open>Enough fuel for a node, and ranks below those of the nodes being removed.\<close>

definition below :: "(hash \<Rightarrow> nat) \<Rightarrow> nat \<Rightarrow> hash set \<Rightarrow> database \<Rightarrow> hash \<Rightarrow> bool" where
  "below r f X db h \<longleftrightarrow> h \<noteq> zeroHash \<and> (db_nodes db h \<noteq> None \<longrightarrow> Suc (r h) < f \<and> (\<forall>x \<in> X. r h < r x))"

lemma below_not_in: "below r f X db h \<Longrightarrow> db_nodes db h \<noteq> None \<Longrightarrow> h \<notin> X"
  by (auto simp: below_def)

lemma below_childs:
  assumes "ranked r (db_nodes db)" "below r (Suc f) X db h" "db_nodes db h = Some n" "c \<in> set (childs n)"
  shows "below r f (insert h X) db c"
  using assms by (fastforce simp: below_def ranked_def)

lemma below_shrinks: "below r f X db h \<Longrightarrow> shrinks db db' \<Longrightarrow> below r f X db' h"
  using shrinksD [of db db' h] by (cases "db_nodes db' h") (auto simp: below_def)

lemma dereference_flush:
  "flush_inv db hs X \<Longrightarrow> ranked r (db_nodes db) \<Longrightarrow> db_nodes db parent \<noteq> None \<Longrightarrow> 0 < f \<Longrightarrow> below r f X db child \<Longrightarrow>
    \<exists>db' hs'. dereference f child parent db = Inr db' \<and> flush_inv db' hs' X \<and> shrinks db db'"
  "flush_inv db hs X \<Longrightarrow> ranked r (db_nodes db) \<Longrightarrow> child \<in> X \<Longrightarrow> 0 < f \<Longrightarrow> \<forall>c \<in> set cs. below r f X db c \<Longrightarrow>
    \<exists>db' hs'. dereferences f cs child db = Inr db' \<and> flush_inv db' hs' X \<and> shrinks db db'"
proof (induction f child parent db and f cs child db arbitrary: hs X and hs X rule: dereference_dereferences.induct)
  case (2 f child parent db)
  obtain db1 where db1: "drop_reference child parent db = Inr db1" "flush_inv db1 hs X" "shrinks db db1"
    using drop_reference_flush [OF 2(2,4)] by blast
  have r1: "ranked r (db_nodes db1)" by (rule ranked_shrinks [OF 2(3) db1(3)])
  have b1: "below r (Suc f) X db1 child" by (rule below_shrinks [OF 2(6) db1(3)])
  show ?case
  proof (cases "db_nodes db1 child")
    case None
    then show ?thesis using db1 by auto
  next
    case node: (Some node)
    show ?thesis
    proof (cases "cn_parents node = 0")
      case False
      then show ?thesis using db1 node by auto
    next
      case True
      have nz: "child \<noteq> zeroHash" "child \<notin> X" "Suc (r child) < Suc f"
        using b1 node below_not_in [OF b1] by (auto simp: below_def)
      then have "child \<in> set hs" using flush_inv_mem [OF db1(2) node] by blast
      then obtain db2 where db2: "unlink child node db1 = Inr db2" "flush_inv db2 (remove1 child hs) (insert child X)"
          "same_bodies db1 db2"
        using unlink_flush [OF db1(2) _ node] by blast
      note sh2 = same_bodies_shrinks [OF db2(3)]
      have "\<forall>c \<in> set (childs node). below r f (insert child X) db2 c"
        using below_childs [OF r1 b1 node] below_shrinks [OF _ sh2] by blast
      then obtain db3 hs3 where db3: "dereferences f (childs node) child db2 = Inr db3"
          "flush_inv db3 hs3 (insert child X)" "shrinks db2 db3"
        using 2(1) [OF db1(1) node _ db2(1) db2(2) ranked_shrinks [OF r1 sh2]] True nz(3) by auto
      then have "dereference (Suc f) child parent db = Inr (drop_node child db3)"
        using db1(1) node True db2(1) by simp
      moreover have "flush_inv (drop_node child db3) hs3 X" using drop_node_flush db3(2) nz(2) by blast
      moreover have "shrinks db (drop_node child db3)"
        using db1(3) sh2 db3(3) drop_node_shrinks shrinks_trans by blast
      ultimately show ?thesis by blast
    qed
  qed
next
  case (5 f h hs' child db)
  have p: "db_nodes db child \<noteq> None" using flush_inv_pending [OF 5(3,5)] .
  obtain db1 hs1 where db1: "dereference (Suc f) h child db = Inr db1" "flush_inv db1 hs1 X" "shrinks db db1"
    using 5(1) [OF 5(3,4) p] 5(6,7) by auto
  have "\<forall>c \<in> set hs'. below r (Suc f) X db1 c" using 5(7) below_shrinks [OF _ db1(3)] by simp
  then obtain db2 hs2 where "dereferences (Suc f) hs' child db1 = Inr db2" "flush_inv db2 hs2 X" "shrinks db1 db2"
    using 5(2) [OF db1(1,2) ranked_shrinks [OF 5(4) db1(3)] 5(5)] by auto
  then show ?case using db1 shrinks_trans by auto
qed auto


section \<open>Persisting tries\<close>

text \<open>The cached nodes below a node.\<close>

inductive reaches :: "(hash \<Rightarrow> cachedNode option) \<Rightarrow> hash \<Rightarrow> hash \<Rightarrow> bool" for nodes where
  here: "nodes h = Some n \<Longrightarrow> reaches nodes h h"
| step: "nodes h = Some n \<Longrightarrow> c \<in> set (childs n) \<Longrightarrow> reaches nodes c k \<Longrightarrow> reaches nodes h k"

lemma reaches_dom: "reaches nodes h k \<Longrightarrow> nodes k \<noteq> None"
  by (induction rule: reaches.induct) auto

lemma reaches_unfold:
  "reaches nodes h k \<longleftrightarrow> (\<exists>n. nodes h = Some n \<and> (k = h \<or> (\<exists>c \<in> set (childs n). reaches nodes c k)))"
  by (subst reaches.simps) blast

lemma reaches_shrinks: "reaches (db_nodes db') h k \<Longrightarrow> shrinks db db' \<Longrightarrow> reaches (db_nodes db) h k"
proof (induction rule: reaches.induct)
  case (here h n)
  then show ?case using shrinksD [of db db' h n] by (auto intro: reaches.here)
next
  case (step h n c k)
  then obtain m where "db_nodes db h = Some m" "c \<in> set (childs m)" using shrinksD [of db db' h n] by blast
  then show ?case using step by (auto intro: reaches.step)
qed

definition removes :: "database \<Rightarrow> database \<Rightarrow> hash list \<Rightarrow> bool" where
  "removes db db' hs \<longleftrightarrow> (\<forall>k. db_nodes db k \<noteq> None \<and> db_nodes db' k = None \<longrightarrow> (\<exists>h \<in> set hs. reaches (db_nodes db) h k))"

lemma removes_trans:
  assumes "removes a b hs" "removes b c hs'" "shrinks a b"
  shows "removes a c (hs @ hs')"
  unfolding removes_def
proof (intro allI impI)
  fix k assume k: "db_nodes a k \<noteq> None \<and> db_nodes c k = None"
  show "\<exists>h \<in> set (hs @ hs'). reaches (db_nodes a) h k"
  proof (cases "db_nodes b k")
    case None
    then show ?thesis using k assms(1) by (auto simp: removes_def)
  next
    case (Some n)
    then obtain h where "h \<in> set hs'" "reaches (db_nodes b) h k" using k assms(2) by (auto simp: removes_def)
    then show ?thesis using reaches_shrinks [OF _ assms(3)] by auto
  qed
qed

lemma uncache_flush:
  "flush_inv db hs X \<Longrightarrow> ranked r (db_nodes db) \<Longrightarrow> 0 < f \<Longrightarrow> below r f X db h \<Longrightarrow>
    \<exists>db' hs'. uncache f h db = Inr db' \<and> flush_inv db' hs' X \<and> shrinks db db' \<and> removes db db' [h]"
  "flush_inv db hs X \<Longrightarrow> ranked r (db_nodes db) \<Longrightarrow> 0 < f \<Longrightarrow> \<forall>c \<in> set cs. below r f X db c \<Longrightarrow>
    \<exists>db' hs'. uncaches f cs db = Inr db' \<and> flush_inv db' hs' X \<and> shrinks db db' \<and> removes db db' cs"
proof (induction f h db and f cs db arbitrary: hs X and hs X rule: uncache_uncaches.induct)
  case (2 f h db)
  show ?case
  proof (cases "db_nodes db h")
    case None
    then show ?thesis using 2(2) by (auto simp: removes_def)
  next
    case node: (Some node)
    have nz: "h \<noteq> zeroHash" "h \<notin> X" "Suc (r h) < Suc f"
      using 2(5) node below_not_in [OF 2(5)] by (auto simp: below_def)
    then have "h \<in> set hs" using flush_inv_mem [OF 2(2) node] by blast
    then obtain db2 where db2: "unlink h node db = Inr db2" "flush_inv db2 (remove1 h hs) (insert h X)" "same_bodies db db2"
      using unlink_flush [OF 2(2) _ node] by blast
    note sh2 = same_bodies_shrinks [OF db2(3)]
    have "\<forall>c \<in> set (childs node). below r f (insert h X) db2 c"
      using below_childs [OF 2(3,5) node] below_shrinks [OF _ sh2] by blast
    then obtain db3 hs3 where db3: "uncaches f (childs node) db2 = Inr db3"
        "flush_inv db3 hs3 (insert h X)" "shrinks db2 db3" "removes db2 db3 (childs node)"
      using 2(1) [OF node db2(1) db2(2) ranked_shrinks [OF 2(3) sh2]] nz(3) by auto
    have "removes db (drop_node h db3) [h]"
      unfolding removes_def
    proof (intro allI impI)
      fix k assume k: "db_nodes db k \<noteq> None \<and> db_nodes (drop_node h db3) k = None"
      have "db_nodes db2 k \<noteq> None" using k db2(3) by (metis map_option_is_None same_bodies_def)
      then have "k = h \<or> (\<exists>c \<in> set (childs node). reaches (db_nodes db2) c k)"
        using k db3(4) by (auto simp: drop_node_def removes_def split: if_splits)
      then show "\<exists>h' \<in> set [h]. reaches (db_nodes db) h' k"
        using reaches_shrinks [OF _ sh2] node by (auto intro: reaches.intros)
    qed
    moreover have "uncache (Suc f) h db = Inr (drop_node h db3)" using node db2(1) db3(1) by simp
    moreover have "flush_inv (drop_node h db3) hs3 X" using drop_node_flush db3(2) nz(2) by blast
    moreover have "shrinks db (drop_node h db3)" using sh2 db3(3) drop_node_shrinks shrinks_trans by blast
    ultimately show ?thesis by blast
  qed
next
  case (5 f h hs' db)
  obtain db1 hs1 where db1: "uncache (Suc f) h db = Inr db1" "flush_inv db1 hs1 X" "shrinks db db1" "removes db db1 [h]"
    using 5(1) [OF 5(3,4)] 5(5,6) by auto
  have "\<forall>c \<in> set hs'. below r (Suc f) X db1 c" using 5(6) below_shrinks [OF _ db1(3)] by simp
  then obtain db2 hs2 where "uncaches (Suc f) hs' db1 = Inr db2" "flush_inv db2 hs2 X" "shrinks db1 db2" "removes db1 db2 hs'"
    using 5(2) [OF db1(1,2) ranked_shrinks [OF 5(4) db1(3)]] by auto
  moreover from this have "removes db db2 ([h] @ hs')" using removes_trans db1(3,4) by blast
  ultimately show ?case using db1(1,3) shrinks_trans by auto
qed (auto simp: removes_def)

end
