(* ===== verification/Trie_Persistence.thy ===== *)
theory Trie_Persistence
  imports Trie_Database
begin

text \<open>
  What the trie node database promises: persisting a trie and flushing the oldest nodes change no
  read, and the flush list stays intact under every sequence of operations.
\<close>

text \<open>What the code relies on of the disk: a batch that is written is written as a whole.\<close>

definition write_ok :: "diskWrite \<Rightarrow> bool" where
  "write_ok wr \<longleftrightarrow> (\<forall>b d d'. wr b d = Some d' \<longrightarrow> d' = mb_Write b d)"

lemma mem_write_ok: "write_ok (\<lambda>b d. Some (mb_Write b d))"
  by (simp add: write_ok_def)

lemma flush_effect: "write_ok wr \<Longrightarrow> flush wr b d = Inr (b', d') \<Longrightarrow> mb_Write b' d' = mb_Write b d"
  by (auto simp: flush_def write_ok_def split: option.splits)

lemma put_preimages_effect:
  "write_ok wr \<Longrightarrow> put_preimages wr ps b d = Inr (b', d') \<Longrightarrow>
    mb_Write b' d' = fold (\<lambda>(h, p) m. m(secureKey h \<mapsto> p)) ps (mb_Write b d)"
proof (induction wr ps b d rule: put_preimages.induct)
  case (2 wr h p ps b d)
  then obtain b1 d1 where 1: "(if mb_ValueSize (mb_Put (secureKey h) p b) > IdealBatchSize then flush wr (mb_Put (secureKey h) p b) d
      else Inr (mb_Put (secureKey h) p b, d)) = Inr (b1, d1)" "put_preimages wr ps b1 d1 = Inr (b', d')"
    by (auto simp: Let_def split: sum.splits)
  have "mb_Write b1 d1 = (mb_Write b d)(secureKey h \<mapsto> p)"
    using 1(1) flush_effect [OF 2(2)] by (auto split: if_splits)
  then show ?case using 2(1) [OF refl 1(1) refl 2(2) 1(2)] by simp
qed simp

lemma put_node_effect:
  "write_ok wr \<Longrightarrow> put_node wr h n b d = Inr (b', d') \<Longrightarrow> mb_Write b' d' = (mb_Write b d)(h \<mapsto> cachedNode_rlp n)"
  using flush_effect [of wr "mb_Put h (cachedNode_rlp n) b" d b' d'] by (auto simp: put_node_def Let_def split: if_splits)

lemma db_commit_effect:
  "write_ok wr \<Longrightarrow> db_commit wr f nodes h b d = Inr (b', d') \<Longrightarrow>
    mb_Write b' d' k = (if reaches nodes h k then Some (cachedNode_rlp (the (nodes k))) else mb_Write b d k)"
  "write_ok wr \<Longrightarrow> db_commits wr f nodes hs b d = Inr (b', d') \<Longrightarrow>
    mb_Write b' d' k = (if \<exists>h \<in> set hs. reaches nodes h k then Some (cachedNode_rlp (the (nodes k))) else mb_Write b d k)"
proof (induction wr f nodes h b d and wr f nodes hs b d arbitrary: b' d' and b' d' rule: db_commit_db_commits.induct)
  case (2 wr f nodes h b d)
  show ?case
  proof (cases "nodes h")
    case None
    then have "\<not> reaches nodes h k" by (subst reaches_unfold) simp
    then show ?thesis using 2(3) None by simp
  next
    case (Some n)
    then obtain b1 d1 where 1: "db_commits wr f nodes (childs n) b d = Inr (b1, d1)" "put_node wr h n b1 d1 = Inr (b', d')"
      using 2(3) by (auto split: sum.splits)
    have "reaches nodes h k \<longleftrightarrow> k = h \<or> (\<exists>c \<in> set (childs n). reaches nodes c k)" by (subst reaches_unfold) (simp add: Some)
    then show ?thesis
      using 2(1) [OF Some 2(2) 1(1)] put_node_effect [OF 2(2) 1(2)] Some by simp
  qed
next
  case (5 wr f nodes h hs b d)
  then obtain b1 d1 where 1: "db_commit wr (Suc f) nodes h b d = Inr (b1, d1)" "db_commits wr (Suc f) nodes hs b1 d1 = Inr (b', d')"
    by (auto split: sum.splits)
  show ?case using 5(1) [OF 5(3) 1(1)] 5(2) [OF 1(1) refl 5(3) 1(2)] by auto
qed auto

lemma flush_total: "(\<And>b d. wr b d \<noteq> None) \<Longrightarrow> \<exists>b' d'. flush wr b d = Inr (b', d')"
  by (auto simp: flush_def split: option.splits)

lemma put_preimages_total: "(\<And>b d. wr b d \<noteq> None) \<Longrightarrow> \<exists>b' d'. put_preimages wr ps b d = Inr (b', d')"
proof (induction ps arbitrary: b d)
  case (Cons a ps)
  obtain h p where a: "a = (h, p)" by fastforce
  obtain b1 d1 where "(if mb_ValueSize (mb_Put (secureKey h) p b) > IdealBatchSize then flush wr (mb_Put (secureKey h) p b) d
      else Inr (mb_Put (secureKey h) p b, d)) = Inr (b1, d1)"
    using flush_total [of wr "mb_Put (secureKey h) p b" d] Cons.prems
    by (cases "IdealBatchSize < mb_ValueSize (mb_Put (secureKey h) p b)") auto
  then show ?case using Cons.IH [of b1 d1] Cons.prems a by (simp add: Let_def)
qed simp

lemma put_node_total: "(\<And>b d. wr b d \<noteq> None) \<Longrightarrow> \<exists>b' d'. put_node wr h n b d = Inr (b', d')"
  using flush_total [of wr] by (auto simp: put_node_def Let_def)

definition fuelled :: "(hash \<Rightarrow> nat) \<Rightarrow> nat \<Rightarrow> (hash \<Rightarrow> cachedNode option) \<Rightarrow> hash \<Rightarrow> bool" where
  "fuelled r f nodes h \<longleftrightarrow> 0 < f \<and> h \<noteq> zeroHash \<and> (nodes h \<noteq> None \<longrightarrow> Suc (r h) < f)"

lemma db_commits_total:
  assumes "\<And>h b d. fuelled r f nodes h \<Longrightarrow> \<exists>b' d'. db_commit wr f nodes h b d = Inr (b', d')"
  shows "\<forall>h \<in> set hs. fuelled r f nodes h \<Longrightarrow> \<exists>b' d'. db_commits wr f nodes hs b d = Inr (b', d')"
proof (induction hs arbitrary: b d)
  case (Cons h hs)
  then obtain g where f: "f = Suc g" by (cases f) (auto simp: fuelled_def)
  obtain b1 d1 where "db_commit wr f nodes h b d = Inr (b1, d1)" using assms [of h b d] Cons.prems by auto
  moreover obtain b2 d2 where "db_commits wr f nodes hs b1 d1 = Inr (b2, d2)" using Cons.IH [of b1 d1] Cons.prems by auto
  ultimately show ?case using f by auto
qed simp

lemma db_commit_total:
  assumes w: "\<And>b d. wr b d \<noteq> None" and r: "ranked r nodes"
  shows "fuelled r f nodes h \<Longrightarrow> \<exists>b' d'. db_commit wr f nodes h b d = Inr (b', d')"
proof (induction f arbitrary: h b d)
  case (Suc f)
  show ?case
  proof (cases "nodes h")
    case (Some n)
    have "\<forall>c \<in> set (childs n). fuelled r f nodes c"
      using r Some Suc.prems by (fastforce simp: ranked_def fuelled_def)
    then obtain b1 d1 where "db_commits wr f nodes (childs n) b d = Inr (b1, d1)"
      using db_commits_total [of r f nodes wr] Suc.IH by blast
    then show ?thesis using put_node_total [of wr h n b1 d1] w Some by simp
  qed simp
qed (simp add: fuelled_def)

text \<open>Keys of cached nodes and preimages are hashes, and no preimage is stored twice.\<close>

definition keys_ok :: "database \<Rightarrow> bool" where
  "keys_ok db \<longleftrightarrow> (\<forall>h \<in> dom (db_nodes db). length h = 32) \<and> (\<forall>h \<in> fst ` set (db_preimages db). length h = 32)
     \<and> distinct (map fst (db_preimages db))"

lemma preimages_other:
  "(\<forall>h \<in> fst ` set ps. k \<noteq> secureKey h) \<Longrightarrow> fold (\<lambda>(h, p) m. m(secureKey h \<mapsto> p)) ps m k = m k"
  by (induction ps arbitrary: m) (auto split: prod.splits)

lemma secureKey_inject: "secureKey h = secureKey h' \<longleftrightarrow> h = h'"
  by (simp add: secureKey_def)

lemma preimages_written:
  "distinct (map fst ps) \<Longrightarrow>
    fold (\<lambda>(h, p) m. m(secureKey h \<mapsto> p)) ps m (secureKey h) =
      (case map_of ps h of Some p \<Rightarrow> Some p | None \<Rightarrow> m (secureKey h))"
proof (induction ps arbitrary: m)
  case (Cons a ps)
  then show ?case
    by (cases a; cases "map_of ps h") (auto simp: secureKey_inject dest!: map_of_SomeD dest: in_set_zipE split: option.splits intro: rev_image_eqI)
qed simp

lemma secureKey_length: "length (secureKey h) = 11 + length h"
  by (simp add: secureKey_def secureKeyPrefix_def)

lemma preimages_nodes: "keys_ok db \<Longrightarrow> length k = 32 \<Longrightarrow> fold (\<lambda>(h, p) m. m(secureKey h \<mapsto> p)) (db_preimages db) m k = m k"
  by (rule preimages_other) (auto simp: keys_ok_def secureKey_length dest!: arg_cong [of _ _ length])

lemma cachedNode_rlp_cong: "cn_node n = cn_node n' \<Longrightarrow> cachedNode_rlp n = cachedNode_rlp n'"
  by (simp add: cachedNode_rlp_def)

lemma commit_disk:
  assumes "put_preimages wr (db_preimages db) NewBatch (db_disk db) = Inr (b1, d1)"
    "db_commit wr f (db_nodes db) root b1 d1 = Inr (b2, d2)" "wr b2 d2 = Some d3" "write_ok wr" "keys_ok db"
  shows "length k = 32 \<Longrightarrow> d3 k = (if reaches (db_nodes db) root k then Some (cachedNode_rlp (the (db_nodes db k))) else db_disk db k)"
    and "length k = 32 \<Longrightarrow> d3 (secureKey k) = Database_preimage db k"
proof -
  have d3: "d3 = mb_Write b2 d2" using assms(3,4) by (simp add: write_ok_def)
  have d1: "mb_Write b1 d1 = fold (\<lambda>(h, p) m. m(secureKey h \<mapsto> p)) (db_preimages db) (db_disk db)"
    using put_preimages_effect [OF assms(4,1)] by simp
  note eff = db_commit_effect(1) [OF assms(4,2), folded d3]
  show "d3 k = (if reaches (db_nodes db) root k then Some (cachedNode_rlp (the (db_nodes db k))) else db_disk db k)" if "length k = 32"
    using eff [of k] d1 preimages_nodes [OF assms(5) that] by simp
  have "\<not> reaches (db_nodes db) root (secureKey k)" if "length k = 32"
  proof
    assume "reaches (db_nodes db) root (secureKey k)"
    then have "secureKey k \<in> dom (db_nodes db)" using reaches_dom by blast
    then have "length (secureKey k) = 32" using assms(5) by (simp add: keys_ok_def)
    then show False using that by (simp add: secureKey_length)
  qed
  then show "d3 (secureKey k) = Database_preimage db k" if "length k = 32"
    using eff [of "secureKey k"] d1 that preimages_written [of "db_preimages db" "db_disk db" k] assms(5)
    by (simp add: keys_ok_def Database_preimage_def)
qed

lemma node_reads:
  assumes "shrinks (db\<lparr>db_disk := d, db_preimages := [], db_preimagesSize := 0\<rparr>) db'"
    "removes (db\<lparr>db_disk := d, db_preimages := [], db_preimagesSize := 0\<rparr>) db' hs"
    "d k = (if \<exists>h \<in> set hs. reaches (db_nodes db) h k then Some (cachedNode_rlp (the (db_nodes db k))) else db_disk db k)"
  shows "Database_Node db' k = Database_Node db k"
proof (cases "db_nodes db' k")
  case (Some n')
  then obtain n where "db_nodes db k = Some n" "cn_node n' = cn_node n" using shrinksD [OF assms(1) Some] by auto
  then show ?thesis using Some cachedNode_rlp_cong [of n' n] by (simp add: Database_Node_def)
next
  case None
  have disk: "db_disk db' = d" using assms(1) by (simp add: shrinks_def)
  show ?thesis
  proof (cases "db_nodes db k")
    case n: (Some n)
    then have "\<exists>h \<in> set hs. reaches (db_nodes db) h k" using assms(2) None by (auto simp: removes_def)
    then show ?thesis using None n disk assms(3) by (simp add: Database_Node_def)
  next
    case n: None
    then have "\<not> (\<exists>h \<in> set hs. reaches (db_nodes db) h k)" using reaches_dom by blast
    then show ?thesis using None n disk assms(3) by (simp add: Database_Node_def)
  qed
qed

text \<open>
  C11: Persisting a trie. With a disk whose writes do not fail, \<open>Commit\<close> succeeds on every well-formed
  cache and leaves it well formed. Whenever it succeeds, every node of the trie that was cached is on
  disk, no read of a node or of a preimage gives a different answer than before, and no preimage is
  left in memory.
\<close>

theorem commit_persists:
  assumes "flush_inv db hs {}" "ranked r (db_nodes db)" "keys_ok db" "root \<noteq> zeroHash" "Suc (r root) < f" "write_ok wr"
  shows "((\<forall>b d. wr b d \<noteq> None) \<longrightarrow> (\<exists>db'. Database_Commit wr f root db = Inr db'))
    \<and> (\<forall>db'. Database_Commit wr f root db = Inr db' \<longrightarrow>
        (\<exists>hs'. flush_inv db' hs' {}) \<and> db_preimages db' = []
        \<and> (\<forall>k. reaches (db_nodes db) root k \<and> length k = 32 \<longrightarrow> db_disk db' k = Database_Node db k)
        \<and> (\<forall>k. length k = 32 \<longrightarrow> Database_Node db' k = Database_Node db k)
        \<and> (\<forall>k. length k = 32 \<longrightarrow> Database_preimage db' k = Database_preimage db k))"
proof -
  let ?clean = "\<lambda>d. db\<lparr>db_disk := d, db_preimages := [], db_preimagesSize := 0\<rparr>"
  have unc: "\<exists>db' hs'. uncache f root (?clean d) = Inr db' \<and> flush_inv db' hs' {} \<and> shrinks (?clean d) db' \<and> removes (?clean d) db' [root]" for d
  proof -
    have "flush_inv (?clean d) hs {}" by (rule flush_inv_cong [OF assms(1)]) simp_all
    moreover have "below r f {} (?clean d) root" using assms(4,5) by (simp add: below_def)
    ultimately show ?thesis using uncache_flush(1) [of "?clean d" hs "{}" r f root] assms(2,5) by simp
  qed
  have total: "\<exists>db'. Database_Commit wr f root db = Inr db'" if w: "\<forall>b d. wr b d \<noteq> None"
  proof -
    obtain b1 d1 where 1: "put_preimages wr (db_preimages db) NewBatch (db_disk db) = Inr (b1, d1)"
      using put_preimages_total w by metis
    obtain b2 d2 where 2: "db_commit wr f (db_nodes db) root b1 d1 = Inr (b2, d2)"
      using db_commit_total [of wr r "db_nodes db" f root b1 d1] w assms(2,4,5) by (auto simp: fuelled_def)
    obtain d3 where "wr b2 d2 = Some d3" using w by (meson not_None_eq)
    then show ?thesis using 1 2 unc [of d3] by (auto simp: Database_Commit_def)
  qed
  have ok: "(\<exists>hs'. flush_inv db' hs' {}) \<and> db_preimages db' = []
        \<and> (\<forall>k. reaches (db_nodes db) root k \<and> length k = 32 \<longrightarrow> db_disk db' k = Database_Node db k)
        \<and> (\<forall>k. length k = 32 \<longrightarrow> Database_Node db' k = Database_Node db k)
        \<and> (\<forall>k. length k = 32 \<longrightarrow> Database_preimage db' k = Database_preimage db k)"
    if c: "Database_Commit wr f root db = Inr db'" for db'
  proof -
    obtain b1 d1 b2 d2 d3 where c': "put_preimages wr (db_preimages db) NewBatch (db_disk db) = Inr (b1, d1)"
        "db_commit wr f (db_nodes db) root b1 d1 = Inr (b2, d2)" "wr b2 d2 = Some d3" "uncache f root (?clean d3) = Inr db'"
      using c by (auto simp: Database_Commit_def split: sum.splits option.splits)
    obtain hs' where u: "flush_inv db' hs' {}" "shrinks (?clean d3) db'" "removes (?clean d3) db' [root]"
      using unc [of d3] c'(4) by auto
    note dk = commit_disk [OF c'(1-3) assms(6,3)]
    have p: "db_preimages db' = []" "db_disk db' = d3" using u(2) by (simp_all add: shrinks_def)
    have "Database_Node db' k = Database_Node db k" if "length k = 32" for k
      using node_reads [OF u(2,3), of k] dk(1) [OF that] by simp
    moreover have "db_disk db' k = Database_Node db k" if "reaches (db_nodes db) root k" "length k = 32" for k
      using that dk(1) [OF that(2)] p(2) reaches_dom [OF that(1)] by (auto simp: Database_Node_def)
    moreover have "Database_preimage db' k = Database_preimage db k" if "length k = 32" for k
      using dk(2) [OF that] p by (simp add: Database_preimage_def)
    ultimately show ?thesis using u(1) p(1) by blast
  qed
  show ?thesis using total ok by blast
qed

section \<open>Flushing the oldest nodes\<close>

definition start :: "hash list \<Rightarrow> hash" where
  "start hs = (if hs = [] then zeroHash else hd hs)"

definition node_size :: "(hash \<Rightarrow> cachedNode option) \<Rightarrow> hash \<Rightarrow> int" where
  "node_size nodes h = uint (cn_size (the (nodes h)))"

definition chain :: "(hash \<Rightarrow> cachedNode option) \<Rightarrow> hash list \<Rightarrow> bool" where
  "chain nodes hs \<longleftrightarrow> distinct hs \<and> zeroHash \<notin> set hs \<and> successively (links nodes) hs \<and> (hs \<noteq> [] \<longrightarrow> ends nodes (last hs))"

lemma chain_Cons:
  assumes "chain nodes (h # hs)"
  obtains n where "nodes h = Some n" "cn_flushNext n = start hs" "chain nodes hs" "h \<notin> set hs" "h \<noteq> zeroHash"
proof -
  have c: "h \<notin> set hs" "h \<noteq> zeroHash" "chain nodes hs"
    using assms by (auto simp: chain_def successively_Cons)
  show thesis
  proof (cases hs)
    case Nil
    then obtain n where "nodes h = Some n" "cn_flushNext n = zeroHash" using assms by (auto simp: chain_def ends_def)
    then show ?thesis using that [of n] c Nil by (simp add: start_def)
  next
    case (Cons h' hs')
    then obtain n where "nodes h = Some n" "cn_flushNext n = h'" using assms by (auto simp: chain_def links_def)
    then show ?thesis using that [of n] c Cons by (simp add: start_def)
  qed
qed

lemma cap_write_chain:
  assumes "chain nodes hs" "write_ok wr"
  shows "\<exists>as bs r. hs = as @ bs \<and> cap_write wr limit nodes sz (start hs) b d = Some r
    \<and> (case r of Inl e \<Rightarrow> e = WriteErr \<and> (\<exists>b d. wr b d = None)
       | Inr (oldest, b', d') \<Rightarrow> oldest = start bs
           \<and> (sz - (\<Sum>h \<leftarrow> as. 96 + node_size nodes h) \<le> limit \<or> bs = [])
           \<and> (\<forall>k. mb_Write b' d' k = (if k \<in> set as then Some (cachedNode_rlp (the (nodes k))) else mb_Write b d k)))"
  using assms(1)
proof (induction hs arbitrary: sz b d)
  case Nil
  have "cap_write wr limit nodes sz (start []) b d = Some (Inr (zeroHash, b, d))"
    by (subst cap_write.simps) (simp add: start_def)
  then show ?case by (intro exI [of _ "[]"]) (simp add: start_def)
next
  case (Cons h hs)
  obtain n where n: "nodes h = Some n" "cn_flushNext n = start hs" "chain nodes hs" "h \<notin> set hs" "h \<noteq> zeroHash"
    using chain_Cons [OF Cons.prems] .
  have st: "start (h # hs) = h" by (simp add: start_def)
  show ?case
  proof (cases "sz > limit")
    case False
    then have "cap_write wr limit nodes sz (start (h # hs)) b d = Some (Inr (start (h # hs), b, d))"
      by (subst cap_write.simps) simp
    then show ?thesis using False by (intro exI [of _ "[]"] exI [of _ "h # hs"]) simp
  next
    case True
    show ?thesis
    proof (cases "put_node wr h n b d")
      case (Inl e)
      then have "e = WriteErr \<and> (\<exists>b d. wr b d = None)"
        by (auto simp: put_node_def flush_def Let_def split: if_splits option.splits)
      moreover have "cap_write wr limit nodes sz (start (h # hs)) b d = Some (Inl e)"
        unfolding st using True n Inl by (subst cap_write.simps) simp
      ultimately show ?thesis by (intro exI [of _ "[]"] exI [of _ "h # hs"]) simp
    next
      case (Inr bd)
      obtain b1 d1 where bd: "bd = (b1, d1)" by fastforce
      let ?sz = "sz - (96 + node_size nodes h)"
      have step: "cap_write wr limit nodes sz (start (h # hs)) b d = cap_write wr limit nodes ?sz (start hs) b1 d1"
        unfolding st using True n Inr bd by (subst cap_write.simps) (simp add: node_size_def)
      have w: "mb_Write b1 d1 = (mb_Write b d)(h \<mapsto> cachedNode_rlp n)"
        using put_node_effect [OF assms(2), of h n b d b1 d1] Inr bd by simp
      obtain as bs r where ih: "hs = as @ bs" "cap_write wr limit nodes ?sz (start hs) b1 d1 = Some r"
        "case r of Inl e \<Rightarrow> e = WriteErr \<and> (\<exists>b d. wr b d = None)
         | Inr (oldest, b', d') \<Rightarrow> oldest = start bs
           \<and> (?sz - (\<Sum>h \<leftarrow> as. 96 + node_size nodes h) \<le> limit \<or> bs = [])
           \<and> (\<forall>k. mb_Write b' d' k = (if k \<in> set as then Some (cachedNode_rlp (the (nodes k))) else mb_Write b1 d1 k))"
        using Cons.IH [OF n(3)] by blast
      have "case r of Inl e \<Rightarrow> e = WriteErr \<and> (\<exists>b d. wr b d = None)
         | Inr (oldest, b', d') \<Rightarrow> oldest = start bs
           \<and> (sz - (\<Sum>h \<leftarrow> h # as. 96 + node_size nodes h) \<le> limit \<or> bs = [])
           \<and> (\<forall>k. mb_Write b' d' k = (if k \<in> set (h # as) then Some (cachedNode_rlp (the (nodes k))) else mb_Write b d k))"
        using ih(1,3) w n(1,4) by (auto split: sum.splits prod.splits)
      then show ?thesis using ih(1,2) step by (intro exI [of _ "h # as"] exI [of _ bs] exI [of _ r]) simp
    qed
  qed
qed

lemma chain_cong: "(\<And>h. h \<in> set hs \<Longrightarrow> nodes' h = nodes h) \<Longrightarrow> chain nodes' hs = chain nodes hs"
proof -
  assume e: "\<And>h. h \<in> set hs \<Longrightarrow> nodes' h = nodes h"
  then have "successively (links nodes') hs = successively (links nodes) hs"
    by (intro successively_cong) (auto simp: links_def)
  moreover have "ends nodes' (last hs) = ends nodes (last hs)" if "hs \<noteq> []"
    using e last_in_set [OF that] by (simp add: ends_def)
  ultimately show "chain nodes' hs = chain nodes hs" by (auto simp: chain_def)
qed

lemma cap_drop_chain:
  assumes "chain (db_nodes db) (as @ bs)" "db_oldest db = start (as @ bs)"
  shows "\<exists>db'. cap_drop (start bs) db = Some (Inr db')
    \<and> db_nodes db' = (\<lambda>k. if k \<in> set as then None else db_nodes db k)
    \<and> db_oldest db' = start bs \<and> db_newest db' = db_newest db \<and> db_disk db' = db_disk db
    \<and> db_preimages db' = db_preimages db \<and> db_preimagesSize db' = db_preimagesSize db
    \<and> db_nodesSize db' = db_nodesSize db - (\<Sum>h \<leftarrow> as. 32 + node_size (db_nodes db) h)"
  using assms
proof (induction as arbitrary: db)
  case Nil
  then have "cap_drop (start bs) db = Some (Inr db)" by (subst cap_drop.simps) simp
  then show ?case using Nil by (auto simp: fun_eq_iff)
next
  case (Cons h as)
  obtain n where n: "db_nodes db h = Some n" "cn_flushNext n = start (as @ bs)" "chain (db_nodes db) (as @ bs)"
      "h \<notin> set (as @ bs)" "h \<noteq> zeroHash"
    using chain_Cons [of "db_nodes db" h "as @ bs"] Cons.prems(1) by auto
  define D where "D = db\<lparr>db_nodes := (db_nodes db)(h := None), db_oldest := start (as @ bs), db_nodesSize := db_nodesSize db - (32 + uint (cn_size n))\<rparr>"
  have old: "db_oldest db = h" "h \<noteq> start bs" using Cons.prems(2) n(4,5) by (auto simp: start_def)
  have step: "cap_drop (start bs) db = cap_drop (start bs) D"
    using old n(1,2) by (subst cap_drop.simps) (simp add: D_def)
  have sel: "db_nodes D = (db_nodes db)(h := None)" "db_oldest D = start (as @ bs)" "db_newest D = db_newest db" "db_disk D = db_disk db"
      "db_preimages D = db_preimages db" "db_preimagesSize D = db_preimagesSize db"
      "db_nodesSize D = db_nodesSize db - (32 + node_size (db_nodes db) h)"
    by (simp_all add: D_def node_size_def n(1))
  have "chain (db_nodes D) (as @ bs)" unfolding sel using n(3,4) by (subst chain_cong [of _ _ "db_nodes db"]) auto
  then obtain db' where db': "cap_drop (start bs) D = Some (Inr db')"
      "db_nodes db' = (\<lambda>k. if k \<in> set as then None else db_nodes D k)"
      "db_oldest db' = start bs" "db_newest db' = db_newest D" "db_disk db' = db_disk D"
      "db_preimages db' = db_preimages D" "db_preimagesSize db' = db_preimagesSize D"
      "db_nodesSize db' = db_nodesSize D - (\<Sum>h \<leftarrow> as. 32 + node_size (db_nodes D) h)"
    using Cons.IH [of D] sel(2) by blast
  have "(\<Sum>k \<leftarrow> as. 32 + node_size (db_nodes D) k) = (\<Sum>k \<leftarrow> as. 32 + node_size (db_nodes db) k)"
    using n(4) by (intro arg_cong [of _ _ sum_list] map_cong) (auto simp: node_size_def sel)
  moreover have "db_nodes db' = (\<lambda>k. if k \<in> set (h # as) then None else db_nodes db k)"
    using db'(2) sel(1) by (auto simp: fun_eq_iff)
  ultimately show ?case using step db' sel by (intro exI [of _ db']) simp
qed

lemma flush_chain: "flush_inv db hs {} \<Longrightarrow> chain (db_nodes db) hs \<and> db_oldest db = start hs"
  by (auto simp: flush_inv_def chain_def start_def)

text \<open>Removing the nodes before the one that becomes the oldest.\<close>

lemma cap_drop_flush:
  assumes "flush_inv db (as @ bs) {}"
  shows "\<exists>db'. cap_drop (start bs) db = Some (Inr db') \<and> flush_inv db' bs {} \<and> db_disk db' = db_disk db
    \<and> db_preimages db' = db_preimages db
    \<and> db_nodes db' = (\<lambda>k. if k \<in> set as then None else db_nodes db k)
    \<and> fst (Database_Size db') = fst (Database_Size db) - (\<Sum>h \<leftarrow> as. 96 + node_size (db_nodes db) h)"
proof -
  note c = flush_chain [OF assms]
  obtain db' where d: "cap_drop (start bs) db = Some (Inr db')"
    "db_nodes db' = (\<lambda>k. if k \<in> set as then None else db_nodes db k)"
    "db_oldest db' = start bs" "db_newest db' = db_newest db" "db_disk db' = db_disk db"
    "db_preimages db' = db_preimages db"
    "db_nodesSize db' = db_nodesSize db - (\<Sum>h \<leftarrow> as. 32 + node_size (db_nodes db) h)"
    using cap_drop_chain [of db as bs] c by blast
  have dis: "distinct (as @ bs)" "zeroHash \<notin> set (as @ bs)" "dom (db_nodes db) = insert zeroHash (set (as @ bs))"
    using assms by (simp_all add: flush_inv_def)
  have dom: "dom (db_nodes db') = insert zeroHash (set bs)"
    using dis by (auto simp: d(2) dom_def split: if_splits)
  have "chain (db_nodes db') bs"
  proof -
    have "chain (db_nodes db) bs" using c by (auto simp: chain_def successively_append_iff)
    then show ?thesis using dis(1) by (subst chain_cong [of _ _ "db_nodes db"]) (auto simp: d(2))
  qed
  moreover have "bs \<noteq> [] \<Longrightarrow> db_newest db' = last bs" using assms d(4) by (simp add: flush_inv_def)
  ultimately have inv: "flush_inv db' bs {}"
    using dis dom d(3) by (auto simp: flush_inv_def chain_def start_def)
  have "card (dom (db_nodes db)) = Suc (length as + length bs)" "card (dom (db_nodes db')) = Suc (length bs)"
    using dis by (simp_all add: dom distinct_card card_Un_disjoint)
  moreover have "(\<Sum>h \<leftarrow> as. 96 + node_size (db_nodes db) h) = (\<Sum>h \<leftarrow> as. 32 + node_size (db_nodes db) h) + 64 * int (length as)"
    by (induction as) simp_all
  ultimately have "fst (Database_Size db') = fst (Database_Size db) - (\<Sum>h \<leftarrow> as. 96 + node_size (db_nodes db) h)"
    by (simp add: Database_Size_def d(7))
  then show ?thesis using d inv by blast
qed

lemma put_preimages_error: "put_preimages wr ps b d = Inl e \<Longrightarrow> e = WriteErr \<and> (\<exists>b d. wr b d = None)"
  by (induction wr ps b d rule: put_preimages.induct)
    (auto simp: Let_def flush_def split: if_splits sum.splits option.splits)

lemma set_prev_flush:
  assumes "flush_inv db hs X" "hs \<noteq> []"
  shows "\<exists>db'. set_prev (hd hs) v db = Inr db' \<and> flush_inv db' hs X \<and> same_bodies db db'"
proof -
  let ?h = "hd hs"
  obtain n where n: "db_nodes db ?h = Some n" using assms by (cases hs) (auto simp: flush_inv_def)
  let ?db = "db\<lparr>db_nodes := (db_nodes db)(?h \<mapsto> n\<lparr>cn_flushPrev := v\<rparr>)\<rparr>"
  have "?h \<notin> set (tl hs)" using assms by (cases hs) (auto simp: flush_inv_def)
  then have "flush_inv ?db hs X"
    using assms n links_prev [of "db_nodes db" ?h n hs v] ends_prev [of "db_nodes db" ?h n v "last hs"] by (auto simp: flush_inv_def)
  moreover have "same_bodies db ?db" using n by (auto simp: same_bodies_def node_body_def)
  ultimately show ?thesis using n by (simp add: set_prev_def)
qed

lemma same_bodies_reads:
  assumes "same_bodies db db'"
  shows "Database_Node db' k = Database_Node db k" "Database_preimage db' k = Database_preimage db k"
    "Database_Size db' = Database_Size db"
proof -
  have s: "map_option node_body (db_nodes db' k) = map_option node_body (db_nodes db k)" for k
    using assms by (simp add: same_bodies_def)
  have disk: "db_disk db' = db_disk db" using assms by (simp add: same_bodies_def)
  show "Database_Node db' k = Database_Node db k"
  proof (cases "db_nodes db k")
    case (Some n)
    then obtain n' where n': "db_nodes db' k = Some n'" "node_body n' = node_body n" using s [of k] by auto
    then have "cachedNode_rlp n' = cachedNode_rlp n" using cachedNode_rlp_cong [of n' n] by (simp add: node_body_def)
    then show ?thesis using Some n' by (simp add: Database_Node_def)
  qed (use s [of k] disk in \<open>simp add: Database_Node_def\<close>)
  have "db_nodes db' k = None \<longleftrightarrow> db_nodes db k = None" for k using s [of k] by (cases "db_nodes db k") auto
  then have "dom (db_nodes db') = dom (db_nodes db)" by (simp add: dom_def)
  then show "Database_Size db' = Database_Size db" using assms by (simp add: Database_Size_def same_bodies_def)
  show "Database_preimage db' k = Database_preimage db k" using assms by (simp add: Database_preimage_def same_bodies_def split: option.splits)
qed

text \<open>The second half of \<open>Cap\<close>, after the nodes \<open>as\<close> have been written.\<close>

lemma cap_drop_finish:
  assumes "flush_inv db (as @ bs) {}"
  shows "\<exists>db1 db'. cap_drop (start bs) db = Some (Inr db1)
    \<and> (if db_oldest db1 \<noteq> zeroHash then set_prev (db_oldest db1) zeroHash db1 else Inr db1) = Inr db'
    \<and> flush_inv db' bs {} \<and> db_disk db' = db_disk db \<and> db_preimages db' = db_preimages db
    \<and> (\<forall>k. Database_Node db' k = (if k \<in> set as then db_disk db k else Database_Node db k)) \<and> shrinks db db'
    \<and> fst (Database_Size db') = fst (Database_Size db) - (\<Sum>h \<leftarrow> as. 96 + node_size (db_nodes db) h)"
proof -
  obtain db1 where d: "cap_drop (start bs) db = Some (Inr db1)" "flush_inv db1 bs {}" "db_disk db1 = db_disk db"
    "db_preimages db1 = db_preimages db" "db_nodes db1 = (\<lambda>k. if k \<in> set as then None else db_nodes db k)"
    "fst (Database_Size db1) = fst (Database_Size db) - (\<Sum>h \<leftarrow> as. 96 + node_size (db_nodes db) h)"
    using cap_drop_flush [OF assms] by blast
  have o1: "db_oldest db1 = start bs" "zeroHash \<notin> set bs" using flush_chain [OF d(2)] d(2) by (auto simp: flush_inv_def)
  obtain db' where d': "(if db_oldest db1 \<noteq> zeroHash then set_prev (db_oldest db1) zeroHash db1 else Inr db1) = Inr db'"
    "flush_inv db' bs {}" "same_bodies db1 db'"
  proof (cases "bs = []")
    case True
    then show ?thesis using that [of db1] d(2) o1(1) by (simp add: start_def same_bodies_def)
  next
    case False
    then have "db_oldest db1 = hd bs" "hd bs \<noteq> zeroHash" using o1 hd_in_set [OF False] by (simp add: start_def, metis)
    then show ?thesis using set_prev_flush [OF d(2) False, of zeroHash] that by auto
  qed
  have "Database_Node db1 k = (if k \<in> set as then db_disk db k else Database_Node db k)" for k
    by (simp add: Database_Node_def d(3,5) split: option.splits)
  moreover have "shrinks db db1" using d(3-5) by (auto simp: shrinks_def split: if_splits)
  moreover have "db_disk db' = db_disk db" "db_preimages db' = db_preimages db" using d'(3) d(3,4) by (simp_all add: same_bodies_def)
  ultimately show ?thesis
    using d(1,6) d'(1,2) same_bodies_reads [OF d'(3)] shrinks_trans [OF _ same_bodies_shrinks [OF d'(3)], of db]
    by (intro exI [of _ db1] exI [of _ db']) simp
qed

text \<open>What the batch of preimages writes.\<close>

lemma preimages_phase:
  assumes "(if p then put_preimages wr (db_preimages db) NewBatch (db_disk db) else Inr (NewBatch, db_disk db)) = Inr (b, d)"
    "write_ok wr" "keys_ok db"
  shows "length k = 32 \<Longrightarrow> mb_Write b d k = db_disk db k"
    "length k = 32 \<Longrightarrow> mb_Write b d (secureKey k) = (if p then Database_preimage db k else db_disk db (secureKey k))"
proof -
  have e: "mb_Write b d = (if p then fold (\<lambda>(h, q) m. m(secureKey h \<mapsto> q)) (db_preimages db) (db_disk db) else db_disk db)"
    using assms(1) put_preimages_effect [OF assms(2), of "db_preimages db" NewBatch "db_disk db" b d] by (auto split: if_splits)
  show "mb_Write b d k = db_disk db k" if "length k = 32"
    using preimages_nodes [OF assms(3) that] by (simp add: e)
  show "mb_Write b d (secureKey k) = (if p then Database_preimage db k else db_disk db (secureKey k))" if "length k = 32"
    using assms(3) preimages_written [of "db_preimages db" "db_disk db" k] by (simp add: e keys_ok_def Database_preimage_def)
qed

text \<open>Dropping nodes that were written changes no read.\<close>

lemma cap_drop_reads:
  assumes inv: "flush_inv db (as @ bs) {}" and keys: "keys_ok db"
    and m: "\<And>k. length k = 32 \<Longrightarrow> m k = db_disk db k"
      "\<And>k. length k = 32 \<Longrightarrow> m (secureKey k) = (if p then Database_preimage db k else db_disk db (secureKey k))"
    and d: "\<And>k. d k = (if k \<in> set as then Some (cachedNode_rlp (the (db_nodes db k))) else m k)"
    and D: "D = db\<lparr>db_disk := d, db_preimages := (if p then [] else db_preimages db), db_preimagesSize := z\<rparr>"
  shows "\<exists>db1 db'. cap_drop (start bs) D = Some (Inr db1)
    \<and> (if db_oldest db1 \<noteq> zeroHash then set_prev (db_oldest db1) zeroHash db1 else Inr db1) = Inr db'
    \<and> flush_inv db' bs {} \<and> shrinks D db'
    \<and> fst (Database_Size db') = fst (Database_Size db) - (\<Sum>h \<leftarrow> as. 96 + node_size (db_nodes db) h)
    \<and> (\<forall>k. length k = 32 \<longrightarrow> Database_Node db' k = Database_Node db k \<and> Database_preimage db' k = Database_preimage db k)"
proof -
  have "flush_inv D (as @ bs) {}" unfolding D by (rule flush_inv_cong [OF inv]) simp_all
  then obtain db1 db' where f: "cap_drop (start bs) D = Some (Inr db1)"
    "(if db_oldest db1 \<noteq> zeroHash then set_prev (db_oldest db1) zeroHash db1 else Inr db1) = Inr db'"
    "flush_inv db' bs {}" "db_disk db' = db_disk D" "db_preimages db' = db_preimages D"
    "\<forall>k. Database_Node db' k = (if k \<in> set as then db_disk D k else Database_Node D k)" "shrinks D db'"
    "fst (Database_Size db') = fst (Database_Size D) - (\<Sum>h \<leftarrow> as. 96 + node_size (db_nodes D) h)"
    using cap_drop_finish by blast
  have as: "length k = 32" "\<exists>n. db_nodes db k = Some n" if "k \<in> set as" for k
    using that inv keys by (auto simp: flush_inv_def keys_ok_def)
  have "Database_Node db' k = Database_Node db k" if "length k = 32" for k
    using f(6) as(2) [of k] m(1) [OF that] by (cases "db_nodes db k") (auto simp: D d Database_Node_def)
  moreover have "Database_preimage db' k = Database_preimage db k" if "length k = 32" for k
  proof -
    have "secureKey k \<notin> set as" using as(1) [of "secureKey k"] that by (auto simp: secureKey_length)
    then show ?thesis using m(2) [OF that] by (auto simp: Database_preimage_def f(4,5) D d split: option.splits)
  qed
  moreover have "fst (Database_Size D) = fst (Database_Size db)" "db_nodes D = db_nodes db" by (simp_all add: D Database_Size_def)
  ultimately show ?thesis using f by metis
qed

text \<open>As \<open>shrinks\<close>, but the disk may differ and the preimages may be gone.\<close>

definition cuts :: "database \<Rightarrow> database \<Rightarrow> bool" where
  "cuts db db' \<longleftrightarrow> (db_preimages db' = db_preimages db \<or> db_preimages db' = [])
     \<and> (\<forall>h n'. db_nodes db' h = Some n' \<longrightarrow> (\<exists>n. db_nodes db h = Some n \<and> set (childs n') \<subseteq> set (childs n)))"

lemma Cap_written:
  assumes inv: "flush_inv db (as @ bs) {}" and keys: "keys_ok db" and w: "write_ok wr"
    and pre: "(if db_preimagesSize db > 4 * 1024 * 1024 then put_preimages wr (db_preimages db) NewBatch (db_disk db)
      else Inr (NewBatch, db_disk db)) = Inr (b, d)"
    and cw: "cap_write wr limit (db_nodes db) (fst (Database_Size db)) (db_oldest db) b d = Some (Inr (start bs, b2, d2))"
    and b2: "\<And>k. mb_Write b2 d2 k = (if k \<in> set as then Some (cachedNode_rlp (the (db_nodes db k))) else mb_Write b d k)"
    and d3: "wr b2 d2 = Some d3"
  shows "\<exists>db'. Cap wr limit db = Some (Inr db') \<and> flush_inv db' bs {}
    \<and> fst (Database_Size db') = fst (Database_Size db) - (\<Sum>h \<leftarrow> as. 96 + node_size (db_nodes db) h)
    \<and> cuts db db'
    \<and> (\<forall>k. length k = 32 \<longrightarrow> Database_Node db' k = Database_Node db k \<and> Database_preimage db' k = Database_preimage db k)"
proof -
  define p where "p = (db_preimagesSize db > 4 * 1024 * 1024)"
  define z where "z = (if p then 0 else db_preimagesSize db)"
  define D where "D = db\<lparr>db_disk := d3, db_preimages := (if p then [] else db_preimages db), db_preimagesSize := z\<rparr>"
  note pre' = pre [folded p_def]
  have x: "d3 k = (if k \<in> set as then Some (cachedNode_rlp (the (db_nodes db k))) else mb_Write b d k)" for k
    using d3 w b2 [of k] by (simp add: write_ok_def)
  obtain db1 db' where f: "cap_drop (start bs) D = Some (Inr db1)"
      "(if db_oldest db1 \<noteq> zeroHash then set_prev (db_oldest db1) zeroHash db1 else Inr db1) = Inr db'"
      "flush_inv db' bs {}" "shrinks D db'"
      "fst (Database_Size db') = fst (Database_Size db) - (\<Sum>h \<leftarrow> as. 96 + node_size (db_nodes db) h)"
      "\<forall>k. length k = 32 \<longrightarrow> Database_Node db' k = Database_Node db k \<and> Database_preimage db' k = Database_preimage db k"
    using cap_drop_reads [OF inv keys preimages_phase(1) [OF pre' w keys] preimages_phase(2) [OF pre' w keys] x D_def] by blast
  have D: "(if p then db\<lparr>db_disk := d3, db_preimages := [], db_preimagesSize := 0\<rparr> else db\<lparr>db_disk := d3\<rparr>) = D"
    by (simp add: D_def z_def)
  have "Cap wr limit db = Some (Inr db')"
    unfolding Cap_def Let_def p_def [symmetric] using f(1,2) by (simp add: pre' cw d3 D)
  moreover have "cuts db db'"
    using f(4) by (simp add: cuts_def shrinks_def D_def) metis
  ultimately show ?thesis using f(3,5,6) by blast
qed

lemma Cap_effect:
  assumes inv: "flush_inv db hs {}" and keys: "keys_ok db" and w: "write_ok wr"
  shows "\<exists>r. Cap wr limit db = Some r \<and> (case r of
      Inl e \<Rightarrow> e = WriteErr \<and> (\<exists>b d. wr b d = None)
    | Inr db' \<Rightarrow> (\<exists>as bs. hs = as @ bs \<and> flush_inv db' bs {} \<and> (fst (Database_Size db') \<le> limit \<or> bs = []))
        \<and> cuts db db'
        \<and> (\<forall>k. length k = 32 \<longrightarrow> Database_Node db' k = Database_Node db k \<and> Database_preimage db' k = Database_preimage db k))"
proof -
  let ?p = "db_preimagesSize db > 4 * 1024 * 1024" and ?sz = "fst (Database_Size db)"
  let ?pre = "if ?p then put_preimages wr (db_preimages db) NewBatch (db_disk db) else Inr (NewBatch, db_disk db)"
  note ch = flush_chain [OF inv]
  show ?thesis
  proof (cases ?pre)
    case (Inl e)
    then have "Cap wr limit db = Some (Inl e)" by (simp add: Cap_def Let_def)
    then show ?thesis using Inl put_preimages_error [of wr] by (force split: if_splits)
  next
    case pre: (Inr bd)
    obtain b d where bd: "bd = (b, d)" by fastforce
    obtain as bs r where cw: "hs = as @ bs" "cap_write wr limit (db_nodes db) ?sz (start hs) b d = Some r"
      "case r of Inl e \<Rightarrow> e = WriteErr \<and> (\<exists>b d. wr b d = None)
       | Inr (oldest, b', d') \<Rightarrow> oldest = start bs
           \<and> (?sz - (\<Sum>h \<leftarrow> as. 96 + node_size (db_nodes db) h) \<le> limit \<or> bs = [])
           \<and> (\<forall>k. mb_Write b' d' k = (if k \<in> set as then Some (cachedNode_rlp (the (db_nodes db k))) else mb_Write b d k))"
      using cap_write_chain [OF conjunct1 [OF ch] w, of limit ?sz b d] by blast
    show ?thesis
    proof (cases r)
      case (Inl e)
      then have "Cap wr limit db = Some (Inl e)" using pre bd cw(2) ch by (simp add: Cap_def Let_def)
      then show ?thesis using Inl cw(3) by simp
    next
      case (Inr obd)
      obtain oldest b2 d2 where obd: "obd = (oldest, b2, d2)" by (cases obd)
      have r: "oldest = start bs" "?sz - (\<Sum>h \<leftarrow> as. 96 + node_size (db_nodes db) h) \<le> limit \<or> bs = []"
        "\<And>k. mb_Write b2 d2 k = (if k \<in> set as then Some (cachedNode_rlp (the (db_nodes db k))) else mb_Write b d k)"
        using cw(3) Inr obd by auto
      show ?thesis
      proof (cases "wr b2 d2")
        case None
        then have "Cap wr limit db = Some (Inl WriteErr)" using pre bd cw(2) ch Inr obd by (simp add: Cap_def Let_def)
        then show ?thesis using None by auto
      next
        case (Some d3)
        note fin = Cap_written [OF inv [unfolded cw(1)] keys w pre [unfolded bd] _ r(3) Some]
        obtain db' where "Cap wr limit db = Some (Inr db')" "flush_inv db' bs {}" "cuts db db'"
            "fst (Database_Size db') = ?sz - (\<Sum>h \<leftarrow> as. 96 + node_size (db_nodes db) h)"
            "\<forall>k. length k = 32 \<longrightarrow> Database_Node db' k = Database_Node db k \<and> Database_preimage db' k = Database_preimage db k"
          using fin [of limit] cw(1,2) ch Inr obd r(1) by auto
        then show ?thesis using cw(1) r(2) by (intro exI [of _ "Inr db'"]) auto
      qed
    qed
  qed
qed

section \<open>The database as a state machine\<close>

text \<open>Adding references changes no link.\<close>

definition body_links :: "cachedNode \<Rightarrow> rawnode \<times> uint16 \<times> (hash \<times> uint16) list \<times> hash \<times> hash" where
  "body_links n = (cn_node n, cn_size n, cn_children n, cn_flushPrev n, cn_flushNext n)"

lemma add_parent_links:
  "map_option body_links (add_parent c nodes h) = map_option body_links (nodes h)"
  by (auto simp: add_parent_def body_links_def split: option.splits)

lemma add_parents_links:
  "map_option body_links (fold add_parent cs nodes h) = map_option body_links (nodes h)"
  by (induction cs arbitrary: nodes) (simp_all add: add_parent_links)

lemma add_parents_Some:
  "fold add_parent cs nodes h = Some n \<Longrightarrow> \<exists>m. nodes h = Some m \<and> body_links n = body_links m"
  using add_parents_links [of cs nodes h] by (cases "nodes h") auto

lemma add_parents_None: "fold add_parent cs nodes h = None \<longleftrightarrow> nodes h = None"
  using add_parents_links [of cs nodes h] by (metis map_option_is_None)

lemma flush_inv_nodes:
  assumes "flush_inv db hs X" "\<And>h. map_option body_links (nodes h) = map_option body_links (db_nodes db h)"
  shows "flush_inv (db\<lparr>db_nodes := nodes\<rparr>) hs X"
proof (rule flush_inv_cong [OF assms(1)])
  fix h
  show "map_option (\<lambda>n. (cn_flushPrev n, cn_flushNext n)) (db_nodes (db\<lparr>db_nodes := nodes\<rparr>) h) =
      map_option (\<lambda>n. (cn_flushPrev n, cn_flushNext n)) (db_nodes db h)"
    using assms(2) [of h] by (cases "nodes h"; cases "db_nodes db h") (auto simp: body_links_def)
qed simp_all

lemma insert_new:
  assumes "db_nodes db h = None"
    "e = newCachedNode\<lparr>cn_node := n, cn_size := word_of_nat (length blob), cn_flushPrev := db_newest db\<rparr>"
    "N = fold add_parent (childs e) (db_nodes db)"
  shows "db_nodes (db_insert_raw h blob n db) = (if db_oldest db = zeroHash then N(h \<mapsto> e)
      else case (N(h \<mapsto> e)) (db_newest db) of None \<Rightarrow> N(h \<mapsto> e) | Some c \<Rightarrow> N(h \<mapsto> e, db_newest db \<mapsto> c\<lparr>cn_flushNext := h\<rparr>))"
    "db_oldest (db_insert_raw h blob n db) = (if db_oldest db = zeroHash then h else db_oldest db)"
    "db_newest (db_insert_raw h blob n db) = h"
  unfolding assms(2,3) using assms(1) by (simp_all add: db_insert_raw_def Let_def)

lemma insert_flush:
  assumes "flush_inv db hs {}" "h \<noteq> zeroHash" "db_nodes db h = None"
  shows "flush_inv (db_insert_raw h blob n db) (hs @ [h]) {}"
proof -
  define e where "e = newCachedNode\<lparr>cn_node := n, cn_size := word_of_nat (length blob), cn_flushPrev := db_newest db\<rparr>"
  define N where "N = fold add_parent (childs e) (db_nodes db)"
  have f: "flush_inv (db\<lparr>db_nodes := N\<rparr>) hs {}"
    unfolding N_def by (rule flush_inv_nodes [OF assms(1)]) (rule add_parents_links)
  have h: "N h = None" "h \<notin> set hs" using assms(1,3) by (auto simp: N_def add_parents_None flush_inv_def)
  have e: "cn_flushNext e = zeroHash" "cn_flushPrev e = db_newest db" by (simp_all add: e_def newCachedNode_def)
  show ?thesis
  proof (cases "hs = []")
    case True
    then show ?thesis using f h e assms
      by (simp add: flush_inv_def insert_new [OF assms(3) e_def N_def] ends_def insert_commute)
  next
    case False
    let ?l = "last hs"
    have "hd hs \<noteq> zeroHash" using f hd_in_set [OF False] unfolding flush_inv_def by metis
    then have l: "db_newest db = ?l" "db_oldest db = hd hs" "hd hs \<noteq> zeroHash" "?l \<noteq> h" "?l \<in> set hs"
      using f False h(2) last_in_set [OF False] by (auto simp: flush_inv_def)
    obtain c where c: "N ?l = Some c" using f l(5) by (auto simp: flush_inv_def)
    let ?N = "N(h \<mapsto> e, ?l \<mapsto> c\<lparr>cn_flushNext := h\<rparr>)"
    have "?l \<notin> set (butlast hs)"
      using f by (cases hs rule: rev_cases) (auto simp: flush_inv_def)
    moreover have "successively (links (N(h \<mapsto> e))) hs"
    proof (rule successively_mono)
      show "successively (links N) hs" using f by (simp add: flush_inv_def)
      show "links (N(h \<mapsto> e)) x y" if "x \<in> set hs" "y \<in> set hs" "links N x y" for x y
        using that h(2) by (auto simp: links_def)
    qed
    ultimately have "successively (links ?N) hs" using links_next [of "N(h \<mapsto> e)" ?l c hs h] c l(4) by simp
    moreover have "links ?N ?l h" using l(1,4) e by (simp add: links_def)
    ultimately have "successively (links ?N) (hs @ [h])" using False by (simp add: successively_append_iff)
    moreover have "ends ?N h" using e(1) l(4) by (simp add: ends_def)
    moreover have "dom ?N = insert zeroHash (set (hs @ [h]))" using f l(5) by (auto simp: flush_inv_def)
    moreover have "db_nodes (db_insert_raw h blob n db) = ?N" "db_oldest (db_insert_raw h blob n db) = hd hs"
        "db_newest (db_insert_raw h blob n db) = h"
      using l c by (simp_all add: insert_new [OF assms(3) e_def N_def])
    ultimately show ?thesis using f h(2) assms(2) False by (simp add: flush_inv_def)
  qed
qed

text \<open>A rank on hashes: the children of a node come before it.\<close>

definition layered :: "(hash \<Rightarrow> nat) \<Rightarrow> (hash \<Rightarrow> cachedNode option) \<Rightarrow> bool" where
  "layered r nodes \<longleftrightarrow> (\<forall>h n c. h \<noteq> zeroHash \<and> nodes h = Some n \<and> c \<in> set (childs n) \<longrightarrow> c \<noteq> zeroHash \<and> r c < r h)"

lemma layered_ranked: "layered r nodes \<Longrightarrow> ranked r nodes"
  unfolding layered_def ranked_def by blast

lemma layered_subset:
  assumes "layered r nodes" "\<And>h n'. nodes' h = Some n' \<Longrightarrow> \<exists>n. nodes h = Some n \<and> set (childs n') \<subseteq> set (childs n)"
  shows "layered r nodes'"
  unfolding layered_def
proof (intro allI impI)
  fix h n' c assume h: "h \<noteq> zeroHash \<and> nodes' h = Some n' \<and> c \<in> set (childs n')"
  then obtain n where "nodes h = Some n" "c \<in> set (childs n)" using assms(2) [of h n'] by auto
  then show "c \<noteq> zeroHash \<and> r c < r h" using assms(1) h unfolding layered_def by blast
qed

lemma layered_update:
  assumes "layered r nodes" "h = zeroHash \<or> (\<forall>c \<in> set (childs n). c \<noteq> zeroHash \<and> r c < r h)"
  shows "layered r (nodes(h \<mapsto> n))"
  using assms unfolding layered_def by auto

lemma body_links_childs: "body_links n = body_links m \<Longrightarrow> childs n = childs m"
  by (simp add: body_links_def childs_def)

lemma insert_layered:
  assumes "layered r (db_nodes db)" "\<forall>c \<in> set (gatherChildren n). c \<noteq> zeroHash \<and> r c < r h"
  shows "layered r (db_nodes (db_insert_raw h blob n db))"
proof (cases "db_nodes db h")
  case None
  define e where "e = newCachedNode\<lparr>cn_node := n, cn_size := word_of_nat (length blob), cn_flushPrev := db_newest db\<rparr>"
  define N where "N = fold add_parent (childs e) (db_nodes db)"
  have "layered r N"
    by (rule layered_subset [OF assms(1)]) (auto simp: N_def dest!: add_parents_Some body_links_childs)
  moreover have "childs e = gatherChildren n" by (simp add: e_def childs_def newCachedNode_def)
  ultimately have L: "layered r (N(h \<mapsto> e))" using assms(2) by (intro layered_update) simp_all
  show ?thesis
  proof (cases "db_oldest db = zeroHash \<or> (N(h \<mapsto> e)) (db_newest db) = None")
    case True
    then have "db_nodes (db_insert_raw h blob n db) = N(h \<mapsto> e)"
      by (auto simp: insert_new [OF None e_def N_def] split: option.splits)
    then show ?thesis using L by simp
  next
    case False
    then obtain c where c: "(N(h \<mapsto> e)) (db_newest db) = Some c" by blast
    then have "db_nodes (db_insert_raw h blob n db) = (N(h \<mapsto> e))(db_newest db \<mapsto> c\<lparr>cn_flushNext := h\<rparr>)"
      using False by (simp add: insert_new [OF None e_def N_def] del: fun_upd_apply)
    moreover have "layered r ((N(h \<mapsto> e))(db_newest db \<mapsto> c\<lparr>cn_flushNext := h\<rparr>))"
      by (rule layered_subset [OF L]) (use c in \<open>auto simp: childs_def split: if_splits\<close>)
    ultimately show ?thesis by simp
  qed
qed (use assms in \<open>simp add: db_insert_raw_def\<close>)

lemma insert_dom: "dom (db_nodes (db_insert_raw h blob n db)) \<subseteq> insert h (dom (db_nodes db))"
  by (auto simp: db_insert_raw_def Let_def add_parents_None split: option.splits if_splits dest!: add_parents_Some)

lemma insert_other:
  "db_preimages (db_insert_raw h blob n db) = db_preimages db" "db_disk (db_insert_raw h blob n db) = db_disk db"
  by (simp_all add: db_insert_raw_def Let_def split: option.splits)

text \<open>Operations on the database, and when a client may call them.\<close>

datatype dbOp =
  OpInsert hash bytes rawnode | OpPreimage hash bytes | OpReference hash hash
| OpDereference hash | OpCap int | OpCommit hash

fun run_op :: "diskWrite \<Rightarrow> nat \<Rightarrow> dbOp \<Rightarrow> database \<Rightarrow> (dbErr + database) option" where
  "run_op wr f (OpInsert h blob n) db = Some (Inr (db_insert_raw h blob n db))"
| "run_op wr f (OpPreimage h p) db = Some (Inr (insertPreimage h p db))"
| "run_op wr f (OpReference child parent) db = Some (reference child parent db)"
| "run_op wr f (OpDereference root) db = Some (Dereference f root db)"
| "run_op wr f (OpCap limit) db = Cap wr limit db"
| "run_op wr f (OpCommit root) db = Some (Database_Commit wr f root db)"

text \<open>
  \<open>r\<close> ranks the hashes so that the children of a stored node come before it, as they do when a node
  is stored under the hash of an encoding that contains the hashes of its children.
\<close>

fun db_op_ok :: "(hash \<Rightarrow> nat) \<Rightarrow> nat \<Rightarrow> database \<Rightarrow> dbOp \<Rightarrow> bool" where
  "db_op_ok r f db (OpInsert h blob n) \<longleftrightarrow> length h = 32 \<and> h \<noteq> zeroHash \<and> (\<forall>c \<in> set (gatherChildren n). c \<noteq> zeroHash \<and> r c < r h)"
| "db_op_ok r f db (OpPreimage h p) \<longleftrightarrow> length h = 32"
| "db_op_ok r f db (OpReference child parent) \<longleftrightarrow> child \<noteq> zeroHash \<and> db_nodes db parent \<noteq> None \<and> (parent = zeroHash \<or> r child < r parent)"
| "db_op_ok r f db (OpDereference root) \<longleftrightarrow> Suc (r root) < f"
| "db_op_ok r f db (OpCap limit) \<longleftrightarrow> True"
| "db_op_ok r f db (OpCommit root) \<longleftrightarrow> root \<noteq> zeroHash \<and> Suc (r root) < f"

inductive db_reaches :: "diskWrite \<Rightarrow> (hash \<Rightarrow> nat) \<Rightarrow> nat \<Rightarrow> database \<Rightarrow> bool" for wr r f where
  new: "db_reaches wr r f (NewDatabase disk)"
| run: "db_reaches wr r f db \<Longrightarrow> db_op_ok r f db op \<Longrightarrow> run_op wr f op db = Some (Inr db') \<Longrightarrow> db_reaches wr r f db'"

definition db_ok :: "(hash \<Rightarrow> nat) \<Rightarrow> database \<Rightarrow> bool" where
  "db_ok r db \<longleftrightarrow> (\<exists>hs. flush_inv db hs {}) \<and> layered r (db_nodes db) \<and> keys_ok db"

definition result_ok :: "diskWrite \<Rightarrow> (hash \<Rightarrow> nat) \<Rightarrow> (dbErr + database) option \<Rightarrow> bool" where
  "result_ok wr r res \<longleftrightarrow> (case res of None \<Rightarrow> False | Some (Inl e) \<Rightarrow> e = WriteErr \<and> (\<exists>b d. wr b d = None) | Some (Inr db) \<Rightarrow> db_ok r db)"

lemma NewDatabase_ok: "db_ok r (NewDatabase disk)"
proof -
  have "length zeroHash = 32" by (simp add: zeroHash_def HashLength_def)
  then have "keys_ok (NewDatabase disk)" by (simp add: keys_ok_def NewDatabase_def)
  moreover have "flush_inv (NewDatabase disk) [] {}" by (simp add: flush_inv_def NewDatabase_def)
  moreover have "layered r (db_nodes (NewDatabase disk))" by (auto simp: layered_def NewDatabase_def)
  ultimately show ?thesis by (auto simp: db_ok_def)
qed

lemma shrinks_ok: "db_ok r db \<Longrightarrow> flush_inv db' hs {} \<Longrightarrow> cuts db db' \<Longrightarrow> db_ok r db'"
proof -
  assume a: "db_ok r db" "flush_inv db' hs {}" "cuts db db'"
  have L: "layered r (db_nodes db')" using a layered_subset [of r "db_nodes db" "db_nodes db'"] by (simp add: db_ok_def cuts_def)
  have "dom (db_nodes db') \<subseteq> dom (db_nodes db)" using a(3) unfolding cuts_def by blast
  moreover have "\<forall>h \<in> dom (db_nodes db). length h = 32" using a(1) by (simp add: db_ok_def keys_ok_def)
  ultimately have "\<forall>h \<in> dom (db_nodes db'). length h = 32" by blast
  then have "keys_ok db'" using a(1) conjunct1 [OF a(3) [unfolded cuts_def]] by (auto simp: db_ok_def keys_ok_def)
  then show ?thesis using a(2) L by (auto simp: db_ok_def)
qed

lemma shrinks_cuts: "shrinks db db' \<Longrightarrow> cuts db db'"
  unfolding shrinks_def cuts_def by metis

lemma insert_ok:
  assumes "db_ok r db" "db_op_ok r f db (OpInsert h blob n)"
  shows "db_ok r (db_insert_raw h blob n db)"
proof -
  obtain hs where hs: "flush_inv db hs {}" using assms(1) by (auto simp: db_ok_def)
  have "\<exists>hs. flush_inv (db_insert_raw h blob n db) hs {}"
    using insert_flush [OF hs, of h blob n] hs assms(2) by (cases "db_nodes db h") (auto simp: db_insert_raw_def)
  moreover have "keys_ok (db_insert_raw h blob n db)"
    using assms insert_dom [of h blob n db] by (auto simp: keys_ok_def db_ok_def insert_other)
  moreover have "layered r (db_nodes (db_insert_raw h blob n db))" using assms insert_layered by (auto simp: db_ok_def)
  ultimately show ?thesis by (simp add: db_ok_def)
qed

lemma childs_set_child: "set (childs (n\<lparr>cn_children := set_child c v (cn_children n)\<rparr>)) \<subseteq> insert c (set (childs n))"
  by (auto simp: childs_def set_child_def split: if_splits)

lemma reference_ok:
  assumes "db_ok r db" "db_op_ok r f db (OpReference child parent)"
  shows "result_ok wr r (Some (reference child parent db))"
proof (cases "db_nodes db child")
  case (Some n)
  obtain hs where hs: "flush_inv db hs {}" using assms(1) by (auto simp: db_ok_def)
  obtain p where p: "db_nodes db parent = Some p" using assms(2) by auto
  show ?thesis
  proof (cases "child_count p child \<noteq> None \<and> parent \<noteq> zeroHash")
    case False
    define N where "N = (db_nodes db)(child \<mapsto> n\<lparr>cn_parents := cn_parents n + 1\<rparr>)"
    define q where "q = (if parent = child then n\<lparr>cn_parents := cn_parents n + 1\<rparr> else p)"
    define v where "v = (case child_count q child of None \<Rightarrow> 0 | Some v \<Rightarrow> v) + 1"
    define q' where "q' = q\<lparr>cn_children := set_child child v (cn_children q)\<rparr>"
    have res: "reference child parent db = Inr (db\<lparr>db_nodes := N(parent \<mapsto> q')\<rparr>)"
      using Some p False by (auto simp: reference_def Let_def N_def q_def v_def q'_def)
    have "flush_inv (db\<lparr>db_nodes := N(parent \<mapsto> q')\<rparr>) hs {}"
      by (rule flush_inv_cong [OF hs]) (use Some p in \<open>auto simp: N_def q_def q'_def\<close>)
    moreover have L: "layered r N"
    proof (rule layered_subset)
      show "layered r (db_nodes db)" using assms(1) by (simp add: db_ok_def)
      show "\<exists>m. db_nodes db h = Some m \<and> set (childs n') \<subseteq> set (childs m)" if "N h = Some n'" for h n'
        using that Some by (cases "h = child") (auto simp: N_def childs_def)
    qed
    moreover have "N parent = Some q" using Some p by (simp add: N_def q_def)
    then have "\<forall>c \<in> set (childs q). c \<noteq> zeroHash \<and> r c < r parent" if "parent \<noteq> zeroHash"
      using L that by (simp add: layered_def)
    then have "parent = zeroHash \<or> (\<forall>c \<in> set (childs q'). c \<noteq> zeroHash \<and> r c < r parent)"
      using assms(2) childs_set_child [where n = q and c = child and v = v, folded q'_def] by auto
    then have "layered r (N(parent \<mapsto> q'))" by (rule layered_update [OF L])
    moreover have "dom (N(parent \<mapsto> q')) = dom (db_nodes db)" using Some p by (auto simp: N_def)
    then have "keys_ok (db\<lparr>db_nodes := N(parent \<mapsto> q')\<rparr>)" using assms(1) by (simp add: db_ok_def keys_ok_def)
    ultimately show ?thesis using res by (auto simp: result_ok_def db_ok_def)
  qed (use assms(1) Some p in \<open>simp add: reference_def result_ok_def\<close>)
qed (use assms(1) in \<open>simp add: reference_def result_ok_def\<close>)

lemma preimage_ok: "db_ok r db \<Longrightarrow> length h = 32 \<Longrightarrow> db_ok r (insertPreimage h p db)"
proof (cases "map_of (db_preimages db) h")
  case None
  assume a: "db_ok r db" "length h = 32"
  then obtain hs where hs: "flush_inv db hs {}" by (auto simp: db_ok_def)
  have "flush_inv (insertPreimage h p db) hs {}"
    by (rule flush_inv_cong [OF hs]) (simp_all add: insertPreimage_def None)
  moreover have "h \<notin> fst ` set (db_preimages db)" using None by (simp add: map_of_eq_None_iff)
  then have "keys_ok (insertPreimage h p db)" using a by (auto simp: db_ok_def keys_ok_def insertPreimage_def None)
  ultimately show ?thesis using a(1) by (auto simp: db_ok_def insertPreimage_def None)
qed (simp add: insertPreimage_def)

lemma dereference_ok:
  assumes "db_ok r db" "Suc (r root) < f"
  shows "result_ok wr r (Some (Dereference f root db))"
proof (cases "root = zeroHash")
  case False
  obtain hs where hs: "flush_inv db hs {}" using assms(1) by (auto simp: db_ok_def)
  then have "db_nodes db zeroHash \<noteq> None" by (auto simp: flush_inv_def)
  moreover have "below r f {} db root" using False assms(2) by (simp add: below_def)
  ultimately obtain db' hs' where "dereference f root zeroHash db = Inr db'" "flush_inv db' hs' {}" "shrinks db db'"
    using dereference_flush(1) [OF hs, of r zeroHash f root] assms layered_ranked by (auto simp: db_ok_def)
  then show ?thesis using False shrinks_ok [OF assms(1) _ shrinks_cuts] by (auto simp: Dereference_def result_ok_def)
qed (use assms in \<open>simp add: Dereference_def result_ok_def\<close>)

lemma put_node_error: "put_node wr h n b d = Inl e \<Longrightarrow> e = WriteErr \<and> (\<exists>b d. wr b d = None)"
  by (auto simp: put_node_def flush_def Let_def split: if_splits option.splits)

lemma db_commits_error:
  assumes "\<And>h b d e. fuelled r f nodes h \<Longrightarrow> db_commit wr f nodes h b d = Inl e \<Longrightarrow> e = WriteErr \<and> (\<exists>b d. wr b d = None)"
  shows "\<forall>h \<in> set hs. fuelled r f nodes h \<Longrightarrow> db_commits wr f nodes hs b d = Inl e \<Longrightarrow> e = WriteErr \<and> (\<exists>b d. wr b d = None)"
proof (induction hs arbitrary: b d)
  case (Cons h hs)
  obtain g where f: "f = Suc g" using Cons.prems(1) by (cases f) (auto simp: fuelled_def)
  show ?case
  proof (cases "db_commit wr f nodes h b d")
    case (Inl e')
    then show ?thesis using assms [of h b d e'] Cons.prems f by simp
  next
    case (Inr bd)
    then show ?thesis using Cons.IH [of "fst bd" "snd bd"] Cons.prems f by (cases bd) simp
  qed
qed simp

lemma db_commit_error:
  assumes r: "ranked r nodes"
  shows "fuelled r f nodes h \<Longrightarrow> db_commit wr f nodes h b d = Inl e \<Longrightarrow> e = WriteErr \<and> (\<exists>b d. wr b d = None)"
proof (induction f arbitrary: h b d e)
  case (Suc f)
  obtain n where n: "nodes h = Some n" using Suc.prems(2) by (cases "nodes h") auto
  have fu: "\<forall>c \<in> set (childs n). fuelled r f nodes c"
    using r n Suc.prems(1) by (fastforce simp: ranked_def fuelled_def)
  show ?case
  proof (cases "db_commits wr f nodes (childs n) b d")
    case (Inl e')
    then show ?thesis using db_commits_error [of r f nodes wr "childs n" b d e'] Suc.IH fu Suc.prems(2) n by simp
  next
    case (Inr bd)
    then show ?thesis using put_node_error [of wr h n "fst bd" "snd bd" e] Suc.prems(2) n by (cases bd) simp
  qed
qed (simp add: fuelled_def)

lemma uncache_ok:
  assumes "db_ok r db" "root \<noteq> zeroHash" "Suc (r root) < f"
  shows "\<exists>db'. uncache f root (db\<lparr>db_disk := d, db_preimages := [], db_preimagesSize := 0\<rparr>) = Inr db' \<and> db_ok r db'"
proof -
  let ?db = "db\<lparr>db_disk := d, db_preimages := [], db_preimagesSize := 0\<rparr>"
  obtain hs where hs: "flush_inv db hs {}" using assms(1) by (auto simp: db_ok_def)
  have "ranked r (db_nodes ?db)" using assms(1) layered_ranked by (auto simp: db_ok_def)
  moreover have "flush_inv ?db hs {}" by (rule flush_inv_cong [OF hs]) simp_all
  moreover have "below r f {} ?db root" using assms(2,3) by (simp add: below_def)
  ultimately obtain db' hs' where u: "uncache f root ?db = Inr db'" "flush_inv db' hs' {}" "shrinks ?db db'"
    using uncache_flush(1) [of ?db hs "{}" r f root] assms(3) by auto
  have "cuts db db'" using u(3) by (simp add: shrinks_def cuts_def) metis
  then show ?thesis using shrinks_ok [OF assms(1)] u by blast
qed

lemma commit_ok:
  assumes "db_ok r db" "root \<noteq> zeroHash" "Suc (r root) < f"
  shows "result_ok wr r (Some (Database_Commit wr f root db))"
proof -
  have rk: "ranked r (db_nodes db)" using assms(1) layered_ranked by (auto simp: db_ok_def)
  have fu: "fuelled r f (db_nodes db) root" using assms(2,3) by (simp add: fuelled_def)
  show ?thesis
  proof (cases "put_preimages wr (db_preimages db) NewBatch (db_disk db)")
    case (Inl e)
    then show ?thesis using put_preimages_error [OF Inl] by (simp add: Database_Commit_def result_ok_def)
  next
    case (Inr bd)
    then obtain b d where 1: "put_preimages wr (db_preimages db) NewBatch (db_disk db) = Inr (b, d)" by (cases bd) simp
    show ?thesis
    proof (cases "db_commit wr f (db_nodes db) root b d")
      case (Inl e)
      then show ?thesis using 1 db_commit_error [OF rk fu Inl] by (simp add: Database_Commit_def result_ok_def)
    next
      case (Inr bd)
      then obtain b2 d2 where 2: "db_commit wr f (db_nodes db) root b d = Inr (b2, d2)" by (cases bd) simp
      show ?thesis
      proof (cases "wr b2 d2")
        case None
        then show ?thesis using 1 2 by (auto simp: Database_Commit_def result_ok_def)
      next
        case (Some d3)
        then show ?thesis using 1 2 uncache_ok [OF assms, of d3] by (auto simp: Database_Commit_def result_ok_def)
      qed
    qed
  qed
qed

lemma cap_ok:
  assumes "db_ok r db" "write_ok wr"
  shows "result_ok wr r (Cap wr limit db)"
proof -
  obtain hs where hs: "flush_inv db hs {}" "keys_ok db" using assms(1) by (auto simp: db_ok_def)
  obtain res where res: "Cap wr limit db = Some res"
    "case res of Inl e \<Rightarrow> e = WriteErr \<and> (\<exists>b d. wr b d = None) | Inr db' \<Rightarrow> (\<exists>bs. flush_inv db' bs {}) \<and> cuts db db'"
    using Cap_effect [OF hs assms(2), of limit] by (fastforce split: sum.splits)
  then show ?thesis using shrinks_ok [OF assms(1)] by (cases res) (auto simp: result_ok_def)
qed

lemma run_op_ok:
  assumes "db_ok r db" "db_op_ok r f db op" "write_ok wr"
  shows "result_ok wr r (run_op wr f op db)"
proof (cases op)
  case (OpInsert h blob n)
  then show ?thesis using insert_ok [of r db f h blob n] assms by (simp add: result_ok_def)
next
  case (OpReference c p)
  then show ?thesis using reference_ok [of r db f c p wr] assms by simp
qed (use assms preimage_ok dereference_ok commit_ok cap_ok in \<open>simp_all add: result_ok_def\<close>)

lemma reachable_ok: "db_reaches wr r f db \<Longrightarrow> write_ok wr \<Longrightarrow> db_ok r db"
proof (induction rule: db_reaches.induct)
  case (run db op db')
  then show ?case using run_op_ok [of r db f op wr] by (simp add: result_ok_def)
qed (rule NewDatabase_ok)

text \<open>
  C17: Flushing nodes to disk. On every well-formed cache \<open>Cap\<close> returns; it fails only when a write
  to disk fails. When it succeeds it has removed an initial part of the flush list, the oldest nodes, and the rest is
  the new flush list; the accounted size is then within the limit unless no node is left; no read of
  a node or of a preimage gives a different answer than before.
\<close>

theorem cap_flushes_oldest:
  assumes "flush_inv db hs {}" "keys_ok db" "write_ok wr"
  shows "\<exists>res. Cap wr limit db = Some res \<and> (case res of
      Inl e \<Rightarrow> e = WriteErr \<and> (\<exists>b d. wr b d = None)
    | Inr db' \<Rightarrow> (\<exists>as bs. hs = as @ bs \<and> flush_inv db' bs {} \<and> (fst (Database_Size db') \<le> limit \<or> bs = []))
        \<and> (\<forall>k. length k = 32 \<longrightarrow> Database_Node db' k = Database_Node db k \<and> Database_preimage db' k = Database_preimage db k))"
proof -
  obtain res where "Cap wr limit db = Some res" and r: "case res of
      Inl e \<Rightarrow> e = WriteErr \<and> (\<exists>b d. wr b d = None)
    | Inr db' \<Rightarrow> (\<exists>as bs. hs = as @ bs \<and> flush_inv db' bs {} \<and> (fst (Database_Size db') \<le> limit \<or> bs = []))
        \<and> cuts db db'
        \<and> (\<forall>k. length k = 32 \<longrightarrow> Database_Node db' k = Database_Node db k \<and> Database_preimage db' k = Database_preimage db k)"
    using Cap_effect [OF assms, of limit] by blast
  then show ?thesis by (cases res) auto
qed

text \<open>
  C8: The database never breaks its flush list. Start from a new database and run any sequence of
  insertions, preimage insertions, references, dereferences, flushes and commits, with nodes stored
  after their children. The client keeps the preconditions \<open>db_op_ok\<close> of the operations: hashes have 32
  bytes and are not the zero hash, the parent of a reference is cached, and the root of a commit is not the
  zero hash. Then the doubly linked list through the cached nodes is intact and lists each
  of them once, and no further operation panics, runs forever or fails, except when a write to disk
  fails.
\<close>

theorem database_safe:
  assumes "db_reaches wr r f db" "db_op_ok r f db op" "write_ok wr"
  shows "(\<exists>hs. flush_inv db hs {}) \<and>
    (\<exists>res. run_op wr f op db = Some res \<and>
      (case res of Inl e \<Rightarrow> e = WriteErr \<and> (\<exists>b d. wr b d = None) | Inr db' \<Rightarrow> \<exists>hs. flush_inv db' hs {}))"
proof -
  have ok: "db_ok r db" using reachable_ok assms by blast
  then have "result_ok wr r (run_op wr f op db)" using run_op_ok assms by blast
  then show ?thesis using ok by (auto simp: result_ok_def db_ok_def split: option.splits sum.splits)
qed

section \<open>An example\<close>

definition sample_hash :: hash where
  "sample_hash = replicate 32 1"

definition sample_db :: database where
  "sample_db = InsertBlob sample_hash [0x80] (NewDatabase Map.empty)"

abbreviation mem_write :: diskWrite where
  "mem_write b d \<equiv> Some (mb_Write b d)"

lemma sample_hash_ok: "sample_hash \<noteq> zeroHash" "length sample_hash = 32"
proof -
  have "hd sample_hash = 1" "hd zeroHash = 0" by (simp_all add: sample_hash_def zeroHash_def HashLength_def)
  then show "sample_hash \<noteq> zeroHash" by auto
qed (simp add: sample_hash_def)

lemma sample_flush: "flush_inv sample_db [sample_hash] {}"
proof -
  have "flush_inv (NewDatabase Map.empty) [] {}" by (simp add: flush_inv_def NewDatabase_def)
  then show ?thesis using insert_flush [of "NewDatabase Map.empty" "[]" sample_hash "[0x80]" "RawNode [0x80]"] sample_hash_ok
    by (simp add: sample_db_def InsertBlob_def NewDatabase_def)
qed

lemma sample_reaches: "db_reaches mem_write (\<lambda>h. 0) 2 sample_db"
  by (rule db_reaches.run [OF db_reaches.new [of _ _ _ Map.empty], where op = "OpInsert sample_hash [0x80] (RawNode [0x80])"])
    (simp_all add: sample_db_def InsertBlob_def sample_hash_ok)

lemma sample_ok: "ranked (\<lambda>h. 0) (db_nodes sample_db)" "keys_ok sample_db"
  using reachable_ok [OF sample_reaches mem_write_ok] layered_ranked by (auto simp: db_ok_def)

lemma sample_node:
  "Database_Node sample_db sample_hash = Some [0x80]" "reaches (db_nodes sample_db) sample_hash sample_hash"
proof -
  have "\<exists>n. db_nodes sample_db sample_hash = Some n \<and> cn_node n = RawNode [0x80]"
    using sample_hash_ok by (simp add: sample_db_def InsertBlob_def db_insert_raw_def NewDatabase_def Let_def childs_def newCachedNode_def)
  then show "Database_Node sample_db sample_hash = Some [0x80]" "reaches (db_nodes sample_db) sample_hash sample_hash"
    by (auto simp: Database_Node_def cachedNode_rlp_def intro: reaches.here)
qed

theorem commit_persists_witness:
  "\<exists>db'. Database_Commit mem_write 2 sample_hash sample_db = Inr db' \<and> db_disk db' sample_hash = Some [0x80]"
  using commit_persists [OF sample_flush sample_ok sample_hash_ok(1) _ mem_write_ok, of 2] sample_node sample_hash_ok(2) by auto

theorem cap_flushes_oldest_witness:
  "\<exists>db'. Cap mem_write 0 sample_db = Some (Inr db') \<and> Database_Node db' sample_hash = Some [0x80]"
proof -
  have "\<exists>res. Cap mem_write 0 sample_db = Some res \<and>
      (case res of Inl e \<Rightarrow> False | Inr db' \<Rightarrow> Database_Node db' sample_hash = Some [0x80])"
    using cap_flushes_oldest [OF sample_flush sample_ok(2) mem_write_ok, of 0]
    by (elim ex_forward conj_forward) (simp_all add: sample_node(1) sample_hash_ok(2) split: sum.splits)
  then show ?thesis by (elim exE conjE, case_tac res) auto
qed

theorem database_safe_witness:
  "\<exists>db' hs. Dereference 2 sample_hash sample_db = Inr db' \<and> flush_inv db' hs {}"
  using database_safe [OF sample_reaches _ mem_write_ok, of "OpDereference sample_hash"] by (auto split: sum.splits)

end
