(* ===== verification/Rlp_Stream.thy ===== *)
theory Rlp_Stream
  imports Rlp
begin

text \<open>
  The streaming decoder of \<open>rlp/decode.go\<close> over an in-memory reader, and the decoders and
  writers that \<open>makeDecoder\<close> and \<open>makeWriter\<close> compose from a Go type.

  A stream holds the unread input, the optional input limit, the cached type tag of the value
  ahead (\<open>None\<close> is \<open>kind == -1\<close>), the sticky error and the stack of enclosing lists, innermost
  first. Every operation returns its result and the stream as it leaves it, also after an
  error. Sizes are natural numbers: a size read from the input has at most eight bytes.
\<close>

section \<open>Stream\<close>

record stream =
  st_in :: bytes
  st_remaining :: nat
  st_limited :: bool
  st_kind :: "kind option"
  st_size :: nat
  st_byteval :: byte
  st_kinderr :: "rlpError option"
  st_stack :: "(nat \<times> nat) list"

text \<open>\<open>NewStream\<close> on a byte reader: without an explicit limit the reader's length is the limit.\<close>

definition NewStream :: "bytes \<Rightarrow> nat \<Rightarrow> stream" where
  "NewStream r inputLimit =
     \<lparr>st_in = r, st_remaining = (if inputLimit > 0 then inputLimit else length r),
      st_limited = True, st_kind = None, st_size = 0, st_byteval = 0, st_kinderr = None,
      st_stack = []\<rparr>"

definition NewListStream :: "bytes \<Rightarrow> nat \<Rightarrow> stream" where
  "NewListStream r len = (NewStream r len)\<lparr>st_kind := Some List, st_size := len\<rparr>"

text \<open>\<open>willRead\<close> checks and accounts for \<open>n\<close> bytes, in the innermost list first.\<close>

definition willRead_limit :: "nat \<Rightarrow> stream \<Rightarrow> (rlpError + unit) \<times> stream" where
  "willRead_limit n s =
     (if st_limited s then
        if n > st_remaining s then (Inl ErrValueTooLarge, s)
        else (Inr (), s\<lparr>st_remaining := st_remaining s - n\<rparr>)
      else (Inr (), s))"

definition willRead :: "nat \<Rightarrow> stream \<Rightarrow> (rlpError + unit) \<times> stream" where
  "willRead n s =
     (let s = s\<lparr>st_kind := None\<rparr> in
      case st_stack s of
        [] \<Rightarrow> willRead_limit n s
      | (pos, sz) # rest \<Rightarrow>
          if n > sz - pos then (Inl ErrElemTooLarge, s)
          else willRead_limit n (s\<lparr>st_stack := (pos + n, sz) # rest\<rparr>))"

definition readByte :: "stream \<Rightarrow> (rlpError + byte) \<times> stream" where
  "readByte s =
     (case willRead 1 s of
        (Inl e, s) \<Rightarrow> (Inl e, s)
      | (Inr _, s) \<Rightarrow>
          (case st_in s of
             [] \<Rightarrow> (Inl ErrUnexpectedEOF, s)
           | b # r \<Rightarrow> (Inr b, s\<lparr>st_in := r\<rparr>)))"

definition readFull :: "nat \<Rightarrow> stream \<Rightarrow> (rlpError + bytes) \<times> stream" where
  "readFull n s =
     (case willRead n s of
        (Inl e, s) \<Rightarrow> (Inl e, s)
      | (Inr _, s) \<Rightarrow>
          if n \<le> length (st_in s) then (Inr (take n (st_in s)), s\<lparr>st_in := drop n (st_in s)\<rparr>)
          else (Inl ErrUnexpectedEOF, s\<lparr>st_in := []\<rparr>))"

definition readUint :: "nat \<Rightarrow> stream \<Rightarrow> (rlpError + nat) \<times> stream" where
  "readUint sz s =
     (if sz = 0 then (Inr 0, s\<lparr>st_kind := None\<rparr>)
      else if sz = 1 then
        (case readByte s of (Inl e, s) \<Rightarrow> (Inl e, s) | (Inr b, s) \<Rightarrow> (Inr (unat b), s))
      else
        (case readFull sz s of
           (Inl e, s) \<Rightarrow> (Inl e, s)
         | (Inr b, s) \<Rightarrow> if b ! 0 = 0 then (Inl ErrCanonSize, s) else (Inr (be_val b), s)))"

text \<open>The size behind a long header; a size below 56 is returned with its error.\<close>

definition readKind_long :: "kind \<Rightarrow> nat \<Rightarrow> stream \<Rightarrow> (kind \<times> nat \<times> rlpError option) \<times> stream" where
  "readKind_long k n s =
     (case readUint n s of
        (Inl e, s) \<Rightarrow> ((k, 0, Some e), s)
      | (Inr sz, s) \<Rightarrow> ((k, sz, if sz < 56 then Some ErrCanonSize else None), s))"

definition stream_readKind :: "stream \<Rightarrow> (kind \<times> nat \<times> rlpError option) \<times> stream" where
  "stream_readKind s =
     (case readByte s of
        (Inl e, s) \<Rightarrow>
          ((Byte, 0, Some (if st_stack s = [] \<and> (e = ErrUnexpectedEOF \<or> e = ErrValueTooLarge)
                           then ErrEOF else e)), s)
      | (Inr b, s) \<Rightarrow>
          let s = s\<lparr>st_byteval := 0\<rparr> in
          if b < 0x80 then ((Byte, 0, None), s\<lparr>st_byteval := b\<rparr>)
          else if b < 0xB8 then ((String, unat (b - 0x80), None), s)
          else if b < 0xC0 then readKind_long String (unat (b - 0xB7)) s
          else if b < 0xF8 then ((List, unat (b - 0xC0), None), s)
          else readKind_long List (unat (b - 0xF7)) s)"

definition kind_check :: "stream \<Rightarrow> rlpError option" where
  "kind_check s =
     (case st_stack s of
        [] \<Rightarrow> if st_limited s \<and> st_size s > st_remaining s then Some ErrValueTooLarge else None
      | (pos, sz) # _ \<Rightarrow> if st_size s > sz - pos then Some ErrElemTooLarge else None)"

definition stream_Kind :: "stream \<Rightarrow> (rlpError + kind \<times> nat) \<times> stream" where
  "stream_Kind s =
     (case st_kind s of
        Some k \<Rightarrow>
          (case st_kinderr s of Some e \<Rightarrow> (Inl e, s) | None \<Rightarrow> (Inr (k, st_size s), s))
      | None \<Rightarrow>
          let s = s\<lparr>st_kinderr := None\<rparr> in
          if (case st_stack s of [] \<Rightarrow> False | (pos, sz) # _ \<Rightarrow> pos = sz) then (Inl EOL, s)
          else
            (case stream_readKind s of
               ((k, sz, err), s) \<Rightarrow>
                 let s = s\<lparr>st_kind := Some k, st_size := sz, st_kinderr := err\<rparr>;
                     s = (if err = None then s\<lparr>st_kinderr := kind_check s\<rparr> else s)
                 in (case st_kinderr s of Some e \<Rightarrow> (Inl e, s) | None \<Rightarrow> (Inr (k, sz), s))))"

section \<open>Reading values\<close>

definition stream_Bytes :: "stream \<Rightarrow> (rlpError + bytes) \<times> stream" where
  "stream_Bytes s =
     (case stream_Kind s of
        (Inl e, s) \<Rightarrow> (Inl e, s)
      | (Inr (Byte, sz), s) \<Rightarrow> (Inr [st_byteval s], s\<lparr>st_kind := None\<rparr>)
      | (Inr (String, sz), s) \<Rightarrow>
          (case readFull sz s of
             (Inl e, s) \<Rightarrow> (Inl e, s)
           | (Inr b, s) \<Rightarrow> if sz = 1 \<and> b ! 0 < 128 then (Inl ErrCanonSize, s) else (Inr b, s))
      | (Inr (List, sz), s) \<Rightarrow> (Inl ErrExpectedString, s))"

definition stream_Raw :: "stream \<Rightarrow> (rlpError + bytes) \<times> stream" where
  "stream_Raw s =
     (case stream_Kind s of
        (Inl e, s) \<Rightarrow> (Inl e, s)
      | (Inr (k, sz), s) \<Rightarrow>
          if k = Byte then (Inr [st_byteval s], s\<lparr>st_kind := None\<rparr>)
          else
            (case readFull sz s of
               (Inl e, s) \<Rightarrow> (Inl e, s)
             | (Inr b, s) \<Rightarrow>
                 (Inr ((if k = String then puthead 0x80 0xB7 (word_of_nat sz)
                        else puthead 0xC0 0xF7 (word_of_nat sz)) @ b), s)))"

definition stream_uint :: "nat \<Rightarrow> stream \<Rightarrow> (rlpError + nat) \<times> stream" where
  "stream_uint maxbits s =
     (case stream_Kind s of
        (Inl e, s) \<Rightarrow> (Inl e, s)
      | (Inr (Byte, sz), s) \<Rightarrow>
          if st_byteval s = 0 then (Inl ErrCanonInt, s)
          else (Inr (unat (st_byteval s)), s\<lparr>st_kind := None\<rparr>)
      | (Inr (String, sz), s) \<Rightarrow>
          if sz > maxbits div 8 then (Inl ErrUintOverflow, s)
          else
            (case readUint sz s of
               (Inl e, s) \<Rightarrow> (Inl (if e = ErrCanonSize then ErrCanonInt else e), s)
             | (Inr v, s) \<Rightarrow> if sz > 0 \<and> v < 128 then (Inl ErrCanonSize, s) else (Inr v, s))
      | (Inr (List, sz), s) \<Rightarrow> (Inl ErrExpectedString, s))"

definition stream_Uint :: "stream \<Rightarrow> (rlpError + nat) \<times> stream" where
  "stream_Uint s = stream_uint 64 s"

definition stream_Bool :: "stream \<Rightarrow> (rlpError + bool) \<times> stream" where
  "stream_Bool s =
     (case stream_uint 8 s of
        (Inl e, s) \<Rightarrow> (Inl e, s)
      | (Inr num, s) \<Rightarrow>
          if num = 0 then (Inr False, s)
          else if num = 1 then (Inr True, s)
          else (Inl (ErrInvalidBool num), s))"

definition stream_List :: "stream \<Rightarrow> (rlpError + nat) \<times> stream" where
  "stream_List s =
     (case stream_Kind s of
        (Inl e, s) \<Rightarrow> (Inl e, s)
      | (Inr (k, sz), s) \<Rightarrow>
          if k \<noteq> List then (Inl ErrExpectedList, s)
          else (Inr sz, s\<lparr>st_stack := (0, sz) # st_stack s, st_kind := None, st_size := 0\<rparr>))"

fun bump :: "nat \<Rightarrow> (nat \<times> nat) list \<Rightarrow> (nat \<times> nat) list" where
  "bump n [] = []"
| "bump n ((pos, sz) # rest) = (pos + n, sz) # rest"

definition stream_ListEnd :: "stream \<Rightarrow> (rlpError + unit) \<times> stream" where
  "stream_ListEnd s =
     (case st_stack s of
        [] \<Rightarrow> (Inl ErrNotInList, s)
      | (pos, sz) # rest \<Rightarrow>
          if pos \<noteq> sz then (Inl ErrNotAtEOL, s)
          else (Inr (), s\<lparr>st_stack := bump sz rest, st_kind := None, st_size := 0\<rparr>))"

section \<open>Go types and values\<close>

text \<open>
  The types the package handles by reflection, after \<open>structFields\<close> has dropped unexported and
  ignored fields. Slices and arrays of \<open>uint8\<close> are \<open>TBytes\<close> and \<open>TByteArray\<close>; \<open>TBigInt\<close> and
  \<open>TBigIntPtr\<close> are \<open>big.Int\<close> and \<open>*big.Int\<close>. Types with their own \<open>EncodeRLP\<close> or
  \<open>DecodeRLP\<close> method are not included.
\<close>

datatype fieldTag = NoTag | NilTag | TailTag

datatype rtype =
    TRaw | TUint nat | TBool | TString | TBigInt | TBigIntPtr | TBytes | TByteArray nat
  | TSlice rtype | TArray nat rtype | TStruct "(string \<times> fieldTag \<times> rtype) list" | TPtr rtype
  | TInterface

datatype rval =
    VRaw bytes | VUint nat | VBool bool | VString bytes | VBig int | VBigPtr "int option"
  | VBytes bytes | VByteArray bytes | VSlice "rval list" | VArray "rval list"
  | VStruct "rval list" | VPtr "rval option" | VIfc "(rtype \<times> rval) option"

section \<open>Writers\<close>

type_synonym writer = "encbuf \<Rightarrow> string + encbuf"

fun write_seq :: "writer list \<Rightarrow> writer" where
  "write_seq [] w = Inr w"
| "write_seq (f # fs) w = (case f w of Inl e \<Rightarrow> Inl e | Inr w \<Rightarrow> write_seq fs w)"

definition write_list :: "writer list \<Rightarrow> writer" where
  "write_list fs w =
     (let (i, w) = eb_list w in
      case write_seq fs w of Inl e \<Rightarrow> Inl e | Inr w \<Rightarrow> Inr (listEnd i w))"

definition writeBool :: "bool \<Rightarrow> encbuf \<Rightarrow> encbuf" where
  "writeBool b w = eb_write [if b then 0x01 else 0x80] w"

definition writeString :: "bytes \<Rightarrow> encbuf \<Rightarrow> encbuf" where
  "writeString s w =
     (if length s = 1 \<and> s ! 0 \<le> 0x7F then eb_write [s ! 0] w
      else eb_write s (encodeStringHeader (length s) w))"

text \<open>What \<open>makePtrWriter\<close> writes for a nil pointer to an element of this type.\<close>

primrec nilfunc :: "rtype \<Rightarrow> encbuf \<Rightarrow> encbuf" where
  "nilfunc (TByteArray n) = (\<lambda>w. eb_write [0x80] w)"
| "nilfunc (TStruct fs) = (\<lambda>w. let (i, w) = eb_list w in listEnd i w)"
| "nilfunc (TArray n t) = (\<lambda>w. let (i, w) = eb_list w in listEnd i w)"
| "nilfunc TRaw = (\<lambda>w. w)"
| "nilfunc (TUint b) = writeUint 0"
| "nilfunc TBool = writeBool False"
| "nilfunc TString = writeString []"
| "nilfunc TBigInt = (\<lambda>w. eb_write [0x80] w)"
| "nilfunc TBigIntPtr = (\<lambda>w. eb_write [0x80] w)"
| "nilfunc TBytes = encodeString []"
| "nilfunc (TSlice t) = (\<lambda>w. let (i, w) = eb_list w in listEnd i w)"
| "nilfunc (TPtr t) = nilfunc t"
| "nilfunc TInterface = (\<lambda>w. eb_write [0xC0] w)"

text \<open>
  \<open>makeWriter\<close>: the writer for a type (with or without the tail tag) applied to a value of it.
  A value that is not of the type cannot arise in Go.
\<close>

definition typeMismatch :: string where
  "typeMismatch = ''reflect: value of another type''"

primrec makeWriter :: "rval \<Rightarrow> rtype \<Rightarrow> fieldTag \<Rightarrow> writer" where
  "makeWriter (VRaw b) = (\<lambda>t tag w. if t = TRaw then Inr (eb_write b w) else Inl typeMismatch)"
| "makeWriter (VUint n) = (\<lambda>t tag w.
     case t of TUint _ \<Rightarrow> Inr (writeUint (word_of_nat n) w) | _ \<Rightarrow> Inl typeMismatch)"
| "makeWriter (VBool b) = (\<lambda>t tag w. if t = TBool then Inr (writeBool b w) else Inl typeMismatch)"
| "makeWriter (VString b) = (\<lambda>t tag w. if t = TString then Inr (writeString b w) else Inl typeMismatch)"
| "makeWriter (VBig i) = (\<lambda>t tag w. if t = TBigInt then writeBigInt i w else Inl typeMismatch)"
| "makeWriter (VBigPtr p) = (\<lambda>t tag w.
     if t = TBigIntPtr then
       (case p of None \<Rightarrow> Inr (eb_write [0x80] w) | Some i \<Rightarrow> writeBigInt i w)
     else Inl typeMismatch)"
| "makeWriter (VBytes b) = (\<lambda>t tag w. if t = TBytes then Inr (encodeString b w) else Inl typeMismatch)"
| "makeWriter (VByteArray b) = (\<lambda>t tag w.
     if t = TByteArray (length b) then Inr (encodeString b w) else Inl typeMismatch)"
| "makeWriter (VSlice vs) = (\<lambda>t tag w.
     case t of
       TSlice et \<Rightarrow>
         let ws = map (\<lambda>f. f et NoTag) (map makeWriter vs) in
         if tag = TailTag then write_seq ws w else write_list ws w
     | _ \<Rightarrow> Inl typeMismatch)"
| "makeWriter (VArray vs) = (\<lambda>t tag w.
     case t of
       TArray n et \<Rightarrow>
         if n = length vs then write_list (map (\<lambda>f. f et NoTag) (map makeWriter vs)) w
         else Inl typeMismatch
     | _ \<Rightarrow> Inl typeMismatch)"
| "makeWriter (VStruct vs) = (\<lambda>t tag w.
     case t of
       TStruct fs \<Rightarrow>
         if length fs = length vs
         then write_list (map2 (\<lambda>(nm, tg, ft) f. f ft tg) fs (map makeWriter vs)) w
         else Inl typeMismatch
     | _ \<Rightarrow> Inl typeMismatch)"
| "makeWriter (VPtr p) = (\<lambda>t tag w.
     case t of
       TPtr et \<Rightarrow>
         (case map_option makeWriter p of None \<Rightarrow> Inr (nilfunc et w) | Some f \<Rightarrow> f et NoTag w)
     | _ \<Rightarrow> Inl typeMismatch)"
| "makeWriter (VIfc p) = (\<lambda>t tag w.
     if t = TInterface then
       (case map_option (map_prod id makeWriter) p of
          None \<Rightarrow> Inr (eb_write [0xC0] w)
        | Some (et, f) \<Rightarrow> f et NoTag w)
     else Inl typeMismatch)"

definition encode_typed :: "rtype \<Rightarrow> rval \<Rightarrow> string + bytes" where
  "encode_typed t v =
     (case makeWriter v t NoTag eb_reset of Inl e \<Rightarrow> Inl e | Inr w \<Rightarrow> Inr (toBytes w))"

section \<open>Decoders\<close>

text \<open>
  A \<open>decodeError\<close> keeps its message, the type it was raised at and the context entries
  \<open>addErrorContext\<close> appended, before they are formatted.
\<close>

datatype errCtx = CtxIndex nat | CtxField string | CtxType rtype

datatype decErr =
    SErr rlpError | DecodeError string rtype "errCtx list" | ErrMoreThanOneValue | DecOutOfFuel

type_synonym 'a dec = "stream \<Rightarrow> (decErr + 'a) \<times> stream"

definition wrapStreamError :: "rlpError \<Rightarrow> rtype \<Rightarrow> decErr" where
  "wrapStreamError err typ =
     (case err of
        ErrCanonInt \<Rightarrow> DecodeError ''non-canonical integer (leading zero bytes)'' typ []
      | ErrCanonSize \<Rightarrow> DecodeError ''non-canonical size information'' typ []
      | ErrExpectedList \<Rightarrow> DecodeError ''expected input list'' typ []
      | ErrExpectedString \<Rightarrow> DecodeError ''expected input string or byte'' typ []
      | ErrUintOverflow \<Rightarrow> DecodeError ''input string too long'' typ []
      | ErrNotAtEOL \<Rightarrow> DecodeError ''input list has too many elements'' typ []
      | _ \<Rightarrow> SErr err)"

fun addErrorContext :: "decErr \<Rightarrow> errCtx \<Rightarrow> decErr" where
  "addErrorContext (DecodeError m t c) x = DecodeError m t (c @ [x])"
| "addErrorContext e x = e"

text \<open>Continue after a successful read; on failure return the error through \<open>w\<close>.\<close>

definition on_ok ::
  "('e \<Rightarrow> decErr) \<Rightarrow> ('e + 'a) \<times> stream \<Rightarrow> ('a \<Rightarrow> stream \<Rightarrow> (decErr + 'b) \<times> stream) \<Rightarrow>
   (decErr + 'b) \<times> stream" where
  "on_ok w r k = (case r of (Inl e, s) \<Rightarrow> (Inl (w e), s) | (Inr a, s) \<Rightarrow> k a s)"

definition ret :: "'a \<Rightarrow> 'a dec" where
  "ret a s = (Inr a, s)"

definition decodeRawValue :: "rval dec" where
  "decodeRawValue s = on_ok SErr (stream_Raw s) (\<lambda>b. ret (VRaw b))"

definition decodeUint :: "nat \<Rightarrow> rval dec" where
  "decodeUint bits s =
     on_ok (\<lambda>e. wrapStreamError e (TUint bits)) (stream_uint bits s) (\<lambda>n. ret (VUint n))"

definition decodeBool :: "rval dec" where
  "decodeBool s = on_ok (\<lambda>e. wrapStreamError e TBool) (stream_Bool s) (\<lambda>b. ret (VBool b))"

definition decodeString :: "rval dec" where
  "decodeString s = on_ok (\<lambda>e. wrapStreamError e TString) (stream_Bytes s) (\<lambda>b. ret (VString b))"

definition decodeBigInt :: "rtype \<Rightarrow> (int \<Rightarrow> rval) \<Rightarrow> rval dec" where
  "decodeBigInt typ mk s =
     on_ok (\<lambda>e. wrapStreamError e typ) (stream_Bytes s)
       (\<lambda>b s. if length b > 0 \<and> b ! 0 = 0 then (Inl (wrapStreamError ErrCanonInt typ), s)
              else ret (mk (int (be_val b))) s)"

definition decodeByteSlice :: "rval dec" where
  "decodeByteSlice s = on_ok (\<lambda>e. wrapStreamError e TBytes) (stream_Bytes s) (\<lambda>b. ret (VBytes b))"

definition decodeByteArray :: "nat \<Rightarrow> rval dec" where
  "decodeByteArray vlen s =
     on_ok SErr (stream_Kind s)
       (\<lambda>(k, sz) s.
          case k of
            Byte \<Rightarrow>
              if vlen = 0 then (Inl (DecodeError ''input string too long'' (TByteArray vlen) []), s)
              else if vlen > 1 then
                (Inl (DecodeError ''input string too short'' (TByteArray vlen) []), s)
              else
                (case stream_Uint s of
                   (Inl _, s) \<Rightarrow> ret (VByteArray [0]) s
                 | (Inr bv, s) \<Rightarrow> ret (VByteArray [word_of_nat bv]) s)
          | String \<Rightarrow>
              if vlen < sz then (Inl (DecodeError ''input string too long'' (TByteArray vlen) []), s)
              else if vlen > sz then
                (Inl (DecodeError ''input string too short'' (TByteArray vlen) []), s)
              else
                on_ok SErr (readFull vlen s)
                  (\<lambda>b s. if sz = 1 \<and> b ! 0 < 128
                         then (Inl (wrapStreamError ErrCanonSize (TByteArray vlen)), s)
                         else ret (VByteArray b) s)
          | List \<Rightarrow> (Inl (wrapStreamError ErrExpectedString (TByteArray vlen)), s))"

text \<open>
  The element loop runs until the list is exhausted. The fuel bounds the number of rounds:
  one more than the unread input is enough when every element consumes input.
\<close>

fun decodeSliceElems :: "nat \<Rightarrow> rval dec \<Rightarrow> nat \<Rightarrow> rval list dec" where
  "decodeSliceElems 0 elemdec i s = (Inl DecOutOfFuel, s)"
| "decodeSliceElems (Suc fuel) elemdec i s =
     (case elemdec s of
        (Inl e, s) \<Rightarrow> if e = SErr EOL then ret [] s else (Inl (addErrorContext e (CtxIndex i)), s)
      | (Inr v, s) \<Rightarrow>
          on_ok (\<lambda>e. e) (decodeSliceElems fuel elemdec (Suc i) s) (\<lambda>vs. ret (v # vs)))"

definition decodeListSlice :: "nat \<Rightarrow> rtype \<Rightarrow> rval dec \<Rightarrow> rval dec" where
  "decodeListSlice fuel typ elemdec s =
     on_ok (\<lambda>e. wrapStreamError e typ) (stream_List s)
       (\<lambda>sz s.
          if sz = 0 then on_ok SErr (stream_ListEnd s) (\<lambda>_. ret (VSlice []))
          else
            on_ok (\<lambda>e. e) (decodeSliceElems fuel elemdec 0 s)
              (\<lambda>vs s. on_ok SErr (stream_ListEnd s) (\<lambda>_. ret (VSlice vs))))"

text \<open>The loop of \<open>decodeListArray\<close>; \<open>n\<close> elements are still to come.\<close>

fun decodeArrayElems :: "rval dec \<Rightarrow> rtype \<Rightarrow> nat \<Rightarrow> nat \<Rightarrow> rval list dec" where
  "decodeArrayElems elemdec typ i 0 s = ret [] s"
| "decodeArrayElems elemdec typ i (Suc n) s =
     (case elemdec s of
        (Inl e, s) \<Rightarrow>
          if e = SErr EOL then (Inl (DecodeError ''input list has too few elements'' typ []), s)
          else (Inl (addErrorContext e (CtxIndex i)), s)
      | (Inr v, s) \<Rightarrow>
          on_ok (\<lambda>e. e) (decodeArrayElems elemdec typ (Suc i) n s) (\<lambda>vs. ret (v # vs)))"

definition decodeListArray :: "nat \<Rightarrow> rtype \<Rightarrow> rval dec \<Rightarrow> rval dec" where
  "decodeListArray vlen typ elemdec s =
     on_ok (\<lambda>e. wrapStreamError e typ) (stream_List s)
       (\<lambda>_ s.
          on_ok (\<lambda>e. e) (decodeArrayElems elemdec typ 0 vlen s)
            (\<lambda>vs s. on_ok (\<lambda>e. wrapStreamError e typ) (stream_ListEnd s) (\<lambda>_. ret (VArray vs))))"

fun decodeFields :: "rtype \<Rightarrow> (string \<times> rval dec) list \<Rightarrow> rval list dec" where
  "decodeFields typ [] s = ret [] s"
| "decodeFields typ ((nm, dec) # fs) s =
     (case dec s of
        (Inl e, s) \<Rightarrow>
          if e = SErr EOL then (Inl (DecodeError ''too few elements'' typ []), s)
          else (Inl (addErrorContext e (CtxField nm)), s)
      | (Inr v, s) \<Rightarrow> on_ok (\<lambda>e. e) (decodeFields typ fs s) (\<lambda>vs. ret (v # vs)))"

definition structDecoder :: "rtype \<Rightarrow> (string \<times> rval dec) list \<Rightarrow> rval dec" where
  "structDecoder typ flds s =
     on_ok (\<lambda>e. wrapStreamError e typ) (stream_List s)
       (\<lambda>_ s.
          on_ok (\<lambda>e. e) (decodeFields typ flds s)
            (\<lambda>vs s. on_ok (\<lambda>e. wrapStreamError e typ) (stream_ListEnd s) (\<lambda>_. ret (VStruct vs))))"

definition ptrDecoder :: "rval dec \<Rightarrow> rval dec" where
  "ptrDecoder dec s = on_ok (\<lambda>e. e) (dec s) (\<lambda>v. ret (VPtr (Some v)))"

definition optionalPtrDecoder :: "rval dec \<Rightarrow> rval dec" where
  "optionalPtrDecoder dec s =
     (case stream_Kind s of
        (Inl e, s) \<Rightarrow> (Inl (SErr e), s\<lparr>st_kind := None\<rparr>)
      | (Inr (k, sz), s) \<Rightarrow>
          if sz = 0 \<and> k \<noteq> Byte then (Inr (VPtr None), s\<lparr>st_kind := None\<rparr>)
          else ptrDecoder dec s)"

fun decodeInterface :: "nat \<Rightarrow> rval dec" where
  "decodeInterface 0 s = (Inl DecOutOfFuel, s)"
| "decodeInterface (Suc fuel) s =
     on_ok SErr (stream_Kind s)
       (\<lambda>(k, sz) s.
          if k = List then
            on_ok (\<lambda>e. e) (decodeListSlice (Suc fuel) (TSlice TInterface) (decodeInterface fuel) s)
              (\<lambda>v. ret (VIfc (Some (TSlice TInterface, v))))
          else
            on_ok SErr (stream_Bytes s) (\<lambda>b. ret (VIfc (Some (TBytes, VBytes b)))))"

primrec makeDecoder :: "rtype \<Rightarrow> nat \<Rightarrow> fieldTag \<Rightarrow> rval dec" where
  "makeDecoder TRaw = (\<lambda>fuel tag. decodeRawValue)"
| "makeDecoder (TUint bits) = (\<lambda>fuel tag. decodeUint bits)"
| "makeDecoder TBool = (\<lambda>fuel tag. decodeBool)"
| "makeDecoder TString = (\<lambda>fuel tag. decodeString)"
| "makeDecoder TBigInt = (\<lambda>fuel tag. decodeBigInt TBigInt VBig)"
| "makeDecoder TBigIntPtr = (\<lambda>fuel tag. decodeBigInt TBigIntPtr (\<lambda>i. VBigPtr (Some i)))"
| "makeDecoder TBytes = (\<lambda>fuel tag. decodeByteSlice)"
| "makeDecoder (TByteArray n) = (\<lambda>fuel tag. decodeByteArray n)"
| "makeDecoder (TSlice t) = (\<lambda>fuel tag.
     if tag = TailTag then
       (\<lambda>s. on_ok (\<lambda>e. e) (decodeSliceElems fuel (makeDecoder t fuel NoTag) 0 s) (\<lambda>vs. ret (VSlice vs)))
     else decodeListSlice fuel (TSlice t) (makeDecoder t fuel NoTag))"
| "makeDecoder (TArray n t) = (\<lambda>fuel tag. decodeListArray n (TArray n t) (makeDecoder t fuel NoTag))"
| "makeDecoder (TStruct fs) = (\<lambda>fuel tag.
     structDecoder (TStruct fs)
       (map (\<lambda>(nm, tg, d). (nm, d fuel tg)) (map (map_prod id (map_prod id makeDecoder)) fs)))"
| "makeDecoder (TPtr t) = (\<lambda>fuel tag.
     if tag = NilTag then optionalPtrDecoder (makeDecoder t fuel NoTag)
     else ptrDecoder (makeDecoder t fuel NoTag))"
| "makeDecoder TInterface = (\<lambda>fuel tag. decodeInterface fuel)"

definition stream_Decode :: "nat \<Rightarrow> rtype \<Rightarrow> rval dec" where
  "stream_Decode fuel t s =
     (case makeDecoder t fuel NoTag s of
        (Inl (DecodeError m ty ctx), s) \<Rightarrow>
          (Inl (DecodeError m ty (if length ctx > 0 then ctx @ [CtxType t] else ctx)), s)
      | r \<Rightarrow> r)"

definition DecodeBytes :: "nat \<Rightarrow> rtype \<Rightarrow> bytes \<Rightarrow> decErr + rval" where
  "DecodeBytes fuel t b =
     (case stream_Decode fuel t (NewStream b (length b)) of
        (Inl e, s) \<Rightarrow> Inl e
      | (Inr v, s) \<Rightarrow> if length (st_in s) > 0 then Inl ErrMoreThanOneValue else Inr v)"

end
