(* ===== verification/Rlp_Roundtrip.thy ===== *)
theory Rlp_Roundtrip
  imports Rlp_Stream
begin

text \<open>
  Decoding reads back what the writers produce. The stream operations are first described in
  front of a well-formed item with enough room around it (\<open>facing\<close>, \<open>at\<close>, \<open>past\<close>); the typed
  decoders follow by induction over the reference encoding relation \<open>enc_as\<close>. Reading a byte
  array of length one that holds zero leaves the stream where it was, which the last section
  makes precise.
\<close>

section \<open>Minimal big-endian numbers\<close>

lemma be_val_nat_bytes [simp]: "be_val (nat_bytes n) = n"
proof (induction n rule: nat_bytes.induct)
  case (1 n)
  then show ?case
    by (subst nat_bytes.simps) (simp add: unat_of_nat)
qed

lemma nat_bytes_0 [simp]: "nat_bytes 0 = []"
  by (simp add: nat_bytes.simps)

lemma nat_bytes_Nil_iff [simp]: "nat_bytes n = [] \<longleftrightarrow> n = 0"
  by (subst nat_bytes.simps) simp

lemma nat_bytes_hd: "0 < n \<Longrightarrow> nat_bytes n ! 0 \<noteq> 0"
proof (induction n rule: nat_bytes.induct)
  case (1 n)
  show ?case
  proof (cases "n div 256 = 0")
    case True
    then have "n < 256" by auto
    then have "unat (word_of_nat n :: byte) = n" by (simp add: unat_of_nat)
    then show ?thesis
      using 1(2) \<open>n < 256\<close> by (auto simp: nat_bytes.simps [of n])
  next
    case False
    then have "nat_bytes (n div 256) ! 0 \<noteq> 0"
      using 1 by simp
    then show ?thesis
      using 1(2) False by (simp add: nat_bytes.simps [of n] nth_append)
  qed
qed

lemma length_nat_bytes: "n < 256 ^ k \<Longrightarrow> length (nat_bytes n) \<le> k"
proof (induction k arbitrary: n)
  case (Suc k)
  then have "n div 256 < 256 ^ k"
    by (simp add: less_mult_imp_div_less mult.commute)
  then show ?case
    using Suc by (cases "n = 0") (simp_all add: nat_bytes.simps [of n])
qed simp

lemma putint_nat_bytes: "0 < unat i \<Longrightarrow> putint i = nat_bytes (unat i)"
proof -
  assume "0 < unat i"
  moreover have "unat i < 256 ^ 8"
    using unsigned_less [where ?'a = nat, of i] by simp
  ultimately show ?thesis
    using length_nat_bytes [of "unat i" 8] nat_bytes_hd [of "unat i"]
    by (intro putint_canonical) auto
qed

lemma nat_bytes_small: "0 < n \<Longrightarrow> n < 256 \<Longrightarrow> nat_bytes n = [word_of_nat n]"
  by (simp add: nat_bytes.simps [of n])

lemma nat_bytes_single: "length (nat_bytes n) = 1 \<Longrightarrow> n < 256"
  using be_val_bound [of "nat_bytes n"] by simp

lemma single_byte_iff: "length (nat_bytes n) = 1 \<and> nat_bytes n ! 0 \<le> 0x7F \<longleftrightarrow> 0 < n \<and> n < 128"
proof
  assume a: "length (nat_bytes n) = 1 \<and> nat_bytes n ! 0 \<le> 0x7F"
  then have n: "0 < n" "n < 256" using nat_bytes_single by (auto intro: gr0I)
  then show "0 < n \<and> n < 128"
    using a by (simp add: nat_bytes_small word_le_nat_alt unat_of_nat)
next
  assume "0 < n \<and> n < 128"
  then show "length (nat_bytes n) = 1 \<and> nat_bytes n ! 0 \<le> 0x7F"
    by (simp add: nat_bytes_small word_le_nat_alt unat_of_nat)
qed

lemma eb_adds_writeUint: "eb_adds w (rlp_enc (RStr (nat_bytes (unat i)))) (writeUint i w)"
proof -
  consider "unat i = 0" | "0 < unat i" "unat i < 128" | "128 \<le> unat i" by linarith
  then show ?thesis
  proof cases
    case 1
    then have "i = 0" by (simp add: unat_eq_zero)
    then show ?thesis
      using eb_adds_write [of w "[0x80]"] by (simp add: writeUint_def puthead_def)
  next
    case 2
    moreover have "i < 128" "i \<noteq> 0" using 2 by (auto simp: word_less_nat_alt)
    moreover have "length (nat_bytes (unat i)) = 1 \<and> nat_bytes (unat i) ! 0 \<le> 0x7F"
      using 2 single_byte_iff by blast
    ultimately show ?thesis
      using eb_adds_write [of w "[word_of_nat (unat i)]"] nat_bytes_small [of "unat i"]
      by (simp add: writeUint_def)
  next
    case 3
    then have "\<not> i < 128" "i \<noteq> 0" by (auto simp: word_less_nat_alt)
    moreover have "\<not> (length (nat_bytes (unat i)) = 1 \<and> nat_bytes (unat i) ! 0 \<le> 0x7F)"
      using 3 single_byte_iff [of "unat i"] by linarith
    moreover have "length (putint i) < 56"
      using putint_bounds [of i] by simp
    moreover have "putint i = nat_bytes (unat i)"
      using 3 by (intro putint_nat_bytes) simp
    ultimately show ?thesis
      using eb_adds_write [of w "(0x80 + word_of_nat (length (putint i))) # putint i"]
      by (auto simp: writeUint_def Let_def puthead_short)
  qed
qed

lemma eb_adds_writeBigInt:
  assumes "0 \<le> i" "length (nat_bytes (nat i)) < 2 ^ 63"
  shows "\<exists>w'. writeBigInt i w = Inr w' \<and> eb_adds w (rlp_enc (RStr (nat_bytes (nat i)))) w'"
proof (cases "i = 0")
  case True
  then show ?thesis
    using eb_adds_write [of w "[0x80]"] by (simp add: writeBigInt_def puthead_def)
next
  case False
  then show ?thesis
    using assms eb_adds_string [of "nat_bytes (nat i)" w] by (simp add: writeBigInt_def)
qed

section \<open>Reading when there is room\<close>

text \<open>\<open>room n s\<close>: \<open>n\<close> more bytes fit in the innermost list and the input limit.\<close>

definition room :: "nat \<Rightarrow> stream \<Rightarrow> bool" where
  "room n s \<longleftrightarrow>
     (case st_stack s of [] \<Rightarrow> True | (pos, sz) # _ \<Rightarrow> pos + n \<le> sz)
     \<and> (st_limited s \<longrightarrow> n \<le> st_remaining s)"

text \<open>\<open>adv n s s'\<close>: \<open>s'\<close> is \<open>s\<close> after \<open>n\<close> bytes of input.\<close>

definition adv :: "nat \<Rightarrow> stream \<Rightarrow> stream \<Rightarrow> bool" where
  "adv n s s' \<longleftrightarrow>
     st_in s' = drop n (st_in s) \<and> st_stack s' = bump n (st_stack s)
     \<and> st_limited s' = st_limited s
     \<and> st_remaining s' = (if st_limited s then st_remaining s - n else st_remaining s)"

lemma bump_bump [simp]: "bump n (bump m st) = bump (m + n) st"
  by (cases st) auto

lemma bump_0 [simp]: "bump 0 st = st"
  by (cases st) auto

lemma adv_trans: "adv m s t \<Longrightarrow> adv n t u \<Longrightarrow> adv (m + n) s u"
  by (auto simp: adv_def add.commute)

lemma adv_0: "adv 0 s s"
  by (simp add: adv_def)

lemma room_adv: "room (m + n) s \<Longrightarrow> adv m s t \<Longrightarrow> room n t"
  by (cases "st_stack s") (auto simp: room_def adv_def)

lemma room_less: "room n s \<Longrightarrow> m \<le> n \<Longrightarrow> room m s"
  by (auto simp: room_def split: list.splits)

definition after :: "nat \<Rightarrow> stream \<Rightarrow> stream" where
  "after n s = s\<lparr>st_kind := None, st_in := drop n (st_in s), st_stack := bump n (st_stack s),
     st_remaining := if st_limited s then st_remaining s - n else st_remaining s\<rparr>"

lemma after_simps [simp]:
  "st_kind (after n s) = None" "st_byteval (after n s) = st_byteval s" "adv n s (after n s)"
  "st_in (after n s) = drop n (st_in s)" "st_stack (after n s) = bump n (st_stack s)"
  by (simp_all add: after_def adv_def)

lemma willRead_room:
  "room n s \<Longrightarrow> willRead n s = (Inr (), (after n s)\<lparr>st_in := st_in s\<rparr>)"
  by (cases "st_stack s") (auto simp: room_def willRead_def willRead_limit_def after_def Let_def)

lemma readFull_room:
  "room n s \<Longrightarrow> n \<le> length (st_in s) \<Longrightarrow> readFull n s = (Inr (take n (st_in s)), after n s)"
  by (simp add: readFull_def willRead_room after_def)

lemma readByte_room:
  "room 1 s \<Longrightarrow> st_in s = b # r \<Longrightarrow> readByte s = (Inr b, after 1 s)"
  by (simp add: readByte_def willRead_room after_def)

lemma readUint_room:
  assumes "room n s" "n \<le> length (st_in s)" "1 \<le> n" "st_in s ! 0 \<noteq> 0"
  shows "readUint n s = (Inr (be_val (take n (st_in s))), after n s)"
proof (cases "n = 1")
  case True
  then obtain b r where "st_in s = b # r"
    using assms(2) by (cases "st_in s") auto
  then show ?thesis
    using assms(1) True readByte_room [of s b r] by (simp add: readUint_def be_val_def)
next
  case False
  then show ?thesis
    using assms by (simp add: readUint_def readFull_room)
qed
section \<open>The type tag of an item\<close>

definition item :: "kind \<Rightarrow> bytes \<Rightarrow> bytes" where
  "item k c = item_head k c @ c"

definition tag_len :: "kind \<Rightarrow> bytes \<Rightarrow> nat" where
  "tag_len k c = (if k = Byte then 1 else length (item_head k c))"

definition body_len :: "kind \<Rightarrow> bytes \<Rightarrow> nat" where
  "body_len k c = (if k = Byte then 0 else length c)"

definition good_item :: "kind \<Rightarrow> bytes \<Rightarrow> bool" where
  "good_item k c \<longleftrightarrow> item_ok k c \<and> length c < 2 ^ 63"

text \<open>\<open>facing k c s\<close>: the stream is in front of this item and has room for it.\<close>

definition facing :: "kind \<Rightarrow> bytes \<Rightarrow> stream \<Rightarrow> bool" where
  "facing k c s \<longleftrightarrow>
     good_item k c \<and> st_kind s = None \<and> (\<exists>r. st_in s = item k c @ r) \<and> room (length (item k c)) s"

text \<open>\<open>tagged k c s t\<close>: \<open>t\<close> is \<open>s\<close> after its type tag was read.\<close>

definition tagged :: "kind \<Rightarrow> bytes \<Rightarrow> stream \<Rightarrow> stream \<Rightarrow> bool" where
  "tagged k c s t \<longleftrightarrow>
     st_kind t = Some k \<and> st_kinderr t = None \<and> st_size t = body_len k c
     \<and> (k = Byte \<longrightarrow> st_byteval t = c ! 0) \<and> adv (tag_len k c) s t"

lemma length_item: "good_item k c \<Longrightarrow> length (item k c) = tag_len k c + body_len k c"
  by (cases k) (auto simp: item_def tag_len_def body_len_def good_item_def)

lemma tag_len_pos: "0 < tag_len k c"
  by (cases k) (auto simp: tag_len_def puthead_def Let_def)

lemma item_nonempty: "good_item k c \<Longrightarrow> item k c \<noteq> []"
  using length_item [of k c] tag_len_pos [of k c] by force

lemma readKind_long_room:
  assumes "st_in s = putint i @ r" "room (intsize i) s" "56 \<le> unat i"
  shows "readKind_long k (intsize i) s = ((k, unat i, None), after (intsize i) s)"
proof -
  have "1 \<le> intsize i" "putint i ! 0 \<noteq> 0" "length (putint i) = intsize i"
    using putint_bounds [of i] putint_nonzero [of i] assms(3) length_putint [of i] by auto
  then have "readUint (intsize i) s = (Inr (unat i), after (intsize i) s)"
    using readUint_room [of "intsize i" s] assms by (simp add: nth_append)
  then show ?thesis
    using assms(3) by (simp add: readKind_long_def)
qed

lemma adv_update [simp]:
  "adv n s (t\<lparr>st_byteval := x\<rparr>) = adv n s t" "adv n s (t\<lparr>st_kind := y\<rparr>) = adv n s t"
  "adv n s (t\<lparr>st_size := z\<rparr>) = adv n s t" "adv n s (t\<lparr>st_kinderr := w\<rparr>) = adv n s t"
  "adv n (s\<lparr>st_kinderr := w\<rparr>) t = adv n s t"
  by (simp_all add: adv_def)

lemma room_update [simp]:
  "room n (s\<lparr>st_byteval := x\<rparr>) = room n s" "room n (s\<lparr>st_kind := y\<rparr>) = room n s"
  "room n (s\<lparr>st_size := z\<rparr>) = room n s" "room n (s\<lparr>st_kinderr := w\<rparr>) = room n s"
  by (simp_all add: room_def)

lemma readKind_long_tag:
  assumes "st_in s = b # putint (word_of_nat (length c)) @ r" "56 \<le> length c" "length c < 2 ^ 63"
    "room (Suc (intsize (word_of_nat (length c)))) s"
  shows "\<exists>t. readKind_long k (intsize (word_of_nat (length c))) ((after 1 s)\<lparr>st_byteval := 0\<rparr>) =
      ((k, length c, None), t) \<and> adv (Suc (intsize (word_of_nat (length c)))) s t"
proof -
  let ?i = "word_of_nat (length c) :: uint64" and ?s = "(after 1 s)\<lparr>st_byteval := 0\<rparr>"
  have u: "unat ?i = length c" using assms(3) by (rule unat_word64)
  have "st_in ?s = putint ?i @ r" "room (intsize ?i) ?s"
    using assms(1,4) room_adv [of 1 "intsize ?i" s "after 1 s"] by simp_all
  then have "readKind_long k (intsize ?i) ?s = ((k, length c, None), after (intsize ?i) ?s)"
    using readKind_long_room [of ?s ?i r k] u assms(2) by simp
  moreover have "adv (Suc (intsize ?i)) s (after (intsize ?i) ?s)"
    using adv_trans [of 1 s ?s "intsize ?i"] by simp
  ultimately show ?thesis by blast
qed

lemma stream_readKind_facing:
  assumes "facing k c s"
  shows "\<exists>t. stream_readKind s = ((k, body_len k c, None), t) \<and> adv (tag_len k c) s t
    \<and> (k = Byte \<longrightarrow> st_byteval t = c ! 0)"
proof -
  obtain r where g: "item_ok k c" "length c < 2 ^ 63" and i: "st_in s = item_head k c @ c @ r"
    and rm: "room (tag_len k c + body_len k c) s"
    using assms length_item [of k c] by (auto simp: facing_def good_item_def item_def)
  have r1: "room 1 s"
    by (rule room_less [OF rm]) (use tag_len_pos [of k c] in simp)
  note rb = readByte_room [OF r1]
  show ?thesis
  proof (cases "k = Byte")
    case True
    then show ?thesis
      using g i by (cases c) (auto simp: stream_readKind_def rb tag_len_def body_len_def Let_def)
  next
    case False
    show ?thesis
    proof (cases "length c < 56")
      case True
      then show ?thesis
        using False i
        by (cases k) (auto simp: stream_readKind_def rb tag_len_def body_len_def Let_def
            puthead_short tags)
    next
      case long: False
      let ?n = "intsize (word_of_nat (length c))"
      have n: "1 \<le> ?n" "?n \<le> 8"
        using putint_bounds [of "word_of_nat (length c)"] by (simp_all add: length_putint)
      have t: "tag_len k c = Suc ?n"
        using False long g(2) by (cases k) (simp_all add: tag_len_def puthead_long length_putint)
      then have rs: "room (Suc ?n) s" using rm room_less by (metis le_add1)
      show ?thesis
        using False long g(2) i t readKind_long_tag [OF _ _ g(2) rs, of _ "c @ r" k] n
        by (cases k) (auto simp: stream_readKind_def rb body_len_def Let_def puthead_long tags)
    qed
  qed
qed

lemma stream_Kind_facing:
  assumes "facing k c s"
  shows "\<exists>t. stream_Kind s = (Inr (k, body_len k c), t) \<and> tagged k c s t"
proof -
  let ?s = "s\<lparr>st_kinderr := None\<rparr>"
  have "facing k c ?s" using assms by (simp add: facing_def)
  then obtain t where t: "stream_readKind ?s = ((k, body_len k c, None), t)"
      "adv (tag_len k c) s t" "k = Byte \<longrightarrow> st_byteval t = c ! 0"
    using stream_readKind_facing by fastforce
  have len: "length (item k c) = tag_len k c + body_len k c" and rm: "room (length (item k c)) s"
    and kn: "st_kind s = None"
    using assms length_item by (auto simp: facing_def)
  have "room (body_len k c) t"
    using rm t(2) room_adv len by metis
  then have chk: "kind_check (t\<lparr>st_kind := Some k, st_size := body_len k c, st_kinderr := None\<rparr>) = None"
    by (auto simp: kind_check_def room_def split: list.splits)
  have "\<not> (case st_stack s of [] \<Rightarrow> False | (pos, sz) # _ \<Rightarrow> pos = sz)"
    using rm len tag_len_pos [of k c] by (auto simp: room_def split: list.splits)
  then show ?thesis
    using t kn chk by (auto simp: stream_Kind_def tagged_def Let_def)
qed

lemma stream_Kind_tagged: "tagged k c s t \<Longrightarrow> stream_Kind t = (Inr (k, body_len k c), t)"
  by (simp add: stream_Kind_def tagged_def)

text \<open>In front of an item, with or without its tag read; and past an item.\<close>

definition at :: "kind \<Rightarrow> bytes \<Rightarrow> stream \<Rightarrow> stream \<Rightarrow> bool" where
  "at k c s t \<longleftrightarrow> facing k c s \<and> (t = s \<or> tagged k c s t)"

definition past :: "nat \<Rightarrow> stream \<Rightarrow> stream \<Rightarrow> bool" where
  "past n s t \<longleftrightarrow> adv n s t \<and> st_kind t = None"

lemma stream_Kind_at:
  "at k c s t \<Longrightarrow> \<exists>u. stream_Kind t = (Inr (k, body_len k c), u) \<and> tagged k c s u \<and> at k c s u"
  using stream_Kind_facing [of k c s] stream_Kind_tagged [of k c s t] by (auto simp: at_def)

lemma tagged_body:
  assumes "facing k c s" "tagged k c s u" "k \<noteq> Byte"
  shows "\<exists>r. st_in u = c @ r" "room (length c) u"
proof -
  obtain r where "st_in s = item_head k c @ c @ r" "room (tag_len k c + body_len k c) s"
    using assms(1) length_item [of k c] by (auto simp: facing_def item_def)
  moreover have "tag_len k c = length (item_head k c)" "body_len k c = length c"
    using assms(3) by (simp_all add: tag_len_def body_len_def)
  moreover have "adv (tag_len k c) s u" using assms(2) by (simp add: tagged_def)
  ultimately show "\<exists>r. st_in u = c @ r" "room (length c) u"
    using room_adv by (auto simp: adv_def)
qed

lemma past_body:
  assumes "facing k c s" "tagged k c s u" "adv (body_len k c) u t" "st_kind t = None"
  shows "past (length (item k c)) s t"
  using assms adv_trans [of "tag_len k c" s u "body_len k c" t] length_item [of k c]
  by (simp add: past_def tagged_def facing_def)

lemma readFull_tagged:
  assumes "facing k c s" "tagged k c s u" "k \<noteq> Byte"
  shows "readFull (length c) u = (Inr c, after (length c) u)"
    "past (length (item k c)) s (after (length c) u)"
proof -
  obtain r where "st_in u = c @ r" using tagged_body assms by blast
  then show "readFull (length c) u = (Inr c, after (length c) u)"
    using readFull_room [OF tagged_body(2) [OF assms]] by simp
  show "past (length (item k c)) s (after (length c) u)"
    using past_body [OF assms(1,2), of "after (length c) u"] assms(3) by (simp add: body_len_def)
qed

lemma byte_content:
  "facing Byte c s \<Longrightarrow> tagged Byte c s u \<Longrightarrow> [st_byteval u] = c \<and> past (length (item Byte c)) s (u\<lparr>st_kind := None\<rparr>)"
  using length_item [of Byte c]
  by (cases c) (auto simp: facing_def good_item_def tagged_def past_def tag_len_def body_len_def)

lemma stream_Bytes_at:
  assumes "at k c s t" "k \<noteq> List"
  shows "\<exists>u. stream_Bytes t = (Inr c, u) \<and> past (length (item k c)) s u"
proof -
  obtain u where u: "stream_Kind t = (Inr (k, body_len k c), u)" "tagged k c s u"
    using stream_Kind_at assms by blast
  have f: "facing k c s" using assms(1) by (simp add: at_def)
  show ?thesis
  proof (cases k)
    case Byte
    then show ?thesis using u byte_content f by (auto simp: stream_Bytes_def)
  next
    case String
    then have "\<not> (length c = 1 \<and> c ! 0 < 128)"
      using f by (auto simp: facing_def good_item_def)
    then show ?thesis
      using u String readFull_tagged [OF f u(2)] by (auto simp: stream_Bytes_def body_len_def)
  qed (use assms in simp)
qed

lemma stream_Raw_at:
  assumes "at k c s t"
  shows "\<exists>u. stream_Raw t = (Inr (item k c), u) \<and> past (length (item k c)) s u"
proof -
  obtain u where u: "stream_Kind t = (Inr (k, body_len k c), u)" "tagged k c s u"
    using stream_Kind_at assms by blast
  have f: "facing k c s" using assms(1) by (simp add: at_def)
  show ?thesis
  proof (cases "k = Byte")
    case True
    then show ?thesis using u byte_content f by (auto simp: stream_Raw_def item_def)
  next
    case False
    then show ?thesis
      using u readFull_tagged [OF f u(2)] by (cases k) (auto simp: stream_Raw_def item_def body_len_def)
  qed
qed

definition str_kind :: "bytes \<Rightarrow> kind" where
  "str_kind c = (if length c = 1 \<and> c ! 0 \<le> 0x7F then Byte else String)"

lemma rlp_enc_str: "rlp_enc (RStr c) = item (str_kind c) c"
  by (simp add: item_def str_kind_def)

lemma str_item_ok: "item_ok (str_kind c) c"
  by (simp add: str_kind_def byte_le_7F)

lemma stream_uint_at:
  assumes "at (str_kind c) c s t" "c = nat_bytes n" "n < 2 ^ bits" "bits \<in> {8, 16, 32, 64}"
  shows "\<exists>u. stream_uint bits t = (Inr n, u) \<and> past (length (item (str_kind c) c)) s u"
proof -
  let ?k = "str_kind c"
  obtain u where u: "stream_Kind t = (Inr (?k, body_len ?k c), u)" "tagged ?k c s u"
    using stream_Kind_at assms by blast
  have f: "facing ?k c s" using assms(1) by (simp add: at_def)
  have "n < 256 ^ (bits div 8)" using assms(3,4) by auto
  then have len: "length c \<le> bits div 8" using assms(2) length_nat_bytes by blast
  show ?thesis
  proof (cases "0 < n \<and> n < 128")
    case True
    then have k: "?k = Byte" and c: "c = [word_of_nat n]"
      using single_byte_iff [of n] nat_bytes_small [of n] assms(2) by (auto simp: str_kind_def)
    moreover have "unat (word_of_nat n :: byte) = n"
      using True by (simp add: unat_of_nat)
    moreover have "(word_of_nat n :: byte) \<noteq> 0"
      using True calculation by (metis less_irrefl unat_0)
    ultimately show ?thesis
      using u byte_content [of c s u] f by (auto simp: stream_uint_def)
  next
    case False
    then have k: "?k = String" using single_byte_iff [of n] assms(2) by (auto simp: str_kind_def)
    obtain r where r: "st_in u = c @ r" "room (length c) u"
      using tagged_body [OF f u(2)] k by auto
    have p: "past (length (item ?k c)) s (after (length c) u)"
      using readFull_tagged(2) [OF f u(2)] k by simp
    show ?thesis
    proof (cases "n = 0")
      case True
      then have "past (length (item ?k c)) s (u\<lparr>st_kind := None\<rparr>)"
        using past_body [OF f u(2), of "u\<lparr>st_kind := None\<rparr>"] k assms(2) adv_0 by (simp add: body_len_def)
      then show ?thesis
        using True u(1) k assms(2) by (simp add: stream_uint_def readUint_def body_len_def)
    next
      case False
      then have "readUint (length c) u = (Inr n, after (length c) u)"
        using readUint_room [OF r(2)] r(1) assms(2) nat_bytes_hd [of n]
        by (auto simp: nth_append Suc_le_eq)
      then show ?thesis
        using u(1) k p len \<open>\<not> (0 < n \<and> n < 128)\<close> False by (simp add: stream_uint_def body_len_def)
    qed
  qed
qed

lemma stream_Bool_at:
  assumes "at (str_kind c) c s t" "c = (if b then [1] else [])"
  shows "\<exists>u. stream_Bool t = (Inr b, u) \<and> past (length (item (str_kind c) c)) s u"
proof -
  have c: "c = nat_bytes (if b then 1 else 0)"
    using assms(2) by (simp add: nat_bytes_small)
  show ?thesis
    using stream_uint_at [OF assms(1) c, of 8] by (cases b) (auto simp: stream_Bool_def)
qed

section \<open>Lists\<close>

definition opened :: "bytes \<Rightarrow> stream \<Rightarrow> stream \<Rightarrow> bool" where
  "opened c s u \<longleftrightarrow>
     (\<exists>t. tagged List c s t
        \<and> u = t\<lparr>st_stack := (0, length c) # st_stack t, st_kind := None, st_size := 0\<rparr>)"

text \<open>\<open>holds_rest b s\<close>: inside a list of which exactly \<open>b\<close> is still to be read.\<close>

definition holds_rest :: "bytes \<Rightarrow> stream \<Rightarrow> bool" where
  "holds_rest b s \<longleftrightarrow>
     st_kind s = None \<and> (\<exists>r. st_in s = b @ r) \<and> room (length b) s
     \<and> (\<exists>pos sz rest. st_stack s = (pos, sz) # rest \<and> pos + length b = sz)"

lemma stream_List_at:
  assumes "at List c s t"
  shows "\<exists>u. stream_List t = (Inr (length c), u) \<and> opened c s u \<and> holds_rest c u"
proof -
  obtain u where u: "stream_Kind t = (Inr (List, body_len List c), u)" "tagged List c s u"
    using stream_Kind_at assms by blast
  have f: "facing List c s" using assms(1) by (simp add: at_def)
  let ?u = "u\<lparr>st_stack := (0, length c) # st_stack u, st_kind := None, st_size := 0\<rparr>"
  have "holds_rest c ?u"
    using tagged_body [OF f u(2)] by (auto simp: holds_rest_def room_def)
  then show ?thesis
    using u by (auto simp: stream_List_def opened_def body_len_def)
qed

lemma stream_ListEnd_past:
  assumes "facing List c s" "opened c s u" "past (length c) u v"
  shows "\<exists>w. stream_ListEnd v = (Inr (), w) \<and> past (length (item List c)) s w"
proof -
  obtain t where t: "tagged List c s t"
    "u = t\<lparr>st_stack := (0, length c) # st_stack t, st_kind := None, st_size := 0\<rparr>"
    using assms(2) by (auto simp: opened_def)
  let ?w = "v\<lparr>st_stack := bump (length c) (st_stack t), st_kind := None, st_size := 0\<rparr>"
  have "stream_ListEnd v = (Inr (), ?w)"
    using assms(3) t(2) by (simp add: stream_ListEnd_def past_def adv_def)
  moreover have "adv (length c) t ?w"
    using assms(3) t(2) by (simp add: past_def adv_def)
  then have "past (length (item List c)) s ?w"
    using past_body [OF assms(1) t(1)] by (simp add: body_len_def)
  ultimately show ?thesis by blast
qed

section \<open>Decoders of items\<close>

definition dec_ok :: "rval dec \<Rightarrow> rval \<Rightarrow> bytes \<Rightarrow> bool" where
  "dec_ok d v e \<longleftrightarrow>
     (\<forall>k c s t. e = item k c \<longrightarrow> at k c s t \<longrightarrow> (\<exists>u. d t = (Inr v, u) \<and> past (length e) s u))"

definition is_item :: "bytes \<Rightarrow> bool" where
  "is_item e \<longleftrightarrow> (\<exists>k c. e = item k c \<and> good_item k c)"

definition eol :: "rval dec \<Rightarrow> bool" where
  "eol d \<longleftrightarrow>
     (\<forall>s p rest. st_kind s = None \<longrightarrow> st_stack s = (p, p) # rest \<longrightarrow>
        d s = (Inl (SErr EOL), s\<lparr>st_kinderr := None\<rparr>))"

lemma dec_okD: "dec_ok d v e \<Longrightarrow> e = item k c \<Longrightarrow> at k c s t \<Longrightarrow> \<exists>u. d t = (Inr v, u) \<and> past (length e) s u"
  by (simp add: dec_ok_def)

lemma holds_rest_step:
  assumes "holds_rest (e @ b) s" "is_item e" "dec_ok d v e"
  shows "\<exists>u. d s = (Inr v, u) \<and> past (length e) s u \<and> holds_rest b u"
proof -
  obtain k c where e: "e = item k c" "good_item k c"
    using assms(2) by (auto simp: is_item_def)
  have "room (length e) s"
    using assms(1) room_less by (auto simp: holds_rest_def)
  then have "at k c s s"
    using assms(1) e by (auto simp: at_def facing_def holds_rest_def)
  then obtain u where u: "d s = (Inr v, u)" "past (length e) s u"
    using assms(3) e(1) dec_okD by blast
  moreover have "holds_rest b u"
    using assms(1) u(2) room_adv [of "length e" "length b" s u]
    by (auto simp: holds_rest_def past_def adv_def)
  ultimately show ?thesis by blast
qed

lemma past_trans: "past m s t \<Longrightarrow> past n t u \<Longrightarrow> past (m + n) s u"
  using adv_trans by (auto simp: past_def)

lemma decodeSliceElems_ok:
  assumes "list_all2 (\<lambda>v e. dec_ok d v e \<and> is_item e) vs es" "eol d" "length vs < fuel"
    "holds_rest (concat es) s"
  shows "\<exists>u. decodeSliceElems fuel d i s = (Inr vs, u) \<and> past (length (concat es)) s u"
  using assms
proof (induction vs es arbitrary: fuel i s rule: list_all2_induct)
  case Nil
  then obtain f where f: "fuel = Suc f" by (cases fuel) auto
  obtain p rest where "st_stack s = (p, p) # rest" "st_kind s = None"
    using Nil by (auto simp: holds_rest_def)
  then have "d s = (Inl (SErr EOL), s\<lparr>st_kinderr := None\<rparr>)"
    using Nil(1) by (simp add: eol_def)
  then show ?case
    using f \<open>st_kind s = None\<close> adv_0 [of s] by (simp add: ret_def past_def)
next
  case (Cons v vs e es)
  then obtain f where f: "fuel = Suc f" by (cases fuel) auto
  obtain u where u: "d s = (Inr v, u)" "past (length e) s u" "holds_rest (concat es) u"
    using holds_rest_step [of e "concat es" s d v] Cons by auto
  obtain w where w: "decodeSliceElems f d (Suc i) u = (Inr vs, w)" "past (length (concat es)) u w"
    using Cons.IH [of f u "Suc i"] Cons.prems u(3) f by auto
  show ?case
    using f u w past_trans [OF u(2) w(2)] by (simp add: on_ok_def ret_def)
qed

lemma decodeArrayElems_ok:
  assumes "list_all2 (\<lambda>v e. dec_ok d v e \<and> is_item e) vs es" "holds_rest (concat es) s"
  shows "\<exists>u. decodeArrayElems d typ i (length vs) s = (Inr vs, u) \<and> past (length (concat es)) s u"
  using assms
proof (induction vs es arbitrary: i s rule: list_all2_induct)
  case Nil
  then show ?case
    using adv_0 [of s] by (simp add: ret_def past_def holds_rest_def)
next
  case (Cons v vs e es)
  obtain u where u: "d s = (Inr v, u)" "past (length e) s u" "holds_rest (concat es) u"
    using holds_rest_step [of e "concat es" s d v] Cons by auto
  obtain w where w: "decodeArrayElems d typ (Suc i) (length vs) u = (Inr vs, w)"
      "past (length (concat es)) u w"
    using Cons.IH [of u "Suc i"] u(3) by auto
  show ?case
    using u w past_trans [OF u(2) w(2)] by (simp add: on_ok_def ret_def)
qed

definition takes :: "rval dec \<Rightarrow> rval \<Rightarrow> bytes \<Rightarrow> bytes \<Rightarrow> bool" where
  "takes d v e b \<longleftrightarrow>
     (\<forall>s. holds_rest (e @ b) s \<longrightarrow> (\<exists>u. d s = (Inr v, u) \<and> past (length e) s u))"

fun fields_ok :: "(string \<times> rval dec) list \<Rightarrow> rval list \<Rightarrow> bytes list \<Rightarrow> bool" where
  "fields_ok [] [] [] = True"
| "fields_ok ((nm, d) # fs) (v # vs) (e # es) = (takes d v e (concat es) \<and> fields_ok fs vs es)"
| "fields_ok _ _ _ = False"

lemma takesI: "dec_ok d v e \<Longrightarrow> is_item e \<Longrightarrow> takes d v e b"
  using holds_rest_step unfolding takes_def by blast

lemma holds_rest_past: "holds_rest (e @ b) s \<Longrightarrow> past (length e) s u \<Longrightarrow> holds_rest b u"
  using room_adv [of "length e" "length b" s u] by (auto simp: holds_rest_def past_def adv_def)

lemma decodeFields_ok:
  "fields_ok fs vs es \<Longrightarrow> holds_rest (concat es) s \<Longrightarrow>
   \<exists>u. decodeFields typ fs s = (Inr vs, u) \<and> past (length (concat es)) s u"
proof (induction fs vs es arbitrary: s rule: fields_ok.induct)
  case 1
  then show ?case
    using adv_0 [of s] by (simp add: ret_def past_def holds_rest_def)
next
  case (2 nm d fs v vs e es)
  then obtain u where u: "d s = (Inr v, u)" "past (length e) s u" "holds_rest (concat es) u"
    using holds_rest_past [of e "concat es" s] by (auto simp: takes_def)
  obtain w where w: "decodeFields typ fs u = (Inr vs, w)" "past (length (concat es)) u w"
    using "2.IH" [of u] 2 u(3) by auto
  show ?case
    using u w past_trans [OF u(2) w(2)] by (simp add: on_ok_def ret_def)
qed simp_all

section \<open>Encodings of typed values\<close>

text \<open>
  \<open>enc_as t tag v e\<close>: \<open>e\<close> is the encoding of the value \<open>v\<close> of type \<open>t\<close> in a field with this tag,
  and \<open>v\<close> is one of the values that survive decoding. Not among them are: negative big
  integers, which have no encoding; nil pointers outside a field tagged \<open>nil\<close>, which decode to
  a pointer to the zero value, and pointers to empty values inside one, which decode to nil;
  interface values of another dynamic type than byte slices and lists of interfaces; and the
  one-byte array holding zero, see \<open>byte_array_zero_not_consumed\<close>.
\<close>

primrec nil_enc :: "rtype \<Rightarrow> bytes" where
  "nil_enc (TByteArray n) = [0x80]"
| "nil_enc (TStruct fs) = [0xC0]"
| "nil_enc (TArray n t) = [0xC0]"
| "nil_enc TRaw = []"
| "nil_enc (TUint b) = [0x80]"
| "nil_enc TBool = [0x80]"
| "nil_enc TString = [0x80]"
| "nil_enc TBigInt = [0x80]"
| "nil_enc TBigIntPtr = [0x80]"
| "nil_enc TBytes = [0x80]"
| "nil_enc (TSlice t) = [0xC0]"
| "nil_enc (TPtr t) = nil_enc t"
| "nil_enc TInterface = [0xC0]"

inductive enc_as :: "rtype \<Rightarrow> fieldTag \<Rightarrow> rval \<Rightarrow> bytes \<Rightarrow> bool"
  and enc_elems :: "rtype \<Rightarrow> rval list \<Rightarrow> bytes list \<Rightarrow> bool"
  and enc_fields :: "(string \<times> fieldTag \<times> rtype) list \<Rightarrow> rval list \<Rightarrow> bytes list \<Rightarrow> bool" where
  raw: "Split b = Inr (k, c, []) \<Longrightarrow> enc_as TRaw tag (VRaw b) b"
| uint: "bits \<in> {8, 16, 32, 64} \<Longrightarrow> n < 2 ^ bits \<Longrightarrow>
    enc_as (TUint bits) tag (VUint n) (rlp_enc (RStr (nat_bytes n)))"
| bool: "enc_as TBool tag (VBool b) (rlp_enc (RStr (if b then [1] else [])))"
| str: "enc_as TString tag (VString b) (rlp_enc (RStr b))"
| big: "0 \<le> i \<Longrightarrow> enc_as TBigInt tag (VBig i) (rlp_enc (RStr (nat_bytes (nat i))))"
| bigptr: "0 \<le> i \<Longrightarrow> enc_as TBigIntPtr tag (VBigPtr (Some i)) (rlp_enc (RStr (nat_bytes (nat i))))"
| bytes: "enc_as TBytes tag (VBytes b) (rlp_enc (RStr b))"
| bytearray: "b \<noteq> [0] \<Longrightarrow> enc_as (TByteArray (length b)) tag (VByteArray b) (rlp_enc (RStr b))"
| slice: "tag \<noteq> TailTag \<Longrightarrow> enc_elems t vs es \<Longrightarrow>
    enc_as (TSlice t) tag (VSlice vs) (item List (concat es))"
| tail: "enc_elems t vs es \<Longrightarrow> enc_as (TSlice t) TailTag (VSlice vs) (concat es)"
| array: "enc_elems t vs es \<Longrightarrow>
    enc_as (TArray (length vs) t) tag (VArray vs) (item List (concat es))"
| struct: "enc_fields fs vs es \<Longrightarrow> enc_as (TStruct fs) tag (VStruct vs) (item List (concat es))"
| ptr: "tag \<noteq> NilTag \<Longrightarrow> enc_as t NoTag v e \<Longrightarrow> enc_as (TPtr t) tag (VPtr (Some v)) e"
| optsome: "enc_as t NoTag v e \<Longrightarrow> e \<noteq> [0x80] \<Longrightarrow> e \<noteq> [0xC0] \<Longrightarrow>
    enc_as (TPtr t) NilTag (VPtr (Some v)) e"
| optnone: "nil_enc t \<noteq> [] \<Longrightarrow> enc_as (TPtr t) NilTag (VPtr None) (nil_enc t)"
| ifcbytes: "enc_as TInterface tag (VIfc (Some (TBytes, VBytes b))) (rlp_enc (RStr b))"
| ifclist: "enc_elems TInterface vs es \<Longrightarrow>
    enc_as TInterface tag (VIfc (Some (TSlice TInterface, VSlice vs))) (item List (concat es))"
| elems_nil: "enc_elems t [] []"
| elems_cons: "enc_as t NoTag v e \<Longrightarrow> enc_elems t vs es \<Longrightarrow> enc_elems t (v # vs) (e # es)"
| fields_nil: "enc_fields [] [] []"
| fields_cons: "enc_as ft tg v e \<Longrightarrow> enc_fields fs vs es \<Longrightarrow> (tg = TailTag \<longrightarrow> fs = []) \<Longrightarrow>
    enc_fields ((nm, tg, ft) # fs) (v # vs) (e # es)"

subsection \<open>The writers produce it\<close>

lemma length_rlp_str: "length b \<le> length (rlp_enc (RStr b))"
  by (simp add: rlp_enc_str item_def)

lemma rlp_str_lt: "length (rlp_enc (RStr b)) < n \<Longrightarrow> length b < n"
  using length_rlp_str [of b] by linarith

lemma eb_adds_writeString: "length b < 2 ^ 63 \<Longrightarrow> eb_adds w (rlp_enc (RStr b)) (writeString b w)"
proof -
  assume "length b < 2 ^ 63"
  moreover have "writeString b w = encodeString b w"
    by (cases b) (auto simp: writeString_def encodeString_def)
  ultimately show ?thesis using eb_adds_string by simp
qed

lemma eb_adds_empty_list: "eb_adds w [0xC0] (let (i, w) = eb_list w in listEnd i w)"
  using eb_adds_list [OF eb_adds_none, of w] by (simp add: case_prod_beta puthead_def)

lemma eb_adds_nilfunc: "eb_adds w (nil_enc t) (nilfunc t w)"
proof (induction t)
  case (TUint b)
  then show ?case using eb_adds_writeUint [of w 0] by (simp add: puthead_def)
next
  case TString
  then show ?case using eb_adds_writeString [of "[]" w] by (simp add: puthead_def)
next
  case TBytes
  then show ?case using eb_adds_string [of "[]" w] by (simp add: puthead_def)
qed (simp_all add: eb_adds_write eb_adds_none eb_adds_empty_list [simplified] writeBool_def)

lemma write_list_adds:
  assumes "\<And>w. \<exists>w'. write_seq ws w = Inr w' \<and> eb_adds w e w'" "length e < 2 ^ 63"
  shows "\<exists>w'. write_list ws w = Inr w' \<and> eb_adds w (item List e) w'"
proof -
  obtain w' where "write_seq ws (snd (eb_list w)) = Inr w'" "eb_adds (snd (eb_list w)) e w'"
    using assms(1) by blast
  then show ?thesis
    using eb_adds_list assms(2) by (simp add: write_list_def case_prod_beta item_def)
qed

lemma write_seq_Cons_adds:
  assumes "\<exists>w'. f w = Inr w' \<and> eb_adds w a w'" "\<And>w. \<exists>w'. write_seq ws w = Inr w' \<and> eb_adds w b w'"
  shows "\<exists>w'. write_seq (f # ws) w = Inr w' \<and> eb_adds w (a @ b) w'"
  using assms eb_adds_trans by fastforce

lemma writer_adds:
  "enc_as t tag v e \<Longrightarrow> length e < 2 ^ 63 \<Longrightarrow> \<exists>w'. makeWriter v t tag w = Inr w' \<and> eb_adds w e w'"
  "enc_elems t vs es \<Longrightarrow> length (concat es) < 2 ^ 63 \<Longrightarrow>
   \<exists>w'. write_seq (map (\<lambda>f. f t NoTag) (map makeWriter vs)) w = Inr w' \<and> eb_adds w (concat es) w'"
  "enc_fields fs vs es \<Longrightarrow> length (concat es) < 2 ^ 63 \<Longrightarrow>
   \<exists>w'. write_seq (map2 (\<lambda>(nm, tg, ft) f. f ft tg) fs (map makeWriter vs)) w = Inr w'
      \<and> eb_adds w (concat es) w' \<and> length fs = length vs"
proof (induction arbitrary: w and w and w rule: enc_as_enc_elems_enc_fields.inducts)
  case (uint bits n tag)
  then have "unat (word_of_nat n :: uint64) = n"
    by (auto simp: unat_of_nat)
  then show ?case
    using eb_adds_writeUint [of w "word_of_nat n"] by simp
next
  case (bool tag b)
  then show ?case
    using eb_adds_write by (simp add: writeBool_def puthead_def word_le_nat_alt)
next
  case (slice tag t vs es)
  have "length (concat es) < 2 ^ 63" using slice.prems by (simp add: item_def)
  then show ?case
    using write_list_adds slice by simp
next
  case (array t vs es tag)
  have "length (concat es) < 2 ^ 63" using array.prems by (simp add: item_def)
  then show ?case
    using write_list_adds array by simp
next
  case (struct fs vs es tag)
  have lt: "length (concat es) < 2 ^ 63" using struct.prems by (simp add: item_def)
  then have "length fs = length vs" using struct.IH by blast
  moreover have "\<exists>w'. write_list (map2 (\<lambda>(nm, tg, ft) f. f ft tg) fs (map makeWriter vs)) w = Inr w'
      \<and> eb_adds w (item List (concat es)) w'"
    by (rule write_list_adds [OF _ lt]) (use struct.IH lt in blast)
  ultimately show ?case by simp
next
  case (ifclist vs es tag)
  have "length (concat es) < 2 ^ 63" using ifclist.prems by (simp add: item_def)
  then show ?case
    using write_list_adds ifclist by simp
next
  case (elems_cons t v e vs es)
  then show ?case
    using write_seq_Cons_adds [of "makeWriter v t NoTag" w e] by simp
next
  case (fields_cons ft tg v e fs vs es nm)
  have lt: "length e < 2 ^ 63" "length (concat es) < 2 ^ 63" using fields_cons.prems by simp_all
  let ?ws = "map2 (\<lambda>(nm, tg, ft) f. f ft tg) fs (map makeWriter vs)"
  have "\<exists>w'. write_seq (makeWriter v ft tg # ?ws) w = Inr w' \<and> eb_adds w (e @ concat es) w'"
    by (rule write_seq_Cons_adds) (use fields_cons.IH lt in blast)+
  moreover have "length fs = length vs" using fields_cons.IH(2) lt by blast
  ultimately show ?case by simp
qed (auto simp: eb_adds_write eb_adds_writeString [OF rlp_str_lt] eb_adds_string [OF rlp_str_lt]
    eb_adds_writeBigInt [OF _ rlp_str_lt] eb_adds_nilfunc eb_adds_none simp del: rlp_enc.simps)

lemma encode_typed_enc:
  "enc_as t NoTag v e \<Longrightarrow> length e < 2 ^ 63 \<Longrightarrow> encode_typed t v = Inr e"
  using writer_adds(1) [of t NoTag v e eb_reset]
  by (auto simp: encode_typed_def toBytes_def eb_adds_def eb_reset_def)

subsection \<open>The decoders read it back\<close>

lemma stream_Kind_eol:
  "st_kind s = None \<Longrightarrow> st_stack s = (p, p) # rest \<Longrightarrow>
   stream_Kind s = (Inl EOL, s\<lparr>st_kinderr := None\<rparr>)"
  by (simp add: stream_Kind_def Let_def)

lemma eol_makeDecoder:
  "0 < fuel \<Longrightarrow> \<not> (tag = TailTag \<and> (\<exists>et. t = TSlice et)) \<Longrightarrow> eol (makeDecoder t fuel tag)"
proof (induction t arbitrary: tag)
  case TInterface
  then show ?case
    by (cases fuel) (auto simp: eol_def stream_Kind_eol on_ok_def)
next
  case (TPtr t)
  have "eol (makeDecoder t fuel NoTag)" using TPtr by simp
  then show ?case
    by (auto simp: eol_def optionalPtrDecoder_def ptrDecoder_def on_ok_def stream_Kind_eol)
qed (auto simp: eol_def stream_Kind_eol on_ok_def decodeRawValue_def decodeUint_def decodeBool_def
    decodeString_def decodeBigInt_def decodeByteSlice_def decodeByteArray_def decodeListSlice_def
    decodeListArray_def structDecoder_def stream_Raw_def stream_uint_def stream_Bool_def
    stream_Bytes_def stream_List_def wrapStreamError_def)

lemma item_inject: "item k c = item k' c' \<Longrightarrow> good_item k c \<Longrightarrow> good_item k' c' \<Longrightarrow> k = k' \<and> c = c'"
  using Split_item [of c k "[]"] Split_item [of c' k' "[]"] by (simp add: item_def good_item_def)

lemma is_item_str: "length b < 2 ^ 63 \<Longrightarrow> is_item (rlp_enc (RStr b))"
  using str_item_ok rlp_enc_str unfolding is_item_def good_item_def by blast

lemma is_item_list: "length c < 2 ^ 63 \<Longrightarrow> is_item (item List c)"
  unfolding is_item_def good_item_def by (intro exI [of _ List] exI [of _ c]) simp

lemma dec_ok_strI:
  assumes "\<And>s t. at (str_kind b) b s t \<Longrightarrow> \<exists>u. d t = (Inr v, u) \<and> past (length (item (str_kind b) b)) s u"
    "length b < 2 ^ 63"
  shows "dec_ok d v (rlp_enc (RStr b)) \<and> is_item (rlp_enc (RStr b))"
proof -
  have "dec_ok d v (item (str_kind b) b)"
    unfolding dec_ok_def
  proof (intro allI impI)
    fix k c s t
    assume a: "item (str_kind b) b = item k c" "at k c s t"
    then have "str_kind b = k \<and> b = c"
      using item_inject assms(2) str_item_ok by (auto simp: at_def facing_def good_item_def)
    then show "\<exists>u. d t = (Inr v, u) \<and> past (length (item (str_kind b) b)) s u"
      using assms(1) a by blast
  qed
  then show ?thesis using is_item_str [OF assms(2)] by (simp only: rlp_enc_str)
qed

lemma dec_ok_listI:
  assumes "\<And>s t. at List b s t \<Longrightarrow> \<exists>u. d t = (Inr v, u) \<and> past (length (item List b)) s u"
    "length b < 2 ^ 63"
  shows "dec_ok d v (item List b) \<and> is_item (item List b)"
proof -
  have "dec_ok d v (item List b)"
    unfolding dec_ok_def
  proof (intro allI impI)
    fix k c s t
    assume a: "item List b = item k c" "at k c s t"
    then have "List = k \<and> b = c"
      using item_inject assms(2) by (auto simp: at_def facing_def good_item_def)
    then show "\<exists>u. d t = (Inr v, u) \<and> past (length (item List b)) s u"
      using assms(1) a by simp
  qed
  then show ?thesis using is_item_list [OF assms(2)] by simp
qed

lemma stream_Bytes_str:
  "at (str_kind b) b s t \<Longrightarrow>
   \<exists>u. stream_Bytes t = (Inr b, u) \<and> past (length (item (str_kind b) b)) s u"
  using stream_Bytes_at by (simp add: str_kind_def split: if_splits)

lemma decodeByteArray_at:
  assumes "at (str_kind b) b s t" "b \<noteq> [0]"
  shows "\<exists>u. decodeByteArray (length b) t = (Inr (VByteArray b), u) \<and> past (length (item (str_kind b) b)) s u"
proof -
  let ?k = "str_kind b"
  obtain u where u: "stream_Kind t = (Inr (?k, body_len ?k b), u)" "tagged ?k b s u" "at ?k b s u"
    using stream_Kind_at assms by blast
  have f: "facing ?k b s" using assms(1) by (simp add: at_def)
  show ?thesis
  proof (cases "?k = Byte")
    case True
    then obtain x where b: "b = [x]" and x: "x < 0x80" "x \<noteq> 0"
      using assms(2) f by (cases b) (auto simp: facing_def good_item_def)
    then have n: "b = nat_bytes (unat x)"
      using nat_bytes_small [of "unat x"] unat_byte_lt [of x] by (auto simp: unat_eq_zero unat_gt_0)
    have "unat x < 2 ^ 64" using unat_byte_lt [of x] by simp
    then obtain w where "stream_uint 64 u = (Inr (unat x), w)" "past (length (item ?k b)) s w"
      using stream_uint_at [OF u(3) n, of 64] by auto
    then show ?thesis
      using u(1) True b by (simp add: decodeByteArray_def on_ok_def stream_Uint_def ret_def)
  next
    case False
    then have k: "?k = String" by (simp add: str_kind_def split: if_splits)
    then have "\<not> (length b = 1 \<and> b ! 0 < 128)"
      using f by (auto simp: facing_def good_item_def)
    then show ?thesis
      using u(1) k readFull_tagged [OF f u(2)]
      by (auto simp: decodeByteArray_def on_ok_def ret_def body_len_def)
  qed
qed

lemma elems_length:
  "list_all2 (\<lambda>v e. dec_ok d v e \<and> is_item e) vs es \<Longrightarrow> length vs \<le> length (concat es)"
proof (induction vs es rule: list_all2_induct)
  case (Cons v vs e es)
  then have "e \<noteq> []" using item_nonempty by (auto simp: is_item_def)
  then show ?case using Cons.IH by (cases e) auto
qed simp

lemma decodeListSlice_at:
  assumes "at List (concat es) s t" "list_all2 (\<lambda>v e. dec_ok d v e \<and> is_item e) vs es" "eol d"
    "length (concat es) < fuel"
  shows "\<exists>u. decodeListSlice fuel typ d t = (Inr (VSlice vs), u) \<and> past (length (item List (concat es))) s u"
proof -
  let ?c = "concat es"
  have f: "facing List ?c s" using assms(1) by (simp add: at_def)
  obtain u where u: "stream_List t = (Inr (length ?c), u)" "opened ?c s u" "holds_rest ?c u"
    using stream_List_at [OF assms(1)] by blast
  have "length vs < fuel" using elems_length [OF assms(2)] assms(4) by simp
  then obtain x where x: "decodeSliceElems fuel d 0 u = (Inr vs, x)" "past (length ?c) u x"
    using decodeSliceElems_ok [OF assms(2,3) _ u(3)] by blast
  obtain w where w: "stream_ListEnd x = (Inr (), w)" "past (length (item List ?c)) s w"
    using stream_ListEnd_past [OF f u(2) x(2)] by blast
  show ?thesis
  proof (cases "length ?c = 0")
    case True
    then have "vs = []" using elems_length [OF assms(2)] by (metis le_zero_eq length_0_conv)
    moreover have "past (length ?c) u u"
      using u(3) adv_0 [of u] unfolding past_def holds_rest_def True by blast
    moreover obtain x where "stream_ListEnd u = (Inr (), x)" "past (length (item List ?c)) s x"
      using stream_ListEnd_past [OF f u(2) calculation(2)] by blast
    ultimately show ?thesis
      using u(1) True by (simp add: decodeListSlice_def on_ok_def ret_def)
  next
    case False
    then show ?thesis
      using u(1) x(1) w by (auto simp: decodeListSlice_def on_ok_def ret_def)
  qed
qed

lemma decodeListArray_at:
  assumes "at List (concat es) s t" "list_all2 (\<lambda>v e. dec_ok d v e \<and> is_item e) vs es"
  shows "\<exists>u. decodeListArray (length vs) typ d t = (Inr (VArray vs), u) \<and> past (length (item List (concat es))) s u"
proof -
  let ?c = "concat es"
  obtain u where u: "stream_List t = (Inr (length ?c), u)" "opened ?c s u" "holds_rest ?c u"
    using stream_List_at [OF assms(1)] by blast
  obtain x where x: "decodeArrayElems d typ 0 (length vs) u = (Inr vs, x)" "past (length ?c) u x"
    using decodeArrayElems_ok [OF assms(2) u(3)] by blast
  obtain w where w: "stream_ListEnd x = (Inr (), w)" "past (length (item List ?c)) s w"
    using stream_ListEnd_past [OF _ u(2) x(2)] assms(1) by (auto simp: at_def)
  then show ?thesis
    using u(1) x(1) by (simp add: decodeListArray_def on_ok_def ret_def)
qed

lemma structDecoder_at:
  assumes "at List (concat es) s t" "fields_ok fs vs es"
  shows "\<exists>u. structDecoder typ fs t = (Inr (VStruct vs), u) \<and> past (length (item List (concat es))) s u"
proof -
  let ?c = "concat es"
  obtain u where u: "stream_List t = (Inr (length ?c), u)" "opened ?c s u" "holds_rest ?c u"
    using stream_List_at [OF assms(1)] by blast
  obtain x where x: "decodeFields typ fs u = (Inr vs, x)" "past (length ?c) u x"
    using decodeFields_ok [OF assms(2) u(3)] by blast
  obtain w where w: "stream_ListEnd x = (Inr (), w)" "past (length (item List ?c)) s w"
    using stream_ListEnd_past [OF _ u(2) x(2)] assms(1) by (auto simp: at_def)
  then show ?thesis
    using u(1) x(1) by (simp add: structDecoder_def on_ok_def ret_def)
qed

lemma dec_ok_ptr: "dec_ok d v e \<Longrightarrow> dec_ok (ptrDecoder d) (VPtr (Some v)) e"
  by (fastforce simp: dec_ok_def ptrDecoder_def on_ok_def ret_def)

lemma empty_items: "item String [] = [0x80]" "item List [] = [0xC0]"
  by (simp_all add: item_def puthead_def)

lemma dec_ok_optsome:
  assumes "dec_ok d v e" "e \<noteq> [0x80]" "e \<noteq> [0xC0]"
  shows "dec_ok (optionalPtrDecoder d) (VPtr (Some v)) e"
  unfolding dec_ok_def
proof (intro allI impI)
  fix k c s t
  assume a: "e = item k c" "at k c s t"
  obtain u where u: "stream_Kind t = (Inr (k, body_len k c), u)" "at k c s u"
    using stream_Kind_at [OF a(2)] by blast
  have "\<not> (body_len k c = 0 \<and> k \<noteq> Byte)"
    using a(1) assms(2,3) empty_items by (cases k) (auto simp: body_len_def)
  then show "\<exists>u. optionalPtrDecoder d t = (Inr (VPtr (Some v)), u) \<and> past (length e) s u"
    using u dec_okD [OF dec_ok_ptr [OF assms(1)] a(1) u(2)]
    by (auto simp: optionalPtrDecoder_def)
qed

lemma nil_enc_cases: "nil_enc t \<noteq> [] \<Longrightarrow> \<exists>k. k \<noteq> Byte \<and> nil_enc t = item k []"
  by (induction t) (auto simp: empty_items intro: exI [of _ String] exI [of _ List])

lemma dec_ok_optnone:
  assumes "k \<noteq> Byte"
  shows "dec_ok (optionalPtrDecoder d) (VPtr None) (item k []) \<and> is_item (item k [])"
proof
  have g: "good_item k []" using assms by (cases k) (auto simp: good_item_def)
  then show "is_item (item k [])" by (auto simp: is_item_def)
  show "dec_ok (optionalPtrDecoder d) (VPtr None) (item k [])"
    unfolding dec_ok_def
  proof (intro allI impI)
    fix k' c s t
    assume a: "item k [] = item k' c" "at k' c s t"
    then have e: "k = k'" "c = []"
      using item_inject [OF a(1) g] by (auto simp: at_def facing_def)
    obtain u where u: "stream_Kind t = (Inr (k, 0), u)" "tagged k [] s u"
      using stream_Kind_at [OF a(2)] e by (auto simp: body_len_def)
    then have "past (length (item k [])) s (u\<lparr>st_kind := None\<rparr>)"
      using past_body [of k "[]" s u "u\<lparr>st_kind := None\<rparr>"] a(2) e adv_0 [of u]
      by (auto simp: at_def body_len_def)
    then show "\<exists>u. optionalPtrDecoder d t = (Inr (VPtr None), u) \<and> past (length (item k [])) s u"
      using u(1) assms by (simp add: optionalPtrDecoder_def)
  qed
qed

lemma on_Bytes:
  assumes "at (str_kind b) b s t" "\<And>u. k b u = (Inr v, u)"
  shows "\<exists>u. on_ok w (stream_Bytes t) k = (Inr v, u) \<and> past (length (item (str_kind b) b)) s u"
  using stream_Bytes_str [OF assms(1)] assms(2) by (auto simp: on_ok_def)

definition tail_field :: "fieldTag \<Rightarrow> rtype \<Rightarrow> bool" where
  "tail_field tag t \<longleftrightarrow> tag = TailTag \<and> (\<exists>et. t = TSlice et)"

definition reads_back :: "rtype \<Rightarrow> fieldTag \<Rightarrow> rval \<Rightarrow> bytes \<Rightarrow> nat \<Rightarrow> bool" where
  "reads_back t tag v e fuel \<longleftrightarrow>
     (if tail_field tag t then takes (makeDecoder t fuel tag) v e []
      else dec_ok (makeDecoder t fuel tag) v e \<and> is_item e)"

lemma reads_backD: "reads_back t tag v e fuel \<Longrightarrow> \<not> tail_field tag t \<Longrightarrow> dec_ok (makeDecoder t fuel tag) v e \<and> is_item e"
  by (simp add: reads_back_def)

lemma reads_back_strI:
  assumes "\<And>s u. at (str_kind b) b s u \<Longrightarrow>
      \<exists>x. makeDecoder t fuel tag u = (Inr v, x) \<and> past (length (item (str_kind b) b)) s x"
    "length (rlp_enc (RStr b)) < 2 ^ 63" "\<nexists>et. t = TSlice et"
  shows "reads_back t tag v (rlp_enc (RStr b)) fuel"
  using dec_ok_strI [of b "makeDecoder t fuel tag" v] rlp_str_lt [OF assms(2)] assms(1,3)
  unfolding reads_back_def tail_field_def by auto

lemma reads_back_listI:
  assumes "\<And>s u. at List b s u \<Longrightarrow>
      \<exists>x. makeDecoder t fuel tag u = (Inr v, x) \<and> past (length (item List b)) s x"
    "length b < 2 ^ 63" "\<not> tail_field tag t"
  shows "reads_back t tag v (item List b) fuel"
  using dec_ok_listI [OF assms(1,2)] assms(3) by (simp add: reads_back_def)

lemma item_List_bounds:
  "length (item List c) < 2 ^ 63 \<Longrightarrow> length c < 2 ^ 63" "length (item List c) < fuel \<Longrightarrow> Suc (length c) < fuel"
  using tag_len_pos [of List c] by (simp_all add: item_def tag_len_def del: length_greater_0_conv)

lemma decodeBigInt_at:
  assumes "at (str_kind b) b s u" "b = nat_bytes n"
  shows "\<exists>x. decodeBigInt t mk u = (Inr (mk (int n)), x) \<and> past (length (item (str_kind b) b)) s x"
  unfolding decodeBigInt_def
  by (rule on_Bytes [OF assms(1)]) (use assms(2) nat_bytes_hd [of n] in \<open>auto simp: ret_def\<close>)

lemma decodeInterface_bytes_at:
  assumes "at (str_kind b) b s u" "0 < fuel"
  shows "\<exists>x. decodeInterface fuel u = (Inr (VIfc (Some (TBytes, VBytes b))), x) \<and> past (length (item (str_kind b) b)) s x"
proof -
  obtain f where f: "fuel = Suc f" using assms(2) by (cases fuel) auto
  obtain y where y: "stream_Kind u = (Inr (str_kind b, body_len (str_kind b) b), y)" "at (str_kind b) b s y"
    using stream_Kind_at [OF assms(1)] by blast
  have "str_kind b \<noteq> List" by (simp add: str_kind_def)
  then show ?thesis
    using y(1) f stream_Bytes_str [OF y(2)] by (auto simp: on_ok_def ret_def)
qed

lemma decodeInterface_list_at:
  assumes "at List (concat es) s u" "Suc (length (concat es)) < fuel"
    "\<And>f. length (concat es) < f \<Longrightarrow>
       list_all2 (\<lambda>v e. dec_ok (makeDecoder TInterface f NoTag) v e \<and> is_item e) vs es"
  shows "\<exists>x. decodeInterface fuel u = (Inr (VIfc (Some (TSlice TInterface, VSlice vs))), x)
    \<and> past (length (item List (concat es))) s x"
proof -
  obtain f where f: "fuel = Suc f" using assms(2) by (cases fuel) auto
  obtain y where y: "stream_Kind u = (Inr (List, body_len List (concat es)), y)" "at List (concat es) s y"
    using stream_Kind_at [OF assms(1)] by blast
  have lt: "length (concat es) < f" "length (concat es) < Suc f" using assms(2) f by auto
  have "eol (makeDecoder TInterface f NoTag)" using lt eol_makeDecoder by (intro eol_makeDecoder) auto
  then show ?thesis
    using decodeListSlice_at [OF y(2) assms(3) [OF lt(1)] _ lt(2), of "TSlice TInterface"] y(1) f
    by (auto simp: on_ok_def ret_def)
qed

lemma makeDecoder_reads_back:
  "enc_as t tag v e \<Longrightarrow> length e < 2 ^ 63 \<Longrightarrow> length e < fuel \<Longrightarrow> reads_back t tag v e fuel"
  "enc_elems t vs es \<Longrightarrow> length (concat es) < 2 ^ 63 \<Longrightarrow> length (concat es) < fuel \<Longrightarrow>
   list_all2 (\<lambda>v e. dec_ok (makeDecoder t fuel NoTag) v e \<and> is_item e) vs es"
  "enc_fields fs vs es \<Longrightarrow> length (concat es) < 2 ^ 63 \<Longrightarrow> length (concat es) < fuel \<Longrightarrow>
   fields_ok (map (\<lambda>(nm, tg, d). (nm, d fuel tg)) (map (map_prod id (map_prod id makeDecoder)) fs)) vs es"
proof (induction arbitrary: fuel and fuel and fuel rule: enc_as_enc_elems_enc_fields.inducts)
  case (raw b k c tag)
  then have b: "b = item k c" "item_ok k c" using Split_iff [of b k c "[]"] by (auto simp: item_def)
  then have "good_item k c" using raw.prems(1) by (simp add: good_item_def item_def)
  moreover have "dec_ok decodeRawValue (VRaw b) b"
    unfolding dec_ok_def using stream_Raw_at by (fastforce simp: decodeRawValue_def on_ok_def ret_def)
  ultimately show ?case using b(1) by (auto simp: reads_back_def tail_field_def is_item_def)
next
  case (uint bits n tag)
  show ?case
    using stream_uint_at [OF _ refl uint(2,1)] uint.prems
    by (intro reads_back_strI) (fastforce simp: decodeUint_def on_ok_def ret_def simp del: rlp_enc.simps)+
next
  case (bool tag b)
  show ?case
    using stream_Bool_at [OF _ refl] bool.prems
    by (intro reads_back_strI) (fastforce simp: decodeBool_def on_ok_def ret_def simp del: rlp_enc.simps)+
next
  case (slice tag t vs es)
  note bd = item_List_bounds(1) [OF slice.prems(1)] item_List_bounds(2) [OF slice.prems(2)]
  have "eol (makeDecoder t fuel NoTag)" using bd by (intro eol_makeDecoder) auto
  then show ?case
    using slice bd decodeListSlice_at [of es _ _ "makeDecoder t fuel NoTag" vs fuel "TSlice t"]
    by (intro reads_back_listI) (auto simp: tail_field_def)
next
  case (tail t vs es)
  have "eol (makeDecoder t fuel NoTag)" using tail.prems by (intro eol_makeDecoder) auto
  moreover have el: "list_all2 (\<lambda>v e. dec_ok (makeDecoder t fuel NoTag) v e \<and> is_item e) vs es"
    using tail.IH tail.prems by blast
  moreover have "length vs < fuel" using elems_length [OF el] tail.prems by linarith
  ultimately have "\<exists>u. makeDecoder (TSlice t) fuel TailTag s = (Inr (VSlice vs), u)
      \<and> past (length (concat es)) s u" if "holds_rest (concat es) s" for s
    using decodeSliceElems_ok [of "makeDecoder t fuel NoTag" vs es fuel s 0] that
    by (auto simp: on_ok_def ret_def)
  then show ?case
    by (simp add: reads_back_def tail_field_def takes_def)
next
  case (array t vs es tag)
  note bd = item_List_bounds(1) [OF array.prems(1)] item_List_bounds(2) [OF array.prems(2)]
  show ?case
    using array bd decodeListArray_at [of es _ _ "makeDecoder t fuel NoTag" vs]
    by (intro reads_back_listI) (auto simp: tail_field_def)
next
  case (struct fs vs es tag)
  note bd = item_List_bounds(1) [OF struct.prems(1)] item_List_bounds(2) [OF struct.prems(2)]
  have "fields_ok (map (\<lambda>(nm, tg, d). (nm, d fuel tg)) (map (map_prod id (map_prod id makeDecoder)) fs)) vs es"
    by (rule struct.IH) (use bd in auto)
  then show ?case
    using bd(1) structDecoder_at
    by (intro reads_back_listI) (simp_all only: makeDecoder.simps tail_field_def rtype.simps, auto)
next
  case (ptr tag t v e)
  then show ?case
    using dec_ok_ptr by (auto simp: reads_back_def tail_field_def)
next
  case (optsome t v e)
  then show ?case
    using dec_ok_optsome by (auto simp: reads_back_def tail_field_def)
next
  case (optnone t)
  then show ?case
    using dec_ok_optnone nil_enc_cases [of t] by (auto simp: reads_back_def tail_field_def)
next
  case (ifclist vs es tag)
  note bd = item_List_bounds(1) [OF ifclist.prems(1)] item_List_bounds(2) [OF ifclist.prems(2)]
  show ?case
    using decodeInterface_list_at [OF _ bd(2)] ifclist.IH bd(1)
    by (intro reads_back_listI) (auto simp: tail_field_def)
next
  case (elems_cons t v e vs es)
  then show ?case by (auto simp: reads_back_def tail_field_def)
next
  case (fields_cons ft tg v e fs vs es nm)
  then have e: "reads_back ft tg v e fuel" by simp
  have fs: "fs = [] \<Longrightarrow> es = []" using fields_cons.hyps(2) by (auto elim: enc_fields.cases)
  have "takes (makeDecoder ft fuel tg) v e (concat es)"
  proof (cases "tail_field tg ft")
    case True
    then show ?thesis
      using e fs fields_cons.hyps(3) by (simp add: reads_back_def tail_field_def)
  next
    case False
    then show ?thesis using reads_backD [OF e] takesI by blast
  qed
  then show ?case
    using fields_cons by simp
next
  case (str tag b)
  show ?case
    by (rule reads_back_strI) (use str.prems in \<open>simp_all add: decodeString_def on_Bytes ret_def del: rlp_enc.simps\<close>)
next
  case (bytes tag b)
  show ?case
    by (rule reads_back_strI) (use bytes.prems in \<open>simp_all add: decodeByteSlice_def on_Bytes ret_def del: rlp_enc.simps\<close>)
next
  case (big i tag)
  show ?case
    by (rule reads_back_strI) (use big decodeBigInt_at [OF _ refl, of "nat i"] in \<open>simp_all del: rlp_enc.simps\<close>)
next
  case (bigptr i tag)
  show ?case
    by (rule reads_back_strI) (use bigptr decodeBigInt_at [OF _ refl, of "nat i"] in \<open>simp_all del: rlp_enc.simps\<close>)
next
  case (bytearray b tag)
  show ?case
    by (rule reads_back_strI) (use bytearray decodeByteArray_at in \<open>simp_all del: rlp_enc.simps\<close>)
next
  case (ifcbytes tag b)
  show ?case
    by (rule reads_back_strI) (use ifcbytes decodeInterface_bytes_at in \<open>simp_all del: rlp_enc.simps\<close>)
qed simp_all

lemma DecodeBytes_enc:
  assumes "enc_as t NoTag v e" "length e < 2 ^ 63" "length e < fuel"
  shows "DecodeBytes fuel t e = Inr v"
proof -
  have "dec_ok (makeDecoder t fuel NoTag) v e" "is_item e"
    using reads_backD [OF makeDecoder_reads_back(1) [OF assms]] by (auto simp: tail_field_def)
  then obtain k c where e: "e = item k c" "good_item k c" "dec_ok (makeDecoder t fuel NoTag) v e"
    by (auto simp: is_item_def)
  have "at k c (NewStream e (length e)) (NewStream e (length e))"
    using e item_nonempty by (simp add: at_def facing_def NewStream_def room_def)
  then obtain u where "makeDecoder t fuel NoTag (NewStream e (length e)) = (Inr v, u)"
      "past (length e) (NewStream e (length e)) u"
    using dec_okD [OF e(3,1)] by blast
  then show ?thesis
    by (simp add: DecodeBytes_def stream_Decode_def past_def adv_def NewStream_def)
qed


section \<open>Properties\<close>

lemma decodeByteArray_zero_stuck:
  "st_kind s = Some Byte \<Longrightarrow> st_kinderr s = None \<Longrightarrow> st_byteval s = 0 \<Longrightarrow>
   decodeByteArray 1 s = (Inr (VByteArray [0]), s)"
  by (simp add: decodeByteArray_def on_ok_def stream_Kind_def stream_Uint_def stream_uint_def ret_def)

lemma decodeSliceElems_zero_stuck:
  "st_kind s = Some Byte \<Longrightarrow> st_kinderr s = None \<Longrightarrow> st_byteval s = 0 \<Longrightarrow>
   decodeSliceElems fuel (decodeByteArray 1) i s = (Inl DecOutOfFuel, s)"
  by (induction fuel arbitrary: i) (simp_all add: decodeByteArray_zero_stuck [simplified] on_ok_def)

text \<open>
  C24: The two-pass encoding buffer produces the recursive RLP encoding of every value whose
  encoding is shorter than \<open>2^63\<close> bytes, and the size it announces before assembling the output
  is the length of that output.
\<close>

theorem rlp_encode_reference:
  "rlp_small v \<Longrightarrow>
     EncodeToBytes v = rlp_enc v \<and> eb_size (write_value v eb_reset) = length (rlp_enc v)"
  using EncodeToBytes_eq [of v] toBytes_size [of v] by simp

theorem rlp_encode_reference_witness:
  "EncodeToBytes (RList [RStr [1], RList [], RStr [0x80, 2]]) = [0xC5, 1, 0xC0, 0x82, 0x80, 2]"
  using rlp_encode_reference [of "RList [RStr [1], RList [], RStr [0x80, 2]]"]
  by (simp add: rlp_small_def puthead_def Let_def word_le_nat_alt)

text \<open>
  C25: \<open>Split\<close> accepts exactly the canonical items: it returns a kind, a content and a rest if and
  only if the input is the canonical header of that content followed by the content and the
  rest, where a single byte below 0x80 is its own encoding and has no string header.
\<close>

theorem rlp_split_canonical:
  assumes "length b < 2 ^ 63"
  shows "Split b = Inr (k, c, r) \<longleftrightarrow> b = item_head k c @ c @ r \<and> item_ok k c"
  using Split_iff [OF assms] .

theorem rlp_split_canonical_witness:
  "Split [0x82, 0x80, 2, 7] = Inr (String, [0x80, 2], [7])"
  using rlp_split_canonical [of "[0x82, 0x80, 2, 7]" String "[0x80, 2]" "[7]"]
  by (simp add: puthead_def)

text \<open>
  C7: Typed round trip: the writer composed for a type succeeds on every value that \<open>enc_as\<close>
  relates to an encoding, and writes that encoding; the decoder composed for the type, with
  fuel above the length of the input, returns the value and leaves nothing unread.
\<close>

theorem rlp_typed_round_trip:
  assumes "enc_as t NoTag v e" "length e < 2 ^ 63" "length e < fuel"
  shows "encode_typed t v = Inr e \<and> DecodeBytes fuel t e = Inr v"
  using encode_typed_enc [OF assms(1,2)] DecodeBytes_enc [OF assms] by simp

definition sample_type :: rtype where
  "sample_type = TStruct [(''Nonce'', NoTag, TUint 64), (''To'', NilTag, TPtr (TByteArray 2)),
     (''Extra'', TailTag, TSlice TBytes)]"

definition sample_value :: rval where
  "sample_value = VStruct [VUint 1024, VPtr None, VSlice [VBytes [7]]]"

lemma sample_enc: "enc_as sample_type NoTag sample_value [0xC5, 0x82, 4, 0, 0x80, 7]"
proof -
  have "nat_bytes 1024 = [4, 0]"
    by (simp add: nat_bytes.simps [of 1024] nat_bytes.simps [of 4])
  then have "enc_as (TUint 64) NoTag (VUint 1024) [0x82, 4, 0]"
    using uint [of 64 1024 NoTag] by (simp add: puthead_def)
  moreover have "enc_as (TPtr (TByteArray 2)) NilTag (VPtr None) [0x80]"
    using optnone [of "TByteArray 2"] by simp
  moreover have "enc_as TBytes NoTag (VBytes [7]) [7]"
    using bytes [of NoTag "[7]"] by (simp add: word_le_nat_alt)
  then have "enc_as (TSlice TBytes) TailTag (VSlice [VBytes [7]]) (concat [[7]])"
    by (intro tail elems_cons elems_nil)
  ultimately have "enc_fields [(''Nonce'', NoTag, TUint 64), (''To'', NilTag, TPtr (TByteArray 2)),
      (''Extra'', TailTag, TSlice TBytes)] [VUint 1024, VPtr None, VSlice [VBytes [7]]]
      [[0x82, 4, 0], [0x80], concat [[7]]]"
    by (intro fields_cons fields_nil) simp_all
  from struct [OF this, of NoTag] show ?thesis
    by (simp add: sample_type_def sample_value_def item_def puthead_def)
qed

theorem rlp_typed_round_trip_witness:
  "encode_typed sample_type sample_value = Inr [0xC5, 0x82, 4, 0, 0x80, 7] \<and>
   DecodeBytes 7 sample_type [0xC5, 0x82, 4, 0, 0x80, 7] = Inr sample_value"
  by (rule rlp_typed_round_trip [OF sample_enc]) simp_all

text \<open>
  C37: Decoding the two bytes \<open>C1 00\<close>, the encoding of a list with one zero byte, into a slice of
  one-byte arrays never ends: with every amount of fuel the element loop is still running. The
  decoder of byte arrays discards the error of \<open>Uint\<close> on a zero byte, and that error path
  leaves the type tag in place, so that each round sees the same byte again.
\<close>

theorem byte_array_zero_not_consumed:
  "DecodeBytes fuel (TSlice (TByteArray 1)) [0xC1, 0] = Inl DecOutOfFuel"
proof -
  define s where "s = \<lparr>st_in = [0], st_remaining = 1, st_limited = True, st_kind = None,
    st_size = 0, st_byteval = 0, st_kinderr = None, st_stack = [(0, 1)]\<rparr>"
  have l: "stream_List (NewStream [0xC1, 0] (Suc (Suc 0))) = (Inr 1, s)"
    by (simp add: s_def stream_List_def stream_Kind_def NewStream_def stream_readKind_def readByte_def
        willRead_def willRead_limit_def kind_check_def Let_def)
  obtain u where u: "decodeByteArray 1 s = (Inr (VByteArray [0]), u)"
      "st_kind u = Some Byte" "st_kinderr u = None" "st_byteval u = 0"
    by (simp add: s_def decodeByteArray_def on_ok_def stream_Kind_def stream_Uint_def stream_uint_def
        ret_def stream_readKind_def readByte_def willRead_def willRead_limit_def kind_check_def Let_def)
  have "\<exists>w. decodeSliceElems fuel (decodeByteArray 1) 0 s = (Inl DecOutOfFuel, w)"
    using u decodeSliceElems_zero_stuck [OF u(2-4)] by (cases fuel) (simp_all add: on_ok_def)
  then show ?thesis
    using l by (auto simp: DecodeBytes_def stream_Decode_def decodeListSlice_def on_ok_def)
qed

end
