(* ===== verification/Transactions.thy ===== *)
theory Transactions
  imports Merkle Rlp_Roundtrip
begin

text \<open>
  Transactions and signers: \<open>core/types/transaction.go\<close>, \<open>core/types/transaction_signing.go\<close> and
  the signature check of \<open>crypto/crypto.go\<close>. Public key recovery is the parameter \<open>ecr\<close>
  (the code calls the C library libsecp256k1), Keccak-256 the parameter \<open>K\<close>.

  A payload is an optional byte slice, because the code tells a nil slice from an empty one. The
  caches of the hash and of the size of a transaction hold values of immutable data and are left
  out; the cache of the sender is kept, since its validity depends on the signer.
\<close>

section \<open>Hashing RLP values\<close>

text \<open>\<open>rlpHash\<close> drops the error of \<open>rlp.Encode\<close>, which then has written nothing.\<close>

definition rlpHash :: "keccak \<Rightarrow> rtype \<Rightarrow> rval \<Rightarrow> hash" where
  "rlpHash K t v = (case encode_typed t v of Inl e \<Rightarrow> K [] | Inr b \<Rightarrow> K b)"

text \<open>
  The Go value behind a decoded one. A decoder returns values of its type only, so that the other
  cases do not arise.
\<close>

definition un_uint :: "rval \<Rightarrow> nat" where
  "un_uint v = (case v of VUint n \<Rightarrow> n | _ \<Rightarrow> 0)"

definition un_big :: "rval \<Rightarrow> int" where
  "un_big v = (case v of VBigPtr (Some i) \<Rightarrow> i | _ \<Rightarrow> 0)"

definition un_bytes :: "rval \<Rightarrow> bytes" where
  "un_bytes v = (case v of VBytes b \<Rightarrow> b | VByteArray b \<Rightarrow> b | _ \<Rightarrow> [])"

definition un_ptr :: "rval \<Rightarrow> rval option" where
  "un_ptr v = (case v of VPtr p \<Rightarrow> p | _ \<Rightarrow> None)"

definition un_slice :: "rval \<Rightarrow> rval list" where
  "un_slice v = (case v of VSlice vs \<Rightarrow> vs | VStruct vs \<Rightarrow> vs | _ \<Rightarrow> [])"

lemmas un_defs = un_uint_def un_big_def un_bytes_def un_ptr_def un_slice_def

text \<open>A slice of interfaces from values of known types.\<close>

definition ifc :: "rtype \<Rightarrow> rval \<Rightarrow> rval" where
  "ifc t v = VIfc (Some (t, v))"

definition vbig :: "int \<Rightarrow> rval" where
  "vbig i = VBigPtr (Some i)"

definition big_Uint64 :: "int \<Rightarrow> uint64" where
  "big_Uint64 i = word_of_int \<bar>i\<bar>"

fun nat_len :: "nat \<Rightarrow> nat" where
  "nat_len n = (if n = 0 then 0 else Suc (nat_len (n div 2)))"

declare nat_len.simps [simp del]

definition bitLen :: "int \<Rightarrow> nat" where
  "bitLen i = nat_len (nat \<bar>i\<bar>)"

section \<open>Transaction data\<close>

type_synonym txType = byte

definition Binary :: txType where "Binary = 0"
definition RegCandidate :: txType where "RegCandidate = 1"
definition UnregCandidate :: txType where "UnregCandidate = 2"
definition DelegateTx :: txType where "DelegateTx = 3"
definition UnDelegateTx :: txType where "UnDelegateTx = 4"

lemmas txType_defs = Binary_def RegCandidate_def UnregCandidate_def DelegateTx_def UnDelegateTx_def

record txdata =
  td_Type :: txType
  td_AccountNonce :: uint64
  td_Price :: int
  td_GasLimit :: uint64
  td_Recipient :: "address option"
  td_Amount :: int
  td_Payload :: "bytes option"
  td_V :: int
  td_R :: int
  td_S :: int

datatype signer = EIP155Signer int int | HomesteadSigner | FrontierSigner

record transaction =
  tx_data :: txdata
  tx_from :: "(signer \<times> address) option"

definition newTransaction ::
  "txType \<Rightarrow> uint64 \<Rightarrow> address option \<Rightarrow> int option \<Rightarrow> uint64 \<Rightarrow> int option \<Rightarrow> bytes option \<Rightarrow> transaction" where
  "newTransaction ty nonce recipient amount gasLimit gasPrice payload =
     \<lparr>tx_data =
        \<lparr>td_Type = ty, td_AccountNonce = nonce,
         td_Price = (case gasPrice of None \<Rightarrow> 0 | Some p \<Rightarrow> p), td_GasLimit = gasLimit,
         td_Recipient = recipient, td_Amount = (case amount of None \<Rightarrow> 0 | Some a \<Rightarrow> a),
         td_Payload = payload, td_V = 0, td_R = 0, td_S = 0\<rparr>,
      tx_from = None\<rparr>"

definition NewTransaction ::
  "txType \<Rightarrow> uint64 \<Rightarrow> address \<Rightarrow> int option \<Rightarrow> uint64 \<Rightarrow> int option \<Rightarrow> bytes option \<Rightarrow> transaction" where
  "NewTransaction ty nonce recipient amount gasLimit gasPrice payload =
     newTransaction ty nonce (if ty \<noteq> Binary \<and> recipient = zeroAddress then None else Some recipient)
       amount gasLimit gasPrice payload"

definition NewContractCreation ::
  "uint64 \<Rightarrow> int option \<Rightarrow> uint64 \<Rightarrow> int option \<Rightarrow> bytes option \<Rightarrow> transaction" where
  "NewContractCreation nonce amount gasLimit gasPrice payload =
     newTransaction Binary nonce None amount gasLimit gasPrice payload"

datatype txError =
    ErrInvalidSig | ErrInvalidType | ErrInvalidChainId | ErrValueNotZero | ErrNoRecipient
  | ErrPayloadNotEmpty | ErrRecover | ErrInvalidPublicKey

definition tx_Validate :: "transaction \<Rightarrow> txError + unit" where
  "tx_Validate tx =
     (let d = tx_data tx in
      if td_Type d \<noteq> Binary then
        if big_Uint64 (td_Amount d) \<noteq> 0 then Inl ErrValueNotZero
        else if td_Recipient d = None \<and> td_Type d \<noteq> RegCandidate \<and> td_Type d \<noteq> UnregCandidate
          then Inl ErrNoRecipient
        else if td_Payload d \<noteq> None then Inl ErrPayloadNotEmpty
        else Inr ()
      else Inr ())"

definition isProtectedV :: "int \<Rightarrow> bool" where
  "isProtectedV v = (if bitLen v \<le> 8 then big_Uint64 v \<noteq> 27 \<and> big_Uint64 v \<noteq> 28 else True)"

definition Protected :: "transaction \<Rightarrow> bool" where
  "Protected tx = isProtectedV (td_V (tx_data tx))"

definition deriveChainId :: "int \<Rightarrow> int" where
  "deriveChainId v =
     (if bitLen v \<le> 64 then
        let w = big_Uint64 v in if w = 27 \<or> w = 28 then 0 else uint ((w - 35) div 2)
      else (v - 35) div 2)"

definition ChainId :: "transaction \<Rightarrow> int" where
  "ChainId tx = deriveChainId (td_V (tx_data tx))"

definition Cost :: "transaction \<Rightarrow> int" where
  "Cost tx = td_Price (tx_data tx) * uint (td_GasLimit (tx_data tx)) + td_Amount (tx_data tx)"

section \<open>Encoding\<close>

definition tx_type :: rtype where
  "tx_type = TStruct
     [(''Type'', NoTag, TUint 8), (''AccountNonce'', NoTag, TUint 64), (''Price'', NoTag, TBigIntPtr),
      (''GasLimit'', NoTag, TUint 64), (''Recipient'', NilTag, TPtr (TByteArray 20)),
      (''Amount'', NoTag, TBigIntPtr), (''Payload'', NoTag, TBytes), (''V'', NoTag, TBigIntPtr),
      (''R'', NoTag, TBigIntPtr), (''S'', NoTag, TBigIntPtr)]"

definition payload_bytes :: "bytes option \<Rightarrow> bytes" where
  "payload_bytes p = (case p of None \<Rightarrow> [] | Some b \<Rightarrow> b)"

definition tx_val :: "txdata \<Rightarrow> rval" where
  "tx_val d = VStruct
     [VUint (unat (td_Type d)), VUint (unat (td_AccountNonce d)), vbig (td_Price d),
      VUint (unat (td_GasLimit d)), VPtr (map_option VByteArray (td_Recipient d)),
      vbig (td_Amount d), VBytes (payload_bytes (td_Payload d)), vbig (td_V d), vbig (td_R d),
      vbig (td_S d)]"

text \<open>Reading a decoded value back; the decoder sets the payload to a non-nil slice.\<close>

definition tx_of :: "rval \<Rightarrow> txdata option" where
  "tx_of v =
     (case v of
        VStruct [ty, nonce, price, gas, rcpt, amount, payload, sv, sr, ss] \<Rightarrow>
          Some \<lparr>td_Type = word_of_nat (un_uint ty), td_AccountNonce = word_of_nat (un_uint nonce),
            td_Price = un_big price, td_GasLimit = word_of_nat (un_uint gas),
            td_Recipient = map_option un_bytes (un_ptr rcpt), td_Amount = un_big amount,
            td_Payload = Some (un_bytes payload), td_V = un_big sv, td_R = un_big sr, td_S = un_big ss\<rparr>
      | _ \<Rightarrow> None)"

definition tx_EncodeRLP :: "transaction \<Rightarrow> string + bytes" where
  "tx_EncodeRLP tx = encode_typed tx_type (tx_val (tx_data tx))"

definition tx_DecodeRLP :: "bytes \<Rightarrow> decErr + transaction" where
  "tx_DecodeRLP b =
     (case DecodeBytes (Suc (length b)) tx_type b of
        Inl e \<Rightarrow> Inl e
      | Inr v \<Rightarrow> (case tx_of v of None \<Rightarrow> Inl DecOutOfFuel
                 | Some d \<Rightarrow> Inr \<lparr>tx_data = d, tx_from = None\<rparr>))"

definition tx_Hash :: "keccak \<Rightarrow> transaction \<Rightarrow> hash" where
  "tx_Hash K tx = rlpHash K tx_type (tx_val (tx_data tx))"

section \<open>Signatures\<close>

definition secp256k1N :: int where
  "secp256k1N = 0xfffffffffffffffffffffffffffffffebaaedce6af48a03bbfd25e8cd0364141"

definition ValidateSignatureValues :: "byte \<Rightarrow> int \<Rightarrow> int \<Rightarrow> bool \<Rightarrow> bool" where
  "ValidateSignatureValues v r s homestead \<longleftrightarrow>
     \<not> (r < 1 \<or> s < 1) \<and> \<not> (homestead \<and> s > secp256k1N div 2) \<and>
     r < secp256k1N \<and> s < secp256k1N \<and> (v = 0 \<or> v = 1)"

type_synonym recover = "hash \<Rightarrow> bytes \<Rightarrow> bytes option"

definition pub_address :: "keccak \<Rightarrow> bytes \<Rightarrow> address" where
  "pub_address K pub = drop 12 (K (tl pub))"

definition recoverPlain ::
  "keccak \<Rightarrow> recover \<Rightarrow> hash \<Rightarrow> int \<Rightarrow> int \<Rightarrow> int \<Rightarrow> bool \<Rightarrow> txError + address" where
  "recoverPlain K ecr sighash R S Vb homestead =
     (if bitLen Vb > 8 then Inl ErrInvalidSig
      else
        let V = (ucast (big_Uint64 Vb - 27) :: byte) in
        if \<not> ValidateSignatureValues V R S homestead then Inl ErrInvalidSig
        else
          (case ecr sighash (setBytes 32 (nat_bytes (nat R)) @ setBytes 32 (nat_bytes (nat S)) @ [V]) of
             None \<Rightarrow> Inl ErrRecover
           | Some pub \<Rightarrow>
               if pub = [] \<or> hd pub \<noteq> 4 then Inl ErrInvalidPublicKey
               else Inr (pub_address K pub)))"

definition NewEIP155Signer :: "int option \<Rightarrow> signer" where
  "NewEIP155Signer chainId = (let c = (case chainId of None \<Rightarrow> 0 | Some c \<Rightarrow> c) in EIP155Signer c (c * 2))"

fun signer_Equal :: "signer \<Rightarrow> signer \<Rightarrow> bool" where
  "signer_Equal (EIP155Signer c _) s2 = (case s2 of EIP155Signer c2 _ \<Rightarrow> c2 = c | _ \<Rightarrow> False)"
| "signer_Equal HomesteadSigner s2 = (s2 = HomesteadSigner)"
| "signer_Equal FrontierSigner s2 = (s2 = FrontierSigner)"

text \<open>The fields that every signer hashes.\<close>

definition sig_fields :: "txdata \<Rightarrow> rval list" where
  "sig_fields d =
     [ifc (TUint 64) (VUint (unat (td_AccountNonce d))), ifc TBigIntPtr (vbig (td_Price d)),
      ifc (TUint 64) (VUint (unat (td_GasLimit d))),
      ifc (TPtr (TByteArray 20)) (VPtr (map_option VByteArray (td_Recipient d))),
      ifc TBigIntPtr (vbig (td_Amount d)), ifc TBytes (VBytes (payload_bytes (td_Payload d)))]"

fun signer_Hash :: "keccak \<Rightarrow> signer \<Rightarrow> transaction \<Rightarrow> hash" where
  "signer_Hash K (EIP155Signer c _) tx = rlpHash K (TSlice TInterface)
     (VSlice (sig_fields (tx_data tx) @
        [ifc TBigIntPtr (vbig c), ifc (TUint 64) (VUint 0), ifc (TUint 64) (VUint 0)]))"
| "signer_Hash K _ tx = rlpHash K (TSlice TInterface) (VSlice (sig_fields (tx_data tx)))"

definition homestead_Sender :: "keccak \<Rightarrow> recover \<Rightarrow> bool \<Rightarrow> transaction \<Rightarrow> txError + address" where
  "homestead_Sender K ecr homestead tx =
     (let d = tx_data tx in
      recoverPlain K ecr (signer_Hash K HomesteadSigner tx) (td_R d) (td_S d) (td_V d) homestead)"

fun signer_Sender :: "keccak \<Rightarrow> recover \<Rightarrow> signer \<Rightarrow> transaction \<Rightarrow> txError + address" where
  "signer_Sender K ecr (EIP155Signer c cm) tx =
     (if \<not> Protected tx then homestead_Sender K ecr True tx
      else if ChainId tx \<noteq> c then Inl ErrInvalidChainId
      else
        let d = tx_data tx in
        recoverPlain K ecr (signer_Hash K (EIP155Signer c cm) tx) (td_R d) (td_S d) (td_V d - cm - 8) True)"
| "signer_Sender K ecr HomesteadSigner tx = homestead_Sender K ecr True tx"
| "signer_Sender K ecr FrontierSigner tx = homestead_Sender K ecr False tx"

text \<open>\<open>Sender\<close> caches the address with the signer that recovered it.\<close>

definition Sender :: "keccak \<Rightarrow> recover \<Rightarrow> signer \<Rightarrow> transaction \<Rightarrow> (txError + address) \<times> transaction" where
  "Sender K ecr s tx =
     (let miss = (case signer_Sender K ecr s tx of
                    Inl e \<Rightarrow> (Inl e, tx)
                  | Inr a \<Rightarrow> (Inr a, tx\<lparr>tx_from := Some (s, a)\<rparr>))
      in case tx_from tx of
           Some (s', a) \<Rightarrow> if signer_Equal s' s then (Inr a, tx) else miss
         | None \<Rightarrow> miss)"

text \<open>\<open>None\<close> is the panic on a signature that has not 65 bytes.\<close>

definition frontier_SignatureValues :: "bytes \<Rightarrow> (int \<times> int \<times> int) option" where
  "frontier_SignatureValues sig =
     (if length sig \<noteq> 65 then None
      else Some (int (be_val (take 32 sig)), int (be_val (take 32 (drop 32 sig))), uint (sig ! 64 + 27)))"

fun SignatureValues :: "signer \<Rightarrow> bytes \<Rightarrow> (int \<times> int \<times> int) option" where
  "SignatureValues (EIP155Signer c cm) sig =
     (case frontier_SignatureValues sig of
        None \<Rightarrow> None
      | Some (r, s, v) \<Rightarrow> Some (r, s, if c \<noteq> 0 then uint (sig ! 64 + 35) + cm else v))"
| "SignatureValues _ sig = frontier_SignatureValues sig"

definition WithSignature :: "signer \<Rightarrow> bytes \<Rightarrow> transaction \<Rightarrow> transaction option" where
  "WithSignature sg sig tx =
     (case SignatureValues sg sig of
        None \<Rightarrow> None
      | Some (r, s, v) \<Rightarrow>
          Some \<lparr>tx_data = (tx_data tx)\<lparr>td_R := r, td_S := s, td_V := v\<rparr>, tx_from = None\<rparr>)"

text \<open>The signing function of \<open>crypto\<close> is a parameter, applied to the hash.\<close>

definition SignTx :: "keccak \<Rightarrow> (hash \<Rightarrow> bytes option) \<Rightarrow> signer \<Rightarrow> transaction \<Rightarrow> transaction option" where
  "SignTx K sign sg tx =
     (case sign (signer_Hash K sg tx) of None \<Rightarrow> None | Some sig \<Rightarrow> WithSignature sg sig tx)"

section \<open>Messages and transaction lists\<close>

record message =
  ms_to :: "address option"
  ms_from :: address
  ms_nonce :: uint64
  ms_amount :: int
  ms_gasLimit :: uint64
  ms_gasPrice :: int
  ms_data :: "bytes option"
  ms_checkNonce :: bool
  ms_txType :: txType

definition AsMessage :: "keccak \<Rightarrow> recover \<Rightarrow> signer \<Rightarrow> transaction \<Rightarrow> (txError + message) \<times> transaction" where
  "AsMessage K ecr s tx =
     (case Sender K ecr s tx of
        (Inl e, tx) \<Rightarrow> (Inl e, tx)
      | (Inr a, tx) \<Rightarrow>
          (let d = tx_data tx in
           (Inr \<lparr>ms_to = td_Recipient d, ms_from = a, ms_nonce = td_AccountNonce d, ms_amount = td_Amount d,
              ms_gasLimit = td_GasLimit d, ms_gasPrice = td_Price d, ms_data = td_Payload d,
              ms_checkNonce = True, ms_txType = td_Type d\<rparr>, tx)))"

definition TxDifference :: "keccak \<Rightarrow> transaction list \<Rightarrow> transaction list \<Rightarrow> transaction list" where
  "TxDifference K a b =
     (let remove = set (map (tx_Hash K) b) in filter (\<lambda>tx. tx_Hash K tx \<notin> remove) a)"

definition txs_GetRlp :: "transaction list \<Rightarrow> nat \<Rightarrow> bytes" where
  "txs_GetRlp txs i = (case tx_EncodeRLP (txs ! i) of Inl e \<Rightarrow> [] | Inr b \<Rightarrow> b)"

section \<open>Bit lengths and byte strings\<close>

lemma nat_len_le: "nat_len n \<le> k \<longleftrightarrow> n < 2 ^ k"
proof (induction n arbitrary: k rule: nat_len.induct)
  case (1 n)
  show ?case
  proof (cases "n = 0")
    case True
    then show ?thesis by (simp add: nat_len.simps)
  next
    case False
    then show ?thesis
      using 1 [of "k - 1"] by (cases k) (auto simp: nat_len.simps [of n] div_less_iff_less_mult)
  qed
qed

lemma bitLen_le: "0 \<le> i \<Longrightarrow> bitLen i \<le> k \<longleftrightarrow> i < 2 ^ k"
  by (simp add: bitLen_def nat_len_le nat_less_iff)

lemma nat_bytes_be_val: "\<exists>z. b = replicate z 0 @ nat_bytes (be_val b)"
proof (induction b rule: rev_induct)
  case Nil
  then show ?case by simp
next
  case (snoc x b)
  then obtain z where z: "b = replicate z 0 @ nat_bytes (be_val b)" by blast
  have d: "(be_val b * 256 + unat x) div 256 = be_val b" "(be_val b * 256 + unat x) mod 256 = unat x"
    using unat_byte_lt [of x] by simp_all
  show ?case
  proof (cases "be_val b * 256 + unat x = 0")
    case True
    then have b0: "be_val b = 0" "x = 0" by (auto simp: unat_eq_zero)
    then have "b = replicate z 0" using z by simp
    moreover have e: "be_val (b @ [x]) = 0" using True by simp
    ultimately have "b @ [x] = replicate (Suc z) 0 @ nat_bytes (be_val (b @ [x]))"
      unfolding e using b0 by (simp add: replicate_append_same)
    then show ?thesis by blast
  next
    case False
    then have e: "nat_bytes (be_val b * 256 + unat x) = nat_bytes (be_val b) @ [x]"
      using d by (subst nat_bytes.simps) simp
    have "b @ [x] = replicate z 0 @ nat_bytes (be_val (b @ [x]))"
      unfolding be_val_snoc e using z by (metis append_assoc)
    then show ?thesis by blast
  qed
qed

lemma setBytes_nat_bytes: "length b = n \<Longrightarrow> setBytes n (nat_bytes (be_val b)) = b"
proof -
  assume n: "length b = n"
  obtain z where z: "b = replicate z 0 @ nat_bytes (be_val b)" using nat_bytes_be_val by blast
  then have "n = z + length (nat_bytes (be_val b))" using n by (metis length_append length_replicate)
  then show ?thesis using z by (simp add: setBytes_def)
qed

section \<open>Signing\<close>

lemma signer_Hash_indep [simp]:
  "signer_Hash K sg (\<lparr>tx_data = (tx_data tx)\<lparr>td_R := r, td_S := s, td_V := v\<rparr>, tx_from = f\<rparr>) = signer_Hash K sg tx"
  by (cases sg) (simp_all add: sig_fields_def)

lemma deriveChainId_eip155:
  assumes "v = 0 \<or> v = 1" "1 \<le> c"
  shows "deriveChainId (v + 35 + c * 2) = c"
proof (cases "bitLen (v + 35 + c * 2) \<le> 64")
  case True
  then have lt: "v + 35 + c * 2 < 2 ^ 64" using assms by (subst (asm) bitLen_le) auto
  let ?w = "big_Uint64 (v + 35 + c * 2)"
  have u: "uint ?w = v + 35 + c * 2"
    unfolding big_Uint64_def using lt assms by (subst uint_word_of_int) auto
  have "?w \<noteq> 27" "?w \<noteq> 28" using u assms by auto
  moreover have "uint (?w - 35) = v + c * 2"
    using u assms uint_sub_lem [of 35 ?w] by auto
  then have "uint ((?w - 35) div 2) = c" using assms by (auto simp: uint_div)
  ultimately show ?thesis using True by (simp add: deriveChainId_def)
next
  case False
  then show ?thesis using assms by (auto simp: deriveChainId_def)
qed

lemma isProtectedV_eip155:
  assumes "v = 0 \<or> v = 1" "1 \<le> c"
  shows "isProtectedV (v + 35 + c * 2)"
proof (cases "bitLen (v + 35 + c * 2) \<le> 8")
  case True
  then have lt: "v + 35 + c * 2 < 2 ^ 8" using assms by (subst (asm) bitLen_le) auto
  then have "uint (big_Uint64 (v + 35 + c * 2)) = v + 35 + c * 2"
    unfolding big_Uint64_def using assms by (subst uint_word_of_int) auto
  then have "big_Uint64 (v + 35 + c * 2) \<noteq> 27" "big_Uint64 (v + 35 + c * 2) \<noteq> 28" using assms by auto
  then show ?thesis by (simp add: isProtectedV_def)
next
  case False
  then show ?thesis by (simp add: isProtectedV_def)
qed

lemma recoverPlain_sig:
  assumes "length sig = 65" "sig ! 64 = 0 \<or> sig ! 64 = 1"
    "ValidateSignatureValues (sig ! 64) (int (be_val (take 32 sig))) (int (be_val (take 32 (drop 32 sig)))) h"
    "ecr hash sig = Some pub" "pub \<noteq> []" "hd pub = 4"
  shows "recoverPlain K ecr hash (int (be_val (take 32 sig))) (int (be_val (take 32 (drop 32 sig))))
     (uint (sig ! 64) + 27) h = Inr (pub_address K pub)"
proof -
  have b: "\<not> bitLen (uint (sig ! 64) + 27) > 8" using assms(2) by (auto simp: not_less bitLen_le)
  have v: "(ucast (big_Uint64 (uint (sig ! 64) + 27) - 27) :: byte) = sig ! 64"
    using assms(2) by (auto simp: big_Uint64_def)
  have "sig = take 32 sig @ take 32 (drop 32 sig) @ drop 64 sig"
    using append_take_drop_id [of 32 sig] append_take_drop_id [of 32 "drop 32 sig"] by simp
  moreover have "drop 64 sig = [sig ! 64]"
    using assms(1) Cons_nth_drop_Suc [of 64 sig] by simp
  ultimately have "setBytes 32 (nat_bytes (be_val (take 32 sig))) @
      setBytes 32 (nat_bytes (be_val (take 32 (drop 32 sig)))) @ [sig ! 64] = sig"
    using assms(1) by (simp add: setBytes_nat_bytes)
  then show ?thesis
    using b v assms(3-6) by (simp add: recoverPlain_def Let_def)
qed


text \<open>
  C21: The signature of a transaction does not cover its type: changing the type of a signed
  transaction, for instance from a transfer to a vote, leaves the recovered sender unchanged,
  with every signer.
\<close>

theorem signature_ignores_type:
  "signer_Sender K ecr s (tx\<lparr>tx_data := (tx_data tx)\<lparr>td_Type := ty\<rparr>\<rparr>) = signer_Sender K ecr s tx"
  by (cases s) (simp_all add: sig_fields_def Protected_def ChainId_def homestead_Sender_def Let_def)

text \<open>
  C19: Signing with a replay-protected signer and recovering with the same signer gives the address
  of the key the library recovers from the signature; a signer of any other chain rejects the
  transaction. The range conditions on the signature are those of canonical signatures.
\<close>

theorem eip155_sign_sender:
  assumes "1 \<le> c" "length sig = 65" "sig ! 64 = 0 \<or> sig ! 64 = 1"
    "ValidateSignatureValues (sig ! 64) (int (be_val (take 32 sig))) (int (be_val (take 32 (drop 32 sig)))) True"
    "sign (signer_Hash K (NewEIP155Signer (Some c)) tx) = Some sig"
    "ecr (signer_Hash K (NewEIP155Signer (Some c)) tx) sig = Some pub" "pub \<noteq> []" "hd pub = 4"
  shows "\<exists>tx'. SignTx K sign (NewEIP155Signer (Some c)) tx = Some tx'
    \<and> fst (Sender K ecr (NewEIP155Signer (Some c)) tx') = Inr (pub_address K pub)
    \<and> (\<forall>c'. c' \<noteq> c \<longrightarrow> fst (Sender K ecr (NewEIP155Signer (Some c')) tx') = Inl ErrInvalidChainId)"
proof -
  let ?sg = "EIP155Signer c (c * 2)" and ?v = "uint (sig ! 64) + 35 + c * 2"
  let ?tx = "\<lparr>tx_data = (tx_data tx)\<lparr>td_R := int (be_val (take 32 sig)),
    td_S := int (be_val (take 32 (drop 32 sig))), td_V := ?v\<rparr>, tx_from = None\<rparr>"
  have sg: "NewEIP155Signer (Some k) = EIP155Signer k (k * 2)" for k by (simp add: NewEIP155Signer_def)
  have "uint (sig ! 64 + 35) = uint (sig ! 64) + 35" using assms(3) by auto
  then have s: "SignTx K sign ?sg tx = Some ?tx"
    using assms(1,2,5) by (simp add: SignTx_def WithSignature_def frontier_SignatureValues_def sg)
  have "uint (sig ! 64) = 0 \<or> uint (sig ! 64) = 1" using assms(3) by auto
  then have p: "Protected ?tx" "ChainId ?tx = c"
    using deriveChainId_eip155 [of "uint (sig ! 64)" c] isProtectedV_eip155 [of "uint (sig ! 64)" c] assms(1)
    by (simp_all add: Protected_def ChainId_def)
  have "recoverPlain K ecr (signer_Hash K ?sg tx) (int (be_val (take 32 sig))) (int (be_val (take 32 (drop 32 sig))))
      (uint (sig ! 64) + 27) True = Inr (pub_address K pub)"
    using recoverPlain_sig [OF assms(2-4) _ assms(7,8)] assms(6) by (simp add: sg)
  then have "signer_Sender K ecr ?sg ?tx = Inr (pub_address K pub)"
    using p signer_Hash_indep by (simp add: Let_def add.commute del: signer_Hash.simps)
  moreover have "signer_Sender K ecr (EIP155Signer c' (c' * 2)) ?tx = Inl ErrInvalidChainId" if "c' \<noteq> c" for c'
    using p that by simp
  ultimately show ?thesis
    unfolding sg using s by (auto simp: Sender_def Let_def simp del: signer_Sender.simps)
qed


definition sample_sig :: bytes where
  "sample_sig = (replicate 31 0 @ [1]) @ (replicate 31 0 @ [1]) @ [0]"

lemma be_val_replicate_0 [simp]: "be_val (replicate n 0) = 0"
  by (induction n) (simp_all add: be_val_Cons)

theorem eip155_sign_sender_witness:
  "\<exists>tx'. SignTx (\<lambda>b. replicate 32 1) (\<lambda>h. Some sample_sig) (NewEIP155Signer (Some 1))
      (newTransaction Binary 0 None None 0 None None) = Some tx'
    \<and> fst (Sender (\<lambda>b. replicate 32 1) (\<lambda>h sig. Some [4]) (NewEIP155Signer (Some 1)) tx') = Inr (replicate 20 1)
    \<and> fst (Sender (\<lambda>b. replicate 32 1) (\<lambda>h sig. Some [4]) (NewEIP155Signer (Some 2)) tx') = Inl ErrInvalidChainId"
proof -
  have s: "take 32 sample_sig = replicate 31 0 @ [1]" "take 32 (drop 32 sample_sig) = replicate 31 0 @ [1]"
    "sample_sig ! 64 = 0" "length sample_sig = 65"
    by (simp_all add: sample_sig_def nth_append)
  then have "ValidateSignatureValues (sample_sig ! 64) (int (be_val (take 32 sample_sig)))
      (int (be_val (take 32 (drop 32 sample_sig)))) True"
    by (simp add: ValidateSignatureValues_def secp256k1N_def)
  then obtain tx' where t: "SignTx (\<lambda>b. replicate 32 1) (\<lambda>h. Some sample_sig) (NewEIP155Signer (Some 1))
      (newTransaction Binary 0 None None 0 None None) = Some tx'"
      "fst (Sender (\<lambda>b. replicate 32 1) (\<lambda>h sig. Some [4]) (NewEIP155Signer (Some 1)) tx') =
        Inr (pub_address (\<lambda>b. replicate 32 1) [4])"
      "\<forall>c'. c' \<noteq> 1 \<longrightarrow> fst (Sender (\<lambda>b. replicate 32 1) (\<lambda>h sig. Some [4]) (NewEIP155Signer (Some c')) tx') =
        Inl ErrInvalidChainId"
    using eip155_sign_sender [of 1 sample_sig "\<lambda>h. Some sample_sig" "\<lambda>b. replicate 32 1"
        "newTransaction Binary 0 None None 0 None None" "\<lambda>h sig. Some [4]" "[4]"] s(3,4) by auto
  then show ?thesis by (auto simp: pub_address_def)
qed

section \<open>Encoding\<close>

definition tx_wf :: "txdata \<Rightarrow> bool" where
  "tx_wf d \<longleftrightarrow> (\<forall>a. td_Recipient d = Some a \<longrightarrow> is_addr a) \<and> 0 \<le> td_Price d \<and> 0 \<le> td_Amount d
     \<and> 0 \<le> td_V d \<and> 0 \<le> td_R d \<and> 0 \<le> td_S d"

text \<open>The encoding, written out field by field.\<close>

definition tx_bytes :: "txdata \<Rightarrow> bytes" where
  "tx_bytes d = item List (concat (map (\<lambda>b. rlp_enc (RStr b))
     [nat_bytes (unat (td_Type d)), nat_bytes (unat (td_AccountNonce d)), nat_bytes (nat (td_Price d)),
      nat_bytes (unat (td_GasLimit d)), case td_Recipient d of None \<Rightarrow> [] | Some a \<Rightarrow> a,
      nat_bytes (nat (td_Amount d)), payload_bytes (td_Payload d), nat_bytes (nat (td_V d)),
      nat_bytes (nat (td_R d)), nat_bytes (nat (td_S d))]))"

lemma unat_byte_pow: "unat (x :: byte) < 2 ^ 8" and unat_word64_pow: "unat (y :: uint64) < 2 ^ 64"
  using unsigned_less [where ?'a = nat, of x] unsigned_less [where ?'a = nat, of y] by simp_all

lemma enc_as_recipient:
  assumes "\<forall>a. r = Some a \<longrightarrow> is_addr a"
  shows "enc_as (TPtr (TByteArray 20)) NilTag (VPtr (map_option VByteArray r))
    (rlp_enc (RStr (case r of None \<Rightarrow> [] | Some a \<Rightarrow> a)))"
proof (cases r)
  case None
  then show ?thesis
    using optnone [of "TByteArray 20"] by (simp add: puthead_def)
next
  case (Some a)
  then have l: "length a = 20" using assms by (simp add: is_addr_def AddressLength_def)
  then have e: "rlp_enc (RStr a) = 0x94 # a"
    by (cases a) (auto simp: puthead_def word_le_nat_alt)
  have "enc_as (TByteArray 20) NoTag (VByteArray a) (rlp_enc (RStr a))"
    using bytearray [of a NoTag] l by force
  moreover have "rlp_enc (RStr a) \<noteq> [0x80]" "rlp_enc (RStr a) \<noteq> [0xC0]" using e by auto
  ultimately show ?thesis using Some optsome by simp
qed

lemma enc_as_tx:
  assumes "tx_wf d"
  shows "enc_as tx_type NoTag (tx_val d) (tx_bytes d)"
  unfolding tx_type_def tx_val_def tx_bytes_def vbig_def list.map
  using assms enc_as_recipient [of "td_Recipient d"] unat_byte_pow [of "td_Type d"] unat_word64_pow
  by (intro struct fields_cons fields_nil uint bigptr bytes) (auto simp: tx_wf_def)

lemma tx_of_val: "tx_wf d \<Longrightarrow> tx_of (tx_val d) = Some (d\<lparr>td_Payload := Some (payload_bytes (td_Payload d))\<rparr>)"
  by (cases "td_Recipient d") (simp_all add: tx_of_def tx_val_def vbig_def un_defs)

lemma tx_of_payload: "tx_of v = Some d \<Longrightarrow> td_Payload d \<noteq> None"
  by (auto simp: tx_of_def split: rval.splits list.splits)

lemma tx_DecodeRLP_bytes:
  assumes "tx_wf (tx_data tx)" "length (tx_bytes (tx_data tx)) < 2 ^ 63"
  shows "tx_EncodeRLP tx = Inr (tx_bytes (tx_data tx))"
    "tx_DecodeRLP (tx_bytes (tx_data tx)) = Inr \<lparr>tx_data =
      (tx_data tx)\<lparr>td_Payload := Some (payload_bytes (td_Payload (tx_data tx)))\<rparr>, tx_from = None\<rparr>"
  using encode_typed_enc [OF enc_as_tx [OF assms(1)] assms(2)]
    DecodeBytes_enc [OF enc_as_tx [OF assms(1)] assms(2), of "Suc (length (tx_bytes (tx_data tx)))"]
    tx_of_val [OF assms(1)]
  by (simp_all add: tx_EncodeRLP_def tx_DecodeRLP_def)

definition sample_tx :: transaction where
  "sample_tx = newTransaction RegCandidate 5 (Some (replicate 20 7)) None 21000 (Some 1) None"

lemma sample_tx_bytes: "length (tx_bytes (tx_data sample_tx)) \<le> 2000"
proof -
  have "nat_bytes 1 = [1]" "nat_bytes 5 = [5]" "nat_bytes 21000 = [82, 8]"
    by (simp_all add: nat_bytes.simps)
  then show ?thesis
    by (simp add: sample_tx_def newTransaction_def tx_bytes_def item_def payload_bytes_def RegCandidate_def
        puthead_def word_le_nat_alt)
qed

lemma sample_tx_wf: "tx_wf (tx_data sample_tx)" "length (tx_bytes (tx_data sample_tx)) < 2 ^ 63"
  using sample_tx_bytes
  by (simp_all add: sample_tx_def newTransaction_def tx_wf_def is_addr_def AddressLength_def)

text \<open>
  C20: Encoding a transaction and decoding the result gives the transaction back, its sender cache
  empty and its payload a non-nil slice of the same bytes.
\<close>

theorem tx_round_trip:
  assumes "tx_wf (tx_data tx)" "length (tx_bytes (tx_data tx)) < 2 ^ 63"
  shows "\<exists>e. tx_EncodeRLP tx = Inr e \<and> tx_DecodeRLP e = Inr \<lparr>tx_data =
      (tx_data tx)\<lparr>td_Payload := Some (payload_bytes (td_Payload (tx_data tx)))\<rparr>, tx_from = None\<rparr>"
  using tx_DecodeRLP_bytes [OF assms] by blast

theorem tx_round_trip_witness:
  "\<exists>e. tx_EncodeRLP sample_tx = Inr e \<and>
     tx_DecodeRLP e = Inr \<lparr>tx_data = (tx_data sample_tx)\<lparr>td_Payload := Some []\<rparr>, tx_from = None\<rparr>"
  using tx_round_trip [OF sample_tx_wf] by (simp add: sample_tx_def newTransaction_def payload_bytes_def)

text \<open>
  C36: No transaction read from its RLP encoding passes \<open>Validate\<close> unless it is of the plain type:
  the decoder always sets the payload to a non-nil slice, and \<open>Validate\<close> rejects a payload that
  is not nil even when it is empty.
\<close>

theorem decoded_dpos_tx_invalid:
  assumes "tx_DecodeRLP b = Inr tx" "td_Type (tx_data tx) \<noteq> Binary"
  shows "\<exists>e. tx_Validate tx = Inl e"
proof -
  obtain v where "tx_of v = Some (tx_data tx)"
    using assms(1) by (auto simp: tx_DecodeRLP_def split: sum.splits option.splits)
  then have "td_Payload (tx_data tx) \<noteq> None" by (rule tx_of_payload)
  then show ?thesis using assms(2) by (auto simp: tx_Validate_def Let_def)
qed


theorem decoded_dpos_tx_invalid_witness:
  "\<exists>b tx. tx_DecodeRLP b = Inr tx \<and> td_Type (tx_data tx) = RegCandidate \<and> (\<exists>e. tx_Validate tx = Inl e)"
proof -
  let ?tx = "\<lparr>tx_data = (tx_data sample_tx)\<lparr>td_Payload := Some []\<rparr>, tx_from = None\<rparr>"
  have "tx_DecodeRLP (tx_bytes (tx_data sample_tx)) = Inr ?tx" "td_Type (tx_data ?tx) = RegCandidate"
    using tx_DecodeRLP_bytes(2) [OF sample_tx_wf]
    by (simp_all add: sample_tx_def newTransaction_def payload_bytes_def)
  then show ?thesis
    using decoded_dpos_tx_invalid [of "tx_bytes (tx_data sample_tx)" ?tx] Binary_def RegCandidate_def
    by (metis zero_neq_one)
qed

end
