(* ===== verification/Block_Types.thy ===== *)
theory Block_Types
  imports Transactions
begin

text \<open>
  Block headers, logs, receipts, bloom filters, list roots and blocks: \<open>core/types/block.go\<close>,
  \<open>log.go\<close>, \<open>receipt.go\<close>, \<open>bloom9.go\<close>, \<open>derive_sha.go\<close> and \<open>DposContextProto\<close> of
  \<open>dpos_context.go\<close>. A pointer that may be nil is an option.
\<close>

section \<open>Logs and receipts\<close>

record log =
  lg_Address :: address
  lg_Topics :: "hash list"
  lg_Data :: bytes
  lg_BlockNumber :: uint64
  lg_TxHash :: hash
  lg_TxIndex :: uint64
  lg_BlockHash :: hash
  lg_Index :: uint64
  lg_Removed :: bool

definition log_type :: rtype where
  "log_type = TStruct [(''Address'', NoTag, TByteArray 20), (''Topics'', NoTag, TSlice (TByteArray 32)),
     (''Data'', NoTag, TBytes)]"

definition log_val :: "log \<Rightarrow> rval" where
  "log_val l = VStruct [VByteArray (lg_Address l), VSlice (map VByteArray (lg_Topics l)), VBytes (lg_Data l)]"

definition storageLog_type :: rtype where
  "storageLog_type = TStruct [(''Address'', NoTag, TByteArray 20), (''Topics'', NoTag, TSlice (TByteArray 32)),
     (''Data'', NoTag, TBytes), (''BlockNumber'', NoTag, TUint 64), (''TxHash'', NoTag, TByteArray 32),
     (''TxIndex'', NoTag, TUint 64), (''BlockHash'', NoTag, TByteArray 32), (''Index'', NoTag, TUint 64)]"

definition storageLog_val :: "log \<Rightarrow> rval" where
  "storageLog_val l = VStruct [VByteArray (lg_Address l), VSlice (map VByteArray (lg_Topics l)),
     VBytes (lg_Data l), VUint (unat (lg_BlockNumber l)), VByteArray (lg_TxHash l), VUint (unat (lg_TxIndex l)),
     VByteArray (lg_BlockHash l), VUint (unat (lg_Index l))]"

definition storageLog_of :: "rval \<Rightarrow> log" where
  "storageLog_of v = (let vs = un_slice v in
     \<lparr>lg_Address = un_bytes (vs ! 0), lg_Topics = map un_bytes (un_slice (vs ! 1)), lg_Data = un_bytes (vs ! 2),
      lg_BlockNumber = word_of_nat (un_uint (vs ! 3)), lg_TxHash = un_bytes (vs ! 4),
      lg_TxIndex = word_of_nat (un_uint (vs ! 5)), lg_BlockHash = un_bytes (vs ! 6),
      lg_Index = word_of_nat (un_uint (vs ! 7)), lg_Removed = False\<rparr>)"

record receipt =
  rc_PostState :: bytes
  rc_Status :: uint64
  rc_CumulativeGasUsed :: uint64
  rc_Bloom :: bytes
  rc_Logs :: "log list"
  rc_TxHash :: hash
  rc_ContractAddress :: address
  rc_GasUsed :: uint64

definition ReceiptStatusFailed :: uint64 where "ReceiptStatusFailed = 0"
definition ReceiptStatusSuccessful :: uint64 where "ReceiptStatusSuccessful = 1"

definition NewReceipt :: "bytes \<Rightarrow> bool \<Rightarrow> uint64 \<Rightarrow> receipt" where
  "NewReceipt root failed gas =
     \<lparr>rc_PostState = root, rc_Status = (if failed then ReceiptStatusFailed else ReceiptStatusSuccessful),
      rc_CumulativeGasUsed = gas, rc_Bloom = replicate 256 0, rc_Logs = [], rc_TxHash = zeroHash,
      rc_ContractAddress = zeroAddress, rc_GasUsed = 0\<rparr>"

definition statusEncoding :: "receipt \<Rightarrow> bytes" where
  "statusEncoding r =
     (if length (rc_PostState r) = 0 then if rc_Status r = ReceiptStatusFailed then [] else [0x01]
      else rc_PostState r)"

definition setStatus :: "bytes \<Rightarrow> receipt \<Rightarrow> receipt option" where
  "setStatus b r =
     (if b = [0x01] then Some (r\<lparr>rc_Status := ReceiptStatusSuccessful\<rparr>)
      else if b = [] then Some (r\<lparr>rc_Status := ReceiptStatusFailed\<rparr>)
      else if length b = HashLength then Some (r\<lparr>rc_PostState := b\<rparr>)
      else None)"

definition receipt_type :: rtype where
  "receipt_type = TStruct [(''PostStateOrStatus'', NoTag, TBytes), (''CumulativeGasUsed'', NoTag, TUint 64),
     (''Bloom'', NoTag, TByteArray 256), (''Logs'', NoTag, TSlice (TPtr log_type))]"

definition receipt_val :: "receipt \<Rightarrow> rval" where
  "receipt_val r = VStruct [VBytes (statusEncoding r), VUint (unat (rc_CumulativeGasUsed r)),
     VByteArray (rc_Bloom r), VSlice (map (\<lambda>l. VPtr (Some (log_val l))) (rc_Logs r))]"

definition receipt_EncodeRLP :: "receipt \<Rightarrow> string + bytes" where
  "receipt_EncodeRLP r = encode_typed receipt_type (receipt_val r)"

definition storageReceipt_type :: rtype where
  "storageReceipt_type = TStruct [(''PostStateOrStatus'', NoTag, TBytes),
     (''CumulativeGasUsed'', NoTag, TUint 64), (''Bloom'', NoTag, TByteArray 256),
     (''TxHash'', NoTag, TByteArray 32), (''ContractAddress'', NoTag, TByteArray 20),
     (''Logs'', NoTag, TSlice (TPtr storageLog_type)), (''GasUsed'', NoTag, TUint 64)]"

definition storageReceipt_val :: "receipt \<Rightarrow> rval" where
  "storageReceipt_val r = VStruct [VBytes (statusEncoding r), VUint (unat (rc_CumulativeGasUsed r)),
     VByteArray (rc_Bloom r), VByteArray (rc_TxHash r), VByteArray (rc_ContractAddress r),
     VSlice (map (\<lambda>l. VPtr (Some (storageLog_val l))) (rc_Logs r)), VUint (unat (rc_GasUsed r))]"

definition storageReceipt_EncodeRLP :: "receipt \<Rightarrow> string + bytes" where
  "storageReceipt_EncodeRLP r = encode_typed storageReceipt_type (storageReceipt_val r)"

text \<open>Decoding into the zero receipt; \<open>Inl\<close> also covers an invalid status.\<close>

definition storageReceipt_DecodeRLP :: "bytes \<Rightarrow> decErr option + receipt" where
  "storageReceipt_DecodeRLP b =
     (case DecodeBytes (Suc (length b)) storageReceipt_type b of
        Inl e \<Rightarrow> Inl (Some e)
      | Inr v \<Rightarrow>
          (let vs = un_slice v;
               zero = \<lparr>rc_PostState = [], rc_Status = 0, rc_CumulativeGasUsed = 0, rc_Bloom = replicate 256 0,
                       rc_Logs = [], rc_TxHash = zeroHash, rc_ContractAddress = zeroAddress, rc_GasUsed = 0\<rparr>
           in case setStatus (un_bytes (vs ! 0)) zero of
                None \<Rightarrow> Inl None
              | Some r \<Rightarrow>
                  Inr (r\<lparr>rc_CumulativeGasUsed := word_of_nat (un_uint (vs ! 1)), rc_Bloom := un_bytes (vs ! 2),
                    rc_Logs := map (\<lambda>l. storageLog_of (the (un_ptr l))) (un_slice (vs ! 5)),
                    rc_TxHash := un_bytes (vs ! 3), rc_ContractAddress := un_bytes (vs ! 4),
                    rc_GasUsed := word_of_nat (un_uint (vs ! 6))\<rparr>)))"

definition receipts_GetRlp :: "receipt list \<Rightarrow> nat \<Rightarrow> bytes option" where
  "receipts_GetRlp rs i = (case receipt_EncodeRLP (rs ! i) of Inl e \<Rightarrow> None | Inr b \<Rightarrow> Some b)"

section \<open>Bloom filters\<close>

definition BloomByteLength :: nat where "BloomByteLength = 256"

text \<open>The bits of a big integer that \<open>bloom9\<close> sets; the hash has at least six bytes.\<close>

definition bloom_bit :: "bytes \<Rightarrow> nat \<Rightarrow> nat" where
  "bloom_bit h i = unat (((ucast (h ! (i + 1)) :: uint64) + push_bit 8 (ucast (h ! i))) AND 2047)"

definition bloom9 :: "keccak \<Rightarrow> bytes \<Rightarrow> nat" where
  "bloom9 K b =
     (let h = K b in
      fold (\<lambda>i r. r OR 2 ^ bloom_bit h i) [0, 2, 4] 0)"

definition LogsBloom :: "keccak \<Rightarrow> log list \<Rightarrow> nat" where
  "LogsBloom K logs =
     fold (\<lambda>l bin. fold (\<lambda>t bin. bin OR bloom9 K t) (lg_Topics l) (bin OR bloom9 K (lg_Address l))) logs 0"

text \<open>\<open>SetBytes\<close> writes the tail of the array and panics on too many bytes.\<close>

definition bloom_SetBytes :: "bytes \<Rightarrow> bytes \<Rightarrow> bytes option" where
  "bloom_SetBytes b d =
     (if BloomByteLength < length d then None else Some (take (BloomByteLength - length d) b @ d))"

definition BytesToBloom :: "bytes \<Rightarrow> bytes option" where
  "BytesToBloom b = bloom_SetBytes (replicate BloomByteLength 0) b"

definition bloom_Add :: "keccak \<Rightarrow> bytes \<Rightarrow> nat \<Rightarrow> bytes option" where
  "bloom_Add K b d = bloom_SetBytes b (nat_bytes (be_val b OR bloom9 K (nat_bytes d)))"

definition CreateBloom :: "keccak \<Rightarrow> receipt list \<Rightarrow> bytes option" where
  "CreateBloom K receipts =
     BytesToBloom (nat_bytes (fold (\<lambda>r bin. bin OR LogsBloom K (rc_Logs r)) receipts 0))"

definition BloomLookup :: "keccak \<Rightarrow> bytes \<Rightarrow> bytes \<Rightarrow> bool" where
  "BloomLookup K bin topic = (let cmp = bloom9 K topic in be_val bin AND cmp = cmp)"

section \<open>List roots\<close>

text \<open>
  \<open>DeriveSha\<close> builds a trie without a database from the index of each entry to its encoding.
  The trie has no hash nodes, so it never asks for the database; its errors are only logged.
\<close>

definition zero_trie :: trie where
  "zero_trie = \<lparr>t_db = (\<lambda>h g. None), t_root = NilN, t_originalRoot = zeroHash, t_prefix = None,
     t_cachegen = 0, t_cachelimit = 0\<rparr>"

definition index_key :: "nat \<Rightarrow> bytes" where
  "index_key i = (case encode_typed (TUint 64) (VUint i) of Inl e \<Rightarrow> [] | Inr b \<Rightarrow> b)"

fun derive_trie :: "nat \<Rightarrow> bytes list \<Rightarrow> trie \<Rightarrow> trieError + trie" where
  "derive_trie i [] t = Inr t"
| "derive_trie i (b # bs) t =
     (case Update t (index_key i) b of Inl e \<Rightarrow> Inl e | Inr t \<Rightarrow> derive_trie (Suc i) bs t)"

definition DeriveSha :: "keccak \<Rightarrow> bytes list \<Rightarrow> trieError + hash" where
  "DeriveSha K list =
     (case derive_trie 0 list zero_trie of Inl e \<Rightarrow> Inl e | Inr t \<Rightarrow> Inr (fst (trie_Hash K t)))"

section \<open>Headers\<close>

record dposProto =
  px_EpochHash :: hash
  px_DelegateHash :: hash
  px_CandidateHash :: hash
  px_VoteHash :: hash
  px_MintCntHash :: hash

definition zeroProto :: dposProto where
  "zeroProto = \<lparr>px_EpochHash = zeroHash, px_DelegateHash = zeroHash, px_CandidateHash = zeroHash,
     px_VoteHash = zeroHash, px_MintCntHash = zeroHash\<rparr>"

definition proto_type :: rtype where
  "proto_type = TStruct [(''EpochHash'', NoTag, TByteArray 32), (''DelegateHash'', NoTag, TByteArray 32),
     (''CandidateHash'', NoTag, TByteArray 32), (''VoteHash'', NoTag, TByteArray 32),
     (''MintCntHash'', NoTag, TByteArray 32)]"

definition proto_val :: "dposProto \<Rightarrow> rval" where
  "proto_val p = VStruct (map VByteArray [px_EpochHash p, px_DelegateHash p, px_CandidateHash p,
     px_VoteHash p, px_MintCntHash p])"

text \<open>The five hashes are written to the hasher one after the other.\<close>

definition enc_hash :: "hash \<Rightarrow> bytes" where
  "enc_hash h = (case encode_typed (TByteArray 32) (VByteArray h) of Inl e \<Rightarrow> [] | Inr b \<Rightarrow> b)"

definition proto_Root :: "keccak \<Rightarrow> dposProto \<Rightarrow> hash" where
  "proto_Root K p = K (enc_hash (px_EpochHash p) @ enc_hash (px_DelegateHash p) @ enc_hash (px_CandidateHash p) @
     enc_hash (px_VoteHash p) @ enc_hash (px_MintCntHash p))"

record header =
  hd_ParentHash :: hash
  hd_UncleHash :: hash
  hd_Validator :: address
  hd_Coinbase :: address
  hd_Root :: hash
  hd_TxHash :: hash
  hd_ReceiptHash :: hash
  hd_DposContext :: "dposProto option"
  hd_Bloom :: bytes
  hd_Difficulty :: "int option"
  hd_Number :: "int option"
  hd_GasLimit :: uint64
  hd_GasUsed :: uint64
  hd_Time :: "int option"
  hd_Extra :: bytes
  hd_MixDigest :: hash
  hd_Nonce :: bytes
  hd_MaxValidatorSize :: uint64
  hd_BlockInterval :: uint64

definition header_type :: rtype where
  "header_type = TStruct
     [(''ParentHash'', NoTag, TByteArray 32), (''UncleHash'', NoTag, TByteArray 32),
      (''Validator'', NoTag, TByteArray 20), (''Coinbase'', NoTag, TByteArray 20),
      (''Root'', NoTag, TByteArray 32), (''TxHash'', NoTag, TByteArray 32),
      (''ReceiptHash'', NoTag, TByteArray 32), (''DposContext'', NoTag, TPtr proto_type),
      (''Bloom'', NoTag, TByteArray 256), (''Difficulty'', NoTag, TBigIntPtr), (''Number'', NoTag, TBigIntPtr),
      (''GasLimit'', NoTag, TUint 64), (''GasUsed'', NoTag, TUint 64), (''Time'', NoTag, TBigIntPtr),
      (''Extra'', NoTag, TBytes), (''MixDigest'', NoTag, TByteArray 32), (''Nonce'', NoTag, TByteArray 8),
      (''MaxValidatorSize'', NoTag, TUint 64), (''BlockInterval'', NoTag, TUint 64)]"

definition header_val :: "header \<Rightarrow> rval" where
  "header_val h = VStruct
     [VByteArray (hd_ParentHash h), VByteArray (hd_UncleHash h), VByteArray (hd_Validator h),
      VByteArray (hd_Coinbase h), VByteArray (hd_Root h), VByteArray (hd_TxHash h),
      VByteArray (hd_ReceiptHash h), VPtr (map_option proto_val (hd_DposContext h)),
      VByteArray (hd_Bloom h), VBigPtr (hd_Difficulty h), VBigPtr (hd_Number h),
      VUint (unat (hd_GasLimit h)), VUint (unat (hd_GasUsed h)), VBigPtr (hd_Time h), VBytes (hd_Extra h),
      VByteArray (hd_MixDigest h), VByteArray (hd_Nonce h), VUint (unat (hd_MaxValidatorSize h)),
      VUint (unat (hd_BlockInterval h))]"

definition EncodeNonce :: "uint64 \<Rightarrow> bytes" where
  "EncodeNonce i = putUint64 i"

definition nonce_Uint64 :: "bytes \<Rightarrow> uint64 option" where
  "nonce_Uint64 n = getUint64 n"

definition header_Hash :: "keccak \<Rightarrow> header \<Rightarrow> hash" where
  "header_Hash K h = rlpHash K header_type (header_val h)"

definition HashNoNonce :: "keccak \<Rightarrow> header \<Rightarrow> hash" where
  "HashNoNonce K h = rlpHash K (TSlice TInterface) (VSlice
     [ifc (TByteArray 32) (VByteArray (hd_ParentHash h)), ifc (TByteArray 32) (VByteArray (hd_UncleHash h)),
      ifc (TByteArray 20) (VByteArray (hd_Validator h)), ifc (TByteArray 20) (VByteArray (hd_Coinbase h)),
      ifc (TByteArray 32) (VByteArray (hd_Root h)), ifc (TByteArray 32) (VByteArray (hd_TxHash h)),
      ifc (TByteArray 32) (VByteArray (hd_ReceiptHash h)), ifc (TByteArray 256) (VByteArray (hd_Bloom h)),
      ifc TBigIntPtr (VBigPtr (hd_Difficulty h)), ifc TBigIntPtr (VBigPtr (hd_Number h)),
      ifc (TUint 64) (VUint (unat (hd_GasLimit h))), ifc (TUint 64) (VUint (unat (hd_GasUsed h))),
      ifc TBigIntPtr (VBigPtr (hd_Time h)), ifc TBytes (VBytes (hd_Extra h))])"

definition CopyHeader :: "header \<Rightarrow> header" where
  "CopyHeader h =
     h\<lparr>hd_Time := Some (case hd_Time h of None \<Rightarrow> 0 | Some t \<Rightarrow> t),
       hd_Difficulty := Some (case hd_Difficulty h of None \<Rightarrow> 0 | Some d \<Rightarrow> d),
       hd_Number := Some (case hd_Number h of None \<Rightarrow> 0 | Some n \<Rightarrow> n),
       hd_DposContext := Some (case hd_DposContext h of None \<Rightarrow> zeroProto | Some p \<Rightarrow> p)\<rparr>"

section \<open>Blocks\<close>

text \<open>
  A block, apart from its DPoS context (which the state processor passes on separately) and the
  caches of its hash and size.
\<close>

record block =
  bk_header :: header
  bk_uncles :: "header list"
  bk_transactions :: "transaction list"

definition CalcUncleHash :: "keccak \<Rightarrow> header list \<Rightarrow> hash" where
  "CalcUncleHash K uncles =
     rlpHash K (TSlice (TPtr header_type)) (VSlice (map (\<lambda>h. VPtr (Some (header_val h))) uncles))"

text \<open>\<open>None\<close> is a panic: a receipt that cannot be encoded or an overlong bloom.\<close>

definition receipts_root :: "keccak \<Rightarrow> receipt list \<Rightarrow> hash option" where
  "receipts_root K rs =
     (if \<forall>i \<in> set [0..<length rs]. receipts_GetRlp rs i \<noteq> None
      then (case DeriveSha K (map (\<lambda>i. the (receipts_GetRlp rs i)) [0..<length rs]) of
              Inl e \<Rightarrow> None | Inr h \<Rightarrow> Some h)
      else None)"

definition txs_root :: "keccak \<Rightarrow> transaction list \<Rightarrow> hash option" where
  "txs_root K txs =
     (case DeriveSha K (map (txs_GetRlp txs) [0..<length txs]) of Inl e \<Rightarrow> None | Inr h \<Rightarrow> Some h)"

definition NewBlock :: "keccak \<Rightarrow> header \<Rightarrow> transaction list \<Rightarrow> header list \<Rightarrow> receipt list \<Rightarrow> block option" where
  "NewBlock K header txs uncles receipts =
     (case (txs_root K txs, if receipts = [] then Some [] else CreateBloom K receipts,
            if receipts = [] then txs_root K [] else receipts_root K receipts) of
        (Some th, Some bloom, Some rh) \<Rightarrow>
          (let h = CopyHeader header;
               h = h\<lparr>hd_TxHash := th\<rparr>;
               h = h\<lparr>hd_ReceiptHash := rh\<rparr>;
               h = (if receipts = [] then h else h\<lparr>hd_Bloom := bloom\<rparr>);
               h = h\<lparr>hd_UncleHash := CalcUncleHash K uncles\<rparr>
           in Some \<lparr>bk_header = h, bk_uncles = map CopyHeader uncles, bk_transactions = txs\<rparr>)
      | _ \<Rightarrow> None)"

definition NewBlockWithHeader :: "header \<Rightarrow> block" where
  "NewBlockWithHeader h = \<lparr>bk_header = CopyHeader h, bk_uncles = [], bk_transactions = []\<rparr>"

definition block_Header :: "block \<Rightarrow> header" where
  "block_Header b = CopyHeader (bk_header b)"

definition block_Hash :: "keccak \<Rightarrow> block \<Rightarrow> hash" where
  "block_Hash K b = header_Hash K (bk_header b)"

definition WithSeal :: "block \<Rightarrow> header \<Rightarrow> block" where
  "WithSeal b h = b\<lparr>bk_header := h\<rparr>"

definition WithBody :: "block \<Rightarrow> transaction list \<Rightarrow> header list \<Rightarrow> block" where
  "WithBody b txs uncles =
     \<lparr>bk_header = CopyHeader (bk_header b), bk_uncles = map CopyHeader uncles, bk_transactions = txs\<rparr>"

definition block_type :: rtype where
  "block_type = TStruct [(''Header'', NoTag, TPtr header_type), (''Txs'', NoTag, TSlice (TPtr tx_type)),
     (''Uncles'', NoTag, TSlice (TPtr header_type))]"

definition block_val :: "block \<Rightarrow> rval" where
  "block_val b = VStruct [VPtr (Some (header_val (bk_header b))),
     VSlice (map (\<lambda>t. VPtr (Some (tx_val (tx_data t)))) (bk_transactions b)),
     VSlice (map (\<lambda>h. VPtr (Some (header_val h))) (bk_uncles b))]"

definition block_EncodeRLP :: "block \<Rightarrow> string + bytes" where
  "block_EncodeRLP b = encode_typed block_type (block_val b)"

text \<open>The header of a decoded value.\<close>

definition proto_of :: "rval \<Rightarrow> dposProto" where
  "proto_of v = (let vs = un_slice v in
     \<lparr>px_EpochHash = un_bytes (vs ! 0), px_DelegateHash = un_bytes (vs ! 1), px_CandidateHash = un_bytes (vs ! 2),
      px_VoteHash = un_bytes (vs ! 3), px_MintCntHash = un_bytes (vs ! 4)\<rparr>)"

definition un_bigptr :: "rval \<Rightarrow> int option" where
  "un_bigptr v = (case v of VBigPtr p \<Rightarrow> p | _ \<Rightarrow> None)"

definition header_of :: "rval \<Rightarrow> header" where
  "header_of v = (let vs = un_slice v in
     \<lparr>hd_ParentHash = un_bytes (vs ! 0), hd_UncleHash = un_bytes (vs ! 1), hd_Validator = un_bytes (vs ! 2),
      hd_Coinbase = un_bytes (vs ! 3), hd_Root = un_bytes (vs ! 4), hd_TxHash = un_bytes (vs ! 5),
      hd_ReceiptHash = un_bytes (vs ! 6), hd_DposContext = map_option proto_of (un_ptr (vs ! 7)),
      hd_Bloom = un_bytes (vs ! 8), hd_Difficulty = un_bigptr (vs ! 9), hd_Number = un_bigptr (vs ! 10),
      hd_GasLimit = word_of_nat (un_uint (vs ! 11)), hd_GasUsed = word_of_nat (un_uint (vs ! 12)),
      hd_Time = un_bigptr (vs ! 13), hd_Extra = un_bytes (vs ! 14), hd_MixDigest = un_bytes (vs ! 15),
      hd_Nonce = un_bytes (vs ! 16), hd_MaxValidatorSize = word_of_nat (un_uint (vs ! 17)),
      hd_BlockInterval = word_of_nat (un_uint (vs ! 18))\<rparr>)"

definition block_DecodeRLP :: "bytes \<Rightarrow> decErr + block" where
  "block_DecodeRLP b =
     (case DecodeBytes (Suc (length b)) block_type b of
        Inl e \<Rightarrow> Inl e
      | Inr v \<Rightarrow>
          (let vs = un_slice v in
           Inr \<lparr>bk_header = header_of (the (un_ptr (vs ! 0))),
                bk_uncles = map (\<lambda>u. header_of (the (un_ptr u))) (un_slice (vs ! 2)),
                bk_transactions = map (\<lambda>t. \<lparr>tx_data = the (tx_of (the (un_ptr t))), tx_from = None\<rparr>)
                  (un_slice (vs ! 1))\<rparr>))"

section \<open>Blooms have no false negatives\<close>

lemma be_val_pad: "be_val (replicate z 0 @ b) = be_val b"
  by (induction z) (simp_all add: be_val_Cons)

lemma or_bound: "(a :: nat) < 2 ^ n \<Longrightarrow> b < 2 ^ n \<Longrightarrow> a OR b < 2 ^ n"
  by (metis take_bit_nat_eq_self_iff take_bit_or)

lemma or_and_right: "(a OR b) AND b = (b :: nat)"
  by (rule bit_eqI) (auto simp: bit_simps)

lemma or_and_keep: "a AND c = c \<Longrightarrow> (a OR b) AND c = (c :: nat)"
  by (simp add: bit_eq_iff bit_simps) blast

lemma bloom_bit_lt: "bloom_bit h i < 8 * BloomByteLength"
proof -
  have "unat ((x :: uint64) AND 2047) \<le> unat (2047 :: uint64)" for x
    using word_and_le1 [of x 2047] by (simp only: word_le_nat_alt)
  then have "bloom_bit h i \<le> 2047" by (simp add: bloom_bit_def)
  then show ?thesis by (simp add: BloomByteLength_def)
qed

lemma bloom9_lt: "bloom9 K b < 2 ^ (8 * BloomByteLength)"
proof -
  have "(2::nat) ^ bloom_bit (K b) i < 2 ^ (8 * BloomByteLength)" for i
    by (rule power_strict_increasing [OF bloom_bit_lt]) simp
  then show ?thesis by (simp add: bloom9_def Let_def or_bound)
qed

text \<open>Folding a union over a list: a bound is kept, and what is put in stays in.\<close>

lemma fold_or_bound:
  "(\<And>x. x \<in> set xs \<Longrightarrow> f x < (2 :: nat) ^ n) \<Longrightarrow> b < 2 ^ n \<Longrightarrow> fold (\<lambda>x b. b OR f x) xs b < 2 ^ n"
  by (induction xs arbitrary: b) (auto simp: or_bound)

lemma fold_or_keep: "b AND c = (c :: nat) \<Longrightarrow> fold (\<lambda>x b. b OR f x) xs b AND c = c"
  by (induction xs arbitrary: b) (auto simp: or_and_keep)

lemma fold_or_in: "x \<in> set xs \<Longrightarrow> f x AND c = (c :: nat) \<Longrightarrow> fold (\<lambda>x b. b OR f x) xs b AND c = c"
proof (induction xs arbitrary: b)
  case (Cons y ys)
  show ?case
  proof (cases "x = y")
    case True
    have "(b OR f y) AND c = c" using Cons.prems(2) True or_and_keep [of "f y" c b] by (simp add: or.commute)
    then show ?thesis using fold_or_keep [of "b OR f y" c f ys] by simp
  next
    case False
    then show ?thesis using Cons by simp
  qed
qed simp

definition log_words :: "log \<Rightarrow> bytes list" where
  "log_words l = lg_Address l # lg_Topics l"

lemma LogsBloom_words: "LogsBloom K logs = fold (\<lambda>w b. b OR bloom9 K w) (concat (map log_words logs)) 0"
proof -
  have "fold (\<lambda>l bin. fold (\<lambda>t bin. bin OR bloom9 K t) (lg_Topics l) (bin OR bloom9 K (lg_Address l))) logs b =
      fold (\<lambda>w b. b OR bloom9 K w) (concat (map log_words logs)) b" for b
    by (induction logs arbitrary: b) (simp_all add: log_words_def)
  then show ?thesis by (simp add: LogsBloom_def)
qed

lemma LogsBloom_lt: "LogsBloom K logs < 2 ^ (8 * BloomByteLength)"
  unfolding LogsBloom_words by (rule fold_or_bound) (simp_all add: bloom9_lt)

lemma CreateBloom_Some:
  "\<exists>b. CreateBloom K rs = Some b \<and> be_val b = fold (\<lambda>r bin. bin OR LogsBloom K (rc_Logs r)) rs 0"
proof -
  let ?n = "fold (\<lambda>r bin. bin OR LogsBloom K (rc_Logs r)) rs 0"
  have "?n < 2 ^ (8 * BloomByteLength)" by (rule fold_or_bound) (simp_all add: LogsBloom_lt)
  then have "?n < 256 ^ BloomByteLength" by (simp add: power_mult)
  then have "length (nat_bytes ?n) \<le> BloomByteLength" by (rule length_nat_bytes)
  then show ?thesis
    by (simp add: CreateBloom_def BytesToBloom_def bloom_SetBytes_def be_val_pad not_less)
qed

text \<open>
  C23: The bloom filter of a list of receipts always fits its 256 bytes, and looking up the address
  or a topic of any log of any of the receipts succeeds.
\<close>

theorem bloom_no_false_negative:
  "\<exists>b. CreateBloom K rs = Some b \<and>
     (\<forall>r \<in> set rs. \<forall>l \<in> set (rc_Logs r). \<forall>w \<in> set (lg_Address l # lg_Topics l). BloomLookup K b w)"
proof -
  obtain b where b: "CreateBloom K rs = Some b" "be_val b = fold (\<lambda>r bin. bin OR LogsBloom K (rc_Logs r)) rs 0"
    using CreateBloom_Some by blast
  have "BloomLookup K b w" if "r \<in> set rs" "l \<in> set (rc_Logs r)" "w \<in> set (log_words l)" for r l w
  proof -
    have "w \<in> set (concat (map log_words (rc_Logs r)))" using that(2,3) by auto
    then have "LogsBloom K (rc_Logs r) AND bloom9 K w = bloom9 K w"
      unfolding LogsBloom_words using fold_or_in [of w _ "bloom9 K" "bloom9 K w" 0] by simp
    then show ?thesis
      using fold_or_in [OF that(1), of "\<lambda>r. LogsBloom K (rc_Logs r)" "bloom9 K w" 0] b(2)
      by (simp add: BloomLookup_def Let_def)
  qed
  then show ?thesis using b(1) by (auto simp: log_words_def)
qed


theorem bloom_no_false_negative_witness:
  "\<exists>b. CreateBloom pad_hash [(NewReceipt [] False 1)\<lparr>rc_Logs :=
      [\<lparr>lg_Address = [1], lg_Topics = [[2], [3]], lg_Data = [], lg_BlockNumber = 1, lg_TxHash = zeroHash,
        lg_TxIndex = 0, lg_BlockHash = zeroHash, lg_Index = 0, lg_Removed = False\<rparr>]\<rparr>] = Some b \<and>
    BloomLookup pad_hash b [1] \<and> BloomLookup pad_hash b [3]"
  using bloom_no_false_negative [of pad_hash "[(NewReceipt [] False 1)\<lparr>rc_Logs :=
      [\<lparr>lg_Address = [1], lg_Topics = [[2], [3]], lg_Data = [], lg_BlockNumber = 1, lg_TxHash = zeroHash,
        lg_TxIndex = 0, lg_BlockHash = zeroHash, lg_Index = 0, lg_Removed = False\<rparr>]\<rparr>]"]
  by auto

section \<open>Roots authenticate lists\<close>

lemma rlp_short_string: "length b < 56 \<Longrightarrow> rlp_small (RStr b) \<and> length (rlp_enc (RStr b)) < 2 ^ 63"
  by (auto simp: rlp_small_def puthead_def word_less_nat_alt unat_of_nat)

lemma index_key_small: "i < 2 ^ 64 \<Longrightarrow> length (nat_bytes i) < 56"
  using length_nat_bytes [of i 8] by simp

lemma index_key_eq:
  assumes "i < 2 ^ 64"
  shows "index_key i = rlp_enc (RStr (nat_bytes i))"
proof -
  have "enc_as (TUint 64) NoTag (VUint i) (rlp_enc (RStr (nat_bytes i)))" using assms by (intro uint) auto
  then show ?thesis
    using encode_typed_enc rlp_short_string [OF index_key_small [OF assms]] by (simp add: index_key_def)
qed

lemma index_key_inject:
  assumes "i < 2 ^ 64" "j < 2 ^ 64" "index_key i = index_key j"
  shows "i = j"
proof -
  have "RStr (nat_bytes i) = RStr (nat_bytes j)"
    using assms rlp_enc_inject index_key_eq rlp_short_string index_key_small by metis
  then show ?thesis by (metis be_val_nat_bytes rlp.inject(1))
qed

definition list_map :: "nat \<Rightarrow> bytes list \<Rightarrow> bytes \<rightharpoonup> bytes" where
  "list_map i bs = map_of (zip (map index_key [i..<i + length bs]) bs)"

lemma list_map_Cons: "list_map i (b # bs) = (list_map (Suc i) bs)(index_key i \<mapsto> b)"
proof -
  have "[i..<i + length (b # bs)] = i # [Suc i..<Suc i + length bs]" by (subst upt_conv_Cons) simp_all
  then show ?thesis by (simp only: list_map_def list.map zip_Cons_Cons map_of.simps fst_conv snd_conv)
qed

lemma list_map_index:
  assumes "i + length bs \<le> 2 ^ 64" "j < length bs"
  shows "list_map i bs (index_key (i + j)) = Some (bs ! j)"
proof -
  have d: "distinct (map index_key [i..<i + length bs])"
    using assms(1) index_key_inject by (force simp: distinct_map inj_on_def)
  have "(index_key (i + j), bs ! j) \<in> set (zip (map index_key [i..<i + length bs]) bs)"
    using assms(2) by (auto simp: set_zip intro!: exI [of _ j])
  then show ?thesis using d by (simp add: list_map_def)
qed

lemma list_map_other:
  assumes "\<And>j. j < length bs \<Longrightarrow> k \<noteq> index_key (i + j)"
  shows "list_map i bs k = None"
proof -
  have "k \<notin> set (map index_key [i..<i + length bs])"
    using assms by (force simp: le_iff_add)
  then show ?thesis by (auto simp: list_map_def map_of_zip_is_None)
qed

lemma derive_trie_ok:
  assumes "trie_ok K t m" "i + length bs \<le> 2 ^ 64" "[] \<notin> set bs" "\<And>j. i \<le> j \<Longrightarrow> j < 2 ^ 64 \<Longrightarrow> m (index_key j) = None"
  shows "\<exists>t'. derive_trie i bs t = Inr t' \<and> trie_ok K t' (m ++ list_map i bs)"
  using assms
proof (induction bs arbitrary: i t m)
  case Nil
  then show ?case by (simp add: list_map_def)
next
  case (Cons b bs)
  obtain t' where t': "TryUpdate t (index_key i) b = Inr t'" "trie_ok K t' (m(index_key i \<mapsto> b))"
    using TryUpdate_ok [OF Cons.prems(1), of "index_key i" b] Cons.prems(3) by auto
  have "(m(index_key i \<mapsto> b)) (index_key j) = None" if "Suc i \<le> j" "j < 2 ^ 64" for j
    using Cons.prems(4) [of j] that index_key_inject [of j i] Cons.prems(2) by auto
  then have "\<exists>t''. derive_trie (Suc i) bs t' = Inr t'' \<and> trie_ok K t'' ((m(index_key i \<mapsto> b)) ++ list_map (Suc i) bs)"
    using Cons.prems(2,3) by (intro Cons.IH [OF t'(2)]) auto
  then obtain t'' where "derive_trie (Suc i) bs t' = Inr t''" "trie_ok K t'' ((m(index_key i \<mapsto> b)) ++ list_map (Suc i) bs)"
    by blast
  moreover have "list_map (Suc i) bs (index_key i) = None"
  proof (rule list_map_other)
    show "index_key i \<noteq> index_key (Suc i + j)" if "j < length bs" for j
      using index_key_inject [of i "Suc i + j"] Cons.prems(2) that by auto
  qed
  then have "(m(index_key i \<mapsto> b)) ++ list_map (Suc i) bs = m ++ list_map i (b # bs)"
    by (auto simp: list_map_Cons fun_eq_iff map_add_def split: option.splits)
  ultimately show ?case using t'(1) by (simp add: Update_def)
qed

lemma list_map_inject:
  assumes "length bs \<le> 2 ^ 64" "length cs \<le> 2 ^ 64" "list_map 0 bs = list_map 0 cs"
  shows "bs = cs"
proof -
  have l: "length xs \<le> length ys" if "length xs \<le> 2 ^ 64" "length ys \<le> 2 ^ 64" "list_map 0 xs = list_map 0 ys" for xs ys
  proof (rule ccontr)
    assume "\<not> ?thesis"
    then have "list_map 0 xs (index_key (length ys)) \<noteq> None"
      using list_map_index [of 0 xs "length ys"] that(1) by auto
    moreover have "list_map 0 ys (index_key (length ys)) = None"
    proof (rule list_map_other)
      show "index_key (length ys) \<noteq> index_key (0 + j)" if "j < length ys" for j
        using index_key_inject [of "length ys" j] \<open>\<not> length xs \<le> length ys\<close> \<open>length xs \<le> 2 ^ 64\<close> that by auto
    qed
    ultimately have "list_map 0 xs (index_key (length ys)) \<noteq> None" "list_map 0 ys (index_key (length ys)) = None"
      by blast+
    then show False using that(3) by simp
  qed
  show ?thesis
  proof (rule nth_equalityI)
    show "length bs = length cs" using l [of bs cs] l [of cs bs] assms by simp
    show "bs ! j = cs ! j" if "j < length bs" for j
      using list_map_index [of 0 bs j] list_map_index [of 0 cs j] assms that \<open>length bs = length cs\<close> by simp
  qed
qed


lemma zero_trie_ok: "trie_ok K zero_trie Map.empty"
proof -
  have "zero_trie = empty_trie" by (simp add: zero_trie_def empty_trie_def no_nodes_def fun_eq_iff)
  then show ?thesis using empty_trie_ok by simp
qed

lemma derive_zero_trie:
  assumes "length bs \<le> 2 ^ 64" "[] \<notin> set bs"
  shows "\<exists>t. derive_trie 0 bs zero_trie = Inr t \<and> trie_ok K t (list_map 0 bs)"
  using derive_trie_ok [OF zero_trie_ok, of 0 bs] assms by simp

text \<open>
  C22: The root over a list of non-empty encodings is always computed, and it authenticates the
  list: two lists with the same root are equal, provided the hash function returns 32 bytes, maps
  the encoding of the empty string to the constant \<open>emptyRoot\<close> and has no collision among the
  node encodings of the two tries.
\<close>

theorem derive_sha_authenticates:
  assumes "length bs \<le> 2 ^ 64" "[] \<notin> set bs" "length cs \<le> 2 ^ 64" "[] \<notin> set cs"
    "DeriveSha K bs = DeriveSha K cs" "\<forall>b. length (K b) = 32" "K [0x80] = emptyRoot"
    "\<forall>t t'. derive_trie 0 bs zero_trie = Inr t \<and> derive_trie 0 cs zero_trie = Inr t' \<longrightarrow>
       collision_free K (insert (RStr []) (trie_encs K t \<union> trie_encs K t')) \<and>
       (\<forall>e \<in> trie_encs K t \<union> trie_encs K t'. rlp_small e)"
  shows "(\<exists>h. DeriveSha K bs = Inr h) \<and> bs = cs"
proof -
  obtain t t' where t: "derive_trie 0 bs zero_trie = Inr t" "trie_ok K t (list_map 0 bs)"
      "derive_trie 0 cs zero_trie = Inr t'" "trie_ok K t' (list_map 0 cs)"
    using derive_zero_trie [OF assms(1,2), of K] derive_zero_trie [OF assms(3,4), of K] by blast
  then have "fst (trie_Hash K t) = fst (trie_Hash K t')" using assms(5) by (simp add: DeriveSha_def)
  then have "list_map 0 bs = list_map 0 cs"
    using trie_Hash_authentic [OF t(2,4)] assms(6-8) t(1,3) by blast
  then show ?thesis using list_map_inject [OF assms(1,3)] t(1) by (simp add: DeriveSha_def)
qed

section \<open>Headers and blocks\<close>

definition proto_wf :: "dposProto \<Rightarrow> bool" where
  "proto_wf p \<longleftrightarrow> length (px_EpochHash p) = 32 \<and> length (px_DelegateHash p) = 32 \<and>
     length (px_CandidateHash p) = 32 \<and> length (px_VoteHash p) = 32 \<and> length (px_MintCntHash p) = 32"

definition big_wf :: "int option \<Rightarrow> bool" where
  "big_wf p \<longleftrightarrow> (\<exists>i \<ge> 0. p = Some i)"

text \<open>The lengths that Go's array types enforce, and numbers that are set and not negative.\<close>

definition header_wf :: "header \<Rightarrow> bool" where
  "header_wf h \<longleftrightarrow> length (hd_ParentHash h) = 32 \<and> length (hd_UncleHash h) = 32 \<and> length (hd_Validator h) = 20 \<and>
     length (hd_Coinbase h) = 20 \<and> length (hd_Root h) = 32 \<and> length (hd_TxHash h) = 32 \<and>
     length (hd_ReceiptHash h) = 32 \<and> (\<exists>p. hd_DposContext h = Some p \<and> proto_wf p) \<and>
     length (hd_Bloom h) = 256 \<and> big_wf (hd_Difficulty h) \<and> big_wf (hd_Number h) \<and> big_wf (hd_Time h) \<and>
     length (hd_MixDigest h) = 32 \<and> length (hd_Nonce h) = 8"

definition proto_bytes :: "dposProto \<Rightarrow> bytes" where
  "proto_bytes p = item List (concat (map (\<lambda>b. rlp_enc (RStr b))
     [px_EpochHash p, px_DelegateHash p, px_CandidateHash p, px_VoteHash p, px_MintCntHash p]))"

definition big_bytes :: "int option \<Rightarrow> bytes" where
  "big_bytes p = (case p of None \<Rightarrow> [] | Some i \<Rightarrow> nat_bytes (nat i))"

definition header_bytes :: "header \<Rightarrow> bytes" where
  "header_bytes h = item List (concat
     (map (\<lambda>b. rlp_enc (RStr b)) [hd_ParentHash h, hd_UncleHash h, hd_Validator h, hd_Coinbase h, hd_Root h,
        hd_TxHash h, hd_ReceiptHash h] @
      [case hd_DposContext h of None \<Rightarrow> [0xC0] | Some p \<Rightarrow> proto_bytes p] @
      map (\<lambda>b. rlp_enc (RStr b)) [hd_Bloom h, big_bytes (hd_Difficulty h), big_bytes (hd_Number h),
        nat_bytes (unat (hd_GasLimit h)), nat_bytes (unat (hd_GasUsed h)), big_bytes (hd_Time h), hd_Extra h,
        hd_MixDigest h, hd_Nonce h, nat_bytes (unat (hd_MaxValidatorSize h)),
        nat_bytes (unat (hd_BlockInterval h))]))"

lemma enc_as_array: "length b = n \<Longrightarrow> 1 < n \<Longrightarrow> enc_as (TByteArray n) tag (VByteArray b) (rlp_enc (RStr b))"
  using bytearray [of b tag] by (cases b) (auto simp del: rlp_enc.simps)

lemma enc_as_big: "big_wf p \<Longrightarrow> enc_as TBigIntPtr tag (VBigPtr p) (rlp_enc (RStr (big_bytes p)))"
  using bigptr by (auto simp: big_wf_def big_bytes_def simp del: rlp_enc.simps)

lemma enc_as_uint64: "enc_as (TUint 64) tag (VUint (unat (x :: uint64))) (rlp_enc (RStr (nat_bytes (unat x))))"
  using uint [of 64 "unat x"] unat_word64_pow [of x] by (simp del: rlp_enc.simps)

lemma enc_as_proto: "proto_wf p \<Longrightarrow> enc_as proto_type NoTag (proto_val p) (proto_bytes p)"
  unfolding proto_type_def proto_val_def proto_bytes_def list.map
  by (intro struct fields_cons fields_nil enc_as_array) (auto simp: proto_wf_def)

lemma enc_as_header:
  assumes "header_wf h"
  shows "enc_as header_type NoTag (header_val h) (header_bytes h)"
proof -
  obtain p where p: "hd_DposContext h = Some p" "proto_wf p" using assms by (auto simp: header_wf_def)
  have "enc_as (TPtr proto_type) NoTag (VPtr (Some (proto_val p))) (proto_bytes p)"
    using ptr [OF _ enc_as_proto [OF p(2)]] by simp
  then show ?thesis
    unfolding header_type_def header_val_def header_bytes_def p(1) list.map option.case option.map append.simps
    using assms by (intro struct fields_cons fields_nil enc_as_array enc_as_big enc_as_uint64 bytes) (auto simp: header_wf_def)
qed


lemma header_of_val: "header_wf h \<Longrightarrow> header_of (header_val h) = h"
  by (auto simp: header_of_def header_val_def header_wf_def un_defs un_bigptr_def proto_of_def proto_val_def Let_def)

definition block_wf :: "block \<Rightarrow> bool" where
  "block_wf b \<longleftrightarrow> header_wf (bk_header b) \<and> list_all header_wf (bk_uncles b) \<and>
     list_all (\<lambda>t. tx_wf (tx_data t)) (bk_transactions b)"

definition block_bytes :: "block \<Rightarrow> bytes" where
  "block_bytes b = item List (concat [header_bytes (bk_header b),
     item List (concat (map (\<lambda>t. tx_bytes (tx_data t)) (bk_transactions b))),
     item List (concat (map header_bytes (bk_uncles b)))])"

lemma enc_elems_map: "(\<And>x. x \<in> set xs \<Longrightarrow> enc_as t NoTag (f x) (g x)) \<Longrightarrow> enc_elems t (map f xs) (map g xs)"
  by (induction xs) (auto intro: elems_nil elems_cons)

lemma enc_as_block:
  assumes "block_wf b"
  shows "enc_as block_type NoTag (block_val b) (block_bytes b)"
proof -
  have "enc_as (TPtr header_type) NoTag (VPtr (Some (header_val h))) (header_bytes h)" if "header_wf h" for h
    using ptr [OF _ enc_as_header [OF that]] by simp
  moreover have "enc_as (TPtr tx_type) NoTag (VPtr (Some (tx_val d))) (tx_bytes d)" if "tx_wf d" for d
    using ptr [OF _ enc_as_tx [OF that]] by simp
  ultimately show ?thesis
    unfolding block_type_def block_val_def block_bytes_def
    using assms by (intro struct fields_cons fields_nil slice enc_elems_map) (auto simp: block_wf_def list_all_iff)
qed

text \<open>A decoded transaction: the payload is not nil and the sender is not cached.\<close>

definition tx_fresh :: "transaction \<Rightarrow> transaction" where
  "tx_fresh tx = \<lparr>tx_data = (tx_data tx)\<lparr>td_Payload := Some (payload_bytes (td_Payload (tx_data tx)))\<rparr>,
     tx_from = None\<rparr>"

text \<open>
  C18: Encoding a block and decoding the result gives the same header, uncles and transactions,
  with the payloads of the transactions not nil and their senders not cached.
\<close>

theorem block_round_trip:
  assumes "block_wf b" "length (block_bytes b) < 2 ^ 63"
  shows "\<exists>e. block_EncodeRLP b = Inr e \<and>
    block_DecodeRLP e = Inr (b\<lparr>bk_transactions := map tx_fresh (bk_transactions b)\<rparr>)"
proof -
  have "block_EncodeRLP b = Inr (block_bytes b)"
    using encode_typed_enc [OF enc_as_block [OF assms(1)] assms(2)] by (simp add: block_EncodeRLP_def)
  moreover have "DecodeBytes (Suc (length (block_bytes b))) block_type (block_bytes b) = Inr (block_val b)"
    using DecodeBytes_enc [OF enc_as_block [OF assms(1)] assms(2)] by simp
  moreover have "map (\<lambda>t. \<lparr>tx_data = the (tx_of (tx_val (tx_data t))), tx_from = None\<rparr>) (bk_transactions b) =
      map tx_fresh (bk_transactions b)"
    using assms(1) tx_of_val by (auto simp: block_wf_def list_all_iff tx_fresh_def)
  moreover have "map (\<lambda>h. header_of (header_val h)) (bk_uncles b) = bk_uncles b"
    using assms(1) header_of_val by (auto simp: block_wf_def list_all_iff intro: map_idI)
  ultimately show ?thesis
    using assms(1) header_of_val [of "bk_header b"]
    by (simp add: block_DecodeRLP_def block_val_def un_defs comp_def block_wf_def)
qed

lemma puthead_le: "length (puthead a b sz) \<le> 9"
  using putint_bounds(2) [of sz] by (simp add: puthead_def Let_def)

lemma item_List_le: "length (item List c) \<le> length c + 9"
  using puthead_le by (simp add: item_def add.commute)

lemma rlp_str_le: "length (rlp_enc (RStr b)) \<le> length b + 9"
  using puthead_le by (simp add: add.commute)

lemma uint64_bytes_le: "length (nat_bytes (unat (x :: uint64))) \<le> 8"
  using unat_word64_pow [of x] by (intro length_nat_bytes) simp

definition sample_header :: header where
  "sample_header = \<lparr>hd_ParentHash = zeroHash, hd_UncleHash = zeroHash, hd_Validator = zeroAddress,
     hd_Coinbase = zeroAddress, hd_Root = zeroHash, hd_TxHash = zeroHash, hd_ReceiptHash = zeroHash,
     hd_DposContext = Some zeroProto, hd_Bloom = replicate 256 0, hd_Difficulty = Some 1, hd_Number = Some 1,
     hd_GasLimit = 4712388, hd_GasUsed = 0, hd_Time = Some 1, hd_Extra = replicate 97 0,
     hd_MixDigest = zeroHash, hd_Nonce = replicate 8 0, hd_MaxValidatorSize = 3, hd_BlockInterval = 10\<rparr>"

lemma sample_header_wf: "header_wf sample_header"
  by (simp add: header_wf_def sample_header_def proto_wf_def zeroProto_def big_wf_def zeroHash_def zeroAddress_def
      HashLength_def AddressLength_def)

lemma rlp_strs_le: "length (concat (map (\<lambda>b. rlp_enc (RStr b)) bs)) \<le> sum_list (map length bs) + 9 * length bs"
proof (induction bs)
  case (Cons b bs)
  then show ?case using rlp_str_le [of b] by simp
qed simp

lemma proto_bytes_le:
  assumes "proto_wf p"
  shows "length (proto_bytes p) \<le> 214"
proof -
  let ?a = "[px_EpochHash p, px_DelegateHash p, px_CandidateHash p, px_VoteHash p, px_MintCntHash p]"
  have "sum_list (map length ?a) = 160" using assms by (simp add: proto_wf_def)
  then show ?thesis
    using item_List_le [of "concat (map (\<lambda>b. rlp_enc (RStr b)) ?a)"] rlp_strs_le [of ?a]
    unfolding proto_bytes_def by (simp del: rlp_enc.simps)
qed

lemma header_bytes_le:
  assumes "header_wf h"
  shows "length (header_bytes h) \<le> 1100 + length (hd_Extra h) + length (big_bytes (hd_Difficulty h)) +
    length (big_bytes (hd_Number h)) + length (big_bytes (hd_Time h))"
proof -
  obtain p where p: "hd_DposContext h = Some p" "proto_wf p" using assms by (auto simp: header_wf_def)
  let ?a = "[hd_ParentHash h, hd_UncleHash h, hd_Validator h, hd_Coinbase h, hd_Root h, hd_TxHash h, hd_ReceiptHash h]"
  let ?b = "[hd_Bloom h, big_bytes (hd_Difficulty h), big_bytes (hd_Number h),
        nat_bytes (unat (hd_GasLimit h)), nat_bytes (unat (hd_GasUsed h)), big_bytes (hd_Time h), hd_Extra h,
        hd_MixDigest h, hd_Nonce h, nat_bytes (unat (hd_MaxValidatorSize h)), nat_bytes (unat (hd_BlockInterval h))]"
  let ?c = "concat (map (\<lambda>b. rlp_enc (RStr b)) ?a @ [proto_bytes p] @ map (\<lambda>b. rlp_enc (RStr b)) ?b)"
  have a: "length (concat (map (\<lambda>b. rlp_enc (RStr b)) ?a)) \<le> sum_list (map length ?a) + 9 * length ?a"
    and b: "length (concat (map (\<lambda>b. rlp_enc (RStr b)) ?b)) \<le> sum_list (map length ?b) + 9 * length ?b"
    by (rule rlp_strs_le)+
  have sa: "sum_list (map length ?a) = 200" using assms by (simp add: header_wf_def)
  have sb: "sum_list (map length ?b) \<le> 328 + length (hd_Extra h) + length (big_bytes (hd_Difficulty h)) +
      length (big_bytes (hd_Number h)) + length (big_bytes (hd_Time h))"
    using assms uint64_bytes_le [of "hd_GasLimit h"] uint64_bytes_le [of "hd_GasUsed h"]
      uint64_bytes_le [of "hd_MaxValidatorSize h"] uint64_bytes_le [of "hd_BlockInterval h"] by (simp add: header_wf_def)
  have c: "length ?c = length (concat (map (\<lambda>b. rlp_enc (RStr b)) ?a)) + length (proto_bytes p) +
      length (concat (map (\<lambda>b. rlp_enc (RStr b)) ?b))"
    by (simp only: concat_append length_append concat.simps append_Nil2 append_assoc)
  have "header_bytes h = item List ?c" by (simp only: header_bytes_def p(1) option.case)
  then show ?thesis
    using item_List_le [of ?c] a b sa sb c proto_bytes_le [OF p(2)] by simp
qed

definition sample_block :: block where
  "sample_block = \<lparr>bk_header = sample_header, bk_uncles = [], bk_transactions = [sample_tx]\<rparr>"

lemma sample_block_wf: "block_wf sample_block" "length (block_bytes sample_block) < 2 ^ 63"
proof -
  show "block_wf sample_block"
    using sample_tx_wf(1) sample_header_wf by (simp add: block_wf_def sample_block_def)
  have h: "length (header_bytes sample_header) \<le> 2000"
    using header_bytes_le [OF sample_header_wf] by (simp add: sample_header_def big_bytes_def nat_bytes_small)
  have t: "length (tx_bytes (tx_data sample_tx)) \<le> 2000" by (rule sample_tx_bytes)
  let ?t = "item List (concat [tx_bytes (tx_data sample_tx)])" and ?u = "item List []"
  have "length ?t \<le> 2009" "length ?u \<le> 9"
    using item_List_le [of "concat [tx_bytes (tx_data sample_tx)]"] item_List_le [of "[]"] t by simp_all
  then have "length (concat [header_bytes sample_header, ?t, ?u]) \<le> 5000" using h by simp
  then show "length (block_bytes sample_block) < 2 ^ 63"
    using item_List_le [of "concat [header_bytes sample_header, ?t, ?u]"]
    by (simp add: block_bytes_def sample_block_def)
qed


theorem block_round_trip_witness:
  "\<exists>e. block_EncodeRLP sample_block = Inr e \<and>
     block_DecodeRLP e = Inr (sample_block\<lparr>bk_transactions := [tx_fresh sample_tx]\<rparr>)"
  using block_round_trip [OF sample_block_wf] by (simp add: sample_block_def)

text \<open>A one-element list, with the padding function as hash.\<close>

definition one_trie :: trie where
  "one_trie = zero_trie\<lparr>t_root := ShortN [8, 0, 16] (ValueN [2]) (newFlag 0)\<rparr>"

lemma derive_one: "derive_trie 0 [[2]] zero_trie = Inr one_trie"
proof -
  have "index_key 0 = [0x80]" by (simp add: index_key_eq puthead_def)
  moreover have "keybytesToHex [0x80] = [8, 0, 16]" by simp
  ultimately show ?thesis
    by (simp add: Update_def TryUpdate_def one_trie_def zero_trie_def key_fuel_def numeral_eq_Suc
        del: keybytesToHex_Cons)
qed

lemma one_trie_encs: "trie_encs pad_hash one_trie = {RList [RStr [0x20, 0x80], RStr [2]]}"
proof -
  have "expands (t_db one_trie) (t_root one_trie) (XShort [8, 0, 16] (XVal [2]))"
    by (auto simp: one_trie_def intro!: expands_intros)
  then show ?thesis
    by (simp add: trie_encs_eq xenc.simps hexToCompact_def hasTerm_def)
qed

theorem derive_sha_authenticates_witness:
  "(\<exists>h. DeriveSha pad_hash [[2]] = Inr h) \<and> [[2 :: byte]] = [[2]]"
proof -
  have s: "rlp_small (RList [RStr [0x20, 0x80], RStr [2]])" "rlp_small (RStr [])"
    by (simp_all add: rlp_small_def puthead_def word_le_nat_alt)
  have "collision_free pad_hash (insert (RStr []) (trie_encs pad_hash one_trie \<union> trie_encs pad_hash one_trie))"
    using s unfolding one_trie_encs
    by (auto simp: collision_free_def pad_hash_def EncodeToBytes_eq emptyRoot_def puthead_def word_le_nat_alt)
  moreover have "\<forall>b. length (pad_hash b) = 32" "pad_hash [0x80] = emptyRoot"
    by (auto simp: pad_hash_def emptyRoot_def)
  ultimately show ?thesis
    by (intro derive_sha_authenticates) (use s in \<open>auto simp: derive_one one_trie_encs simp del: derive_trie.simps\<close>)
qed

end
