(* ===== verification/Trie_Iterator.thy ===== *)
theory Trie_Iterator
  imports Merkle
begin

text \<open>
  The node iterator of \<open>trie/iterator.go\<close> and the prefix iterator of \<open>trie/trie.go\<close>, as
  stack machines: a stack of visited nodes, innermost first, each with the index of the last
  child visited, and the path of the innermost node. The loops of \<open>seek\<close> and of the clients
  that drain an iterator are partial functions: \<open>None\<close> is a loop that does not end.

  An iterator works on the nodes that were reachable when it was created: the trie operations
  copy the nodes they change.
\<close>

section \<open>Iterator state\<close>

record itState =
  is_hash :: hash
  is_node :: node
  is_parent :: hash
  is_index :: int
  is_pathlen :: nat

datatype itErr = IteratorEnd | SeekError bytes trieError | ItErr trieError

record nodeIterator =
  it_trie :: trie
  it_stack :: "itState list"
  it_path :: bytes
  it_err :: "itErr option"

definition state_resolve :: "itState \<Rightarrow> trie \<Rightarrow> bytes \<Rightarrow> trieError + itState" where
  "state_resolve st tr path =
     (case is_node st of
        HashN h \<Rightarrow>
          (case resolveHash (t_db tr) (t_cachegen tr) h path of
             Inl e \<Rightarrow> Inl e
           | Inr n \<Rightarrow> Inr (st\<lparr>is_node := n, is_hash := BytesToHash h\<rparr>))
      | _ \<Rightarrow> Inr st)"

definition cache_hash :: "node \<Rightarrow> hash" where
  "cache_hash n = BytesToHash (case fst (node_cache n) of None \<Rightarrow> [] | Some h \<Rightarrow> h)"

text \<open>The first child at an index not below \<open>i\<close>; the second argument counts from the left.\<close>

fun first_child :: "nat \<Rightarrow> int \<Rightarrow> node list \<Rightarrow> (nat \<times> node) option" where
  "first_child j i [] = None"
| "first_child j i (c # cs) =
     (if int j \<ge> i \<and> \<not> is_NilN c then Some (j, c) else first_child (Suc j) i cs)"

definition nextChild ::
  "itState \<Rightarrow> hash \<Rightarrow> bytes \<Rightarrow> (itState \<times> bytes \<times> itState) option" where
  "nextChild parent ancestor path =
     (case is_node parent of
        FullN cs fl \<Rightarrow>
          (case first_child 0 (is_index parent + 1) cs of
             None \<Rightarrow> None
           | Some (i, child) \<Rightarrow>
               Some (\<lparr>is_hash = cache_hash child, is_node = child, is_parent = ancestor,
                      is_index = -1, is_pathlen = length path\<rparr>,
                     path @ [word_of_nat i], parent\<lparr>is_index := int i - 1\<rparr>))
      | ShortN k v fl \<Rightarrow>
          if is_index parent < 0 then
            Some (\<lparr>is_hash = cache_hash v, is_node = v, is_parent = ancestor,
                   is_index = -1, is_pathlen = length path\<rparr>,
                  path @ k, parent)
          else None
      | _ \<Rightarrow> None)"

definition it_pop :: "nodeIterator \<Rightarrow> nodeIterator" where
  "it_pop it =
     (case it_stack it of
        [] \<Rightarrow> it
      | tp # rest \<Rightarrow> it\<lparr>it_path := take (is_pathlen tp) (it_path it), it_stack := rest\<rparr>)"

text \<open>
  The loop of \<open>peek\<close> over the stack. The result is the state to push with its path, or the error,
  and the stack and path that the loop leaves.
\<close>

fun peek_loop ::
  "trie \<Rightarrow> itState list \<Rightarrow> bytes \<Rightarrow> (itErr + itState \<times> bytes) \<times> itState list \<times> bytes" where
  "peek_loop tr [] path = (Inl IteratorEnd, [], path)"
| "peek_loop tr (parent # rest) path =
     (let ancestor = (if is_hash parent = zeroHash then is_parent parent else is_hash parent) in
      case nextChild parent ancestor path of
        Some (st, path', parent') \<Rightarrow>
          (case state_resolve st tr path' of
             Inl e \<Rightarrow> (Inl (ItErr e), parent' # rest, path)
           | Inr st' \<Rightarrow> (Inr (st', path'), parent' # rest, path))
      | None \<Rightarrow> peek_loop tr rest (take (is_pathlen parent) path))"

definition it_peek :: "keccak \<Rightarrow> bool \<Rightarrow> nodeIterator \<Rightarrow> (itErr + itState \<times> bytes) \<times> nodeIterator" where
  "it_peek K descend it =
     (if it_stack it = [] then
        (let (root, tr) = trie_Hash K (it_trie it);
             st = \<lparr>is_hash = (if root \<noteq> emptyRoot then root else zeroHash), is_node = t_root tr,
                   is_parent = zeroHash, is_index = -1, is_pathlen = 0\<rparr>
         in case state_resolve st tr [] of
              Inl e \<Rightarrow> (Inl (ItErr e), it\<lparr>it_trie := tr\<rparr>)
            | Inr st' \<Rightarrow> (Inr (st', []), it\<lparr>it_trie := tr\<rparr>))
      else
        (let it = (if descend then it else it_pop it) in
         case peek_loop (it_trie it) (it_stack it) (it_path it) of
           (r, stack, path) \<Rightarrow> (r, it\<lparr>it_stack := stack, it_path := path\<rparr>)))"

text \<open>\<open>push\<close> also advances the index of the parent, which is the top of the stack, if any.\<close>

definition it_push :: "itState \<Rightarrow> bytes \<Rightarrow> nodeIterator \<Rightarrow> nodeIterator" where
  "it_push st path it =
     it\<lparr>it_path := path,
        it_stack := st # (case it_stack it of [] \<Rightarrow> []
                          | p # rest \<Rightarrow> p\<lparr>is_index := is_index p + 1\<rparr> # rest)\<rparr>"

partial_function (option) it_seek_loop ::
  "keccak \<Rightarrow> bytes \<Rightarrow> bytes \<Rightarrow> nodeIterator \<Rightarrow> (itErr option \<times> nodeIterator) option" where
  "it_seek_loop K pfx key it =
     (case it_peek K (hasPrefix key (it_path it)) it of
        (Inl IteratorEnd, it) \<Rightarrow> Some (Some IteratorEnd, it)
      | (Inl (ItErr e), it) \<Rightarrow> Some (Some (SeekError pfx e), it)
      | (Inl (SeekError p e), it) \<Rightarrow> Some (Some (SeekError pfx e), it)
      | (Inr (st, path), it) \<Rightarrow>
          if bytes_le key path then Some (None, it)
          else it_seek_loop K pfx key (it_push st path it))"

definition it_seek :: "keccak \<Rightarrow> bytes \<Rightarrow> nodeIterator \<Rightarrow> (itErr option \<times> nodeIterator) option" where
  "it_seek K pfx it = it_seek_loop K pfx (butlast (keybytesToHex pfx)) it"

definition it_step :: "keccak \<Rightarrow> bool \<Rightarrow> nodeIterator \<Rightarrow> bool \<times> nodeIterator" where
  "it_step K descend it =
     (case it_peek K descend it of
        (Inl e, it) \<Rightarrow> (False, it\<lparr>it_err := Some e\<rparr>)
      | (Inr (st, path), it) \<Rightarrow> (True, it_push st path (it\<lparr>it_err := None\<rparr>)))"

definition it_Next :: "keccak \<Rightarrow> bool \<Rightarrow> nodeIterator \<Rightarrow> (bool \<times> nodeIterator) option" where
  "it_Next K descend it =
     (case it_err it of
        Some IteratorEnd \<Rightarrow> Some (False, it)
      | Some (SeekError key e) \<Rightarrow>
          (case it_seek K key it of
             None \<Rightarrow> None
           | Some (Some err, it) \<Rightarrow> Some (False, it\<lparr>it_err := Some err\<rparr>)
           | Some (None, it) \<Rightarrow> Some (it_step K descend (it\<lparr>it_err := None\<rparr>)))
      | _ \<Rightarrow> Some (it_step K descend it))"

definition it_Leaf :: "nodeIterator \<Rightarrow> bool" where
  "it_Leaf it = hasTerm (it_path it)"

text \<open>\<open>None\<close> is the panic away from a leaf or on a key of half bytes.\<close>

definition it_LeafKey :: "nodeIterator \<Rightarrow> bytes option" where
  "it_LeafKey it =
     (case it_stack it of
        tp # _ \<Rightarrow> (case is_node tp of ValueN v \<Rightarrow> hexToKeybytes (it_path it) | _ \<Rightarrow> None)
      | [] \<Rightarrow> None)"

definition it_LeafBlob :: "nodeIterator \<Rightarrow> bytes option" where
  "it_LeafBlob it =
     (case it_stack it of
        tp # _ \<Rightarrow> (case is_node tp of ValueN v \<Rightarrow> Some v | _ \<Rightarrow> None)
      | [] \<Rightarrow> None)"

definition it_Hash :: "nodeIterator \<Rightarrow> hash" where
  "it_Hash it = (case it_stack it of [] \<Rightarrow> zeroHash | tp # _ \<Rightarrow> is_hash tp)"

definition it_Parent :: "nodeIterator \<Rightarrow> hash" where
  "it_Parent it = (case it_stack it of [] \<Rightarrow> zeroHash | tp # _ \<Rightarrow> is_parent tp)"

definition it_Error :: "nodeIterator \<Rightarrow> trieError option" where
  "it_Error it =
     (case it_err it of
        None \<Rightarrow> None
      | Some IteratorEnd \<Rightarrow> None
      | Some (SeekError k e) \<Rightarrow> Some e
      | Some (ItErr e) \<Rightarrow> Some e)"

text \<open>
  A new iterator. On the hash of the empty string the code returns an iterator without a trie,
  whose first \<open>Next\<close> dereferences nil; \<open>Inl\<close> is that iterator.
\<close>

definition newNodeIterator :: "keccak \<Rightarrow> trie \<Rightarrow> bytes \<Rightarrow> (unit + nodeIterator) option" where
  "newNodeIterator K t start =
     (let (root, t) = trie_Hash K t in
      if root = BytesToHash (K []) then Some (Inl ())
      else
        (case it_seek K start \<lparr>it_trie = t, it_stack = [], it_path = [], it_err = None\<rparr> of
           None \<Rightarrow> None
         | Some (err, it) \<Rightarrow> Some (Inr (it\<lparr>it_err := err\<rparr>))))"

section \<open>Prefix iterator\<close>

record prefixIterator =
  pi_prefix :: bytes
  pi_it :: nodeIterator

definition newPrefixIterator :: "keccak \<Rightarrow> trie \<Rightarrow> bytes \<Rightarrow> (unit + prefixIterator) option" where
  "newPrefixIterator K t pfx =
     (let (root, t) = trie_Hash K t in
      if root = BytesToHash (K []) then Some (Inl ())
      else
        (case newNodeIterator K t pfx of
           None \<Rightarrow> None
         | Some (Inl u) \<Rightarrow> Some (Inl u)
         | Some (Inr it) \<Rightarrow> Some (Inr \<lparr>pi_prefix = butlast (keybytesToHex pfx), pi_it = it\<rparr>)))"

definition PrefixIterator :: "keccak \<Rightarrow> trie \<Rightarrow> bytes \<Rightarrow> (unit + prefixIterator) option" where
  "PrefixIterator K t pfx =
     newPrefixIterator K t (case t_prefix t of None \<Rightarrow> pfx | Some p \<Rightarrow> p @ pfx)"

definition pi_hasPrefix :: "prefixIterator \<Rightarrow> bool" where
  "pi_hasPrefix p = hasPrefix (it_path (pi_it p)) (pi_prefix p)"

definition pi_Next :: "keccak \<Rightarrow> bool \<Rightarrow> prefixIterator \<Rightarrow> (bool \<times> prefixIterator) option" where
  "pi_Next K descend p =
     (case it_Next K descend (pi_it p) of
        None \<Rightarrow> None
      | Some (b, it) \<Rightarrow> let p = p\<lparr>pi_it := it\<rparr> in Some (b \<and> pi_hasPrefix p, p))"

definition pi_Leaf :: "prefixIterator \<Rightarrow> bool" where
  "pi_Leaf p = (pi_hasPrefix p \<and> it_Leaf (pi_it p))"

definition pi_LeafKey :: "prefixIterator \<Rightarrow> bytes option" where
  "pi_LeafKey p = (if pi_hasPrefix p then it_LeafKey (pi_it p) else Some [])"

definition pi_LeafBlob :: "prefixIterator \<Rightarrow> bytes option" where
  "pi_LeafBlob p = (if pi_hasPrefix p then it_LeafBlob (pi_it p) else Some [])"

definition pi_Hash :: "prefixIterator \<Rightarrow> hash" where
  "pi_Hash p = (if pi_hasPrefix p then it_Hash (pi_it p) else zeroHash)"

text \<open>The code drops the result of the inner \<open>Parent\<close>.\<close>

definition pi_Parent :: "prefixIterator \<Rightarrow> hash" where
  "pi_Parent p = zeroHash"

section \<open>Key/value iteration\<close>

text \<open>
  \<open>Iterator.Next\<close> steps to the next leaf. The first component is its key and value, or
  nothing at the end; \<open>Inl\<close> is a panic.
\<close>

partial_function (option) Iterator_Next ::
  "keccak \<Rightarrow> nodeIterator \<Rightarrow> (unit + (bytes \<times> bytes) option \<times> nodeIterator) option" where
  "Iterator_Next K it =
     (case it_Next K True it of
        None \<Rightarrow> None
      | Some (b, it) \<Rightarrow>
          if \<not> b then Some (Inr (None, it))
          else if it_Leaf it then
            (case (it_LeafKey it, it_LeafBlob it) of
               (Some k, Some v) \<Rightarrow> Some (Inr (Some (k, v), it))
             | _ \<Rightarrow> Some (Inl ()))
          else Iterator_Next K it)"

partial_function (option) Prefix_Next ::
  "keccak \<Rightarrow> prefixIterator \<Rightarrow> (unit + (bytes \<times> bytes) option \<times> prefixIterator) option" where
  "Prefix_Next K p =
     (case pi_Next K True p of
        None \<Rightarrow> None
      | Some (b, p) \<Rightarrow>
          if \<not> b then Some (Inr (None, p))
          else if pi_Leaf p then
            (case (pi_LeafKey p, pi_LeafBlob p) of
               (Some k, Some v) \<Rightarrow> Some (Inr (Some (k, v), p))
             | _ \<Rightarrow> Some (Inl ()))
          else Prefix_Next K p)"

text \<open>Draining an iterator: every key and value a \<open>for iter.Next()\<close> loop sees.\<close>

partial_function (option) drain_it ::
  "keccak \<Rightarrow> nodeIterator \<Rightarrow> (bytes \<times> bytes) list \<Rightarrow> (unit + (bytes \<times> bytes) list) option" where
  "drain_it K it acc =
     (case Iterator_Next K it of
        None \<Rightarrow> None
      | Some (Inl u) \<Rightarrow> Some (Inl u)
      | Some (Inr (None, it)) \<Rightarrow> Some (Inr (rev acc))
      | Some (Inr (Some kv, it)) \<Rightarrow> drain_it K it (kv # acc))"

partial_function (option) drain_prefix ::
  "keccak \<Rightarrow> prefixIterator \<Rightarrow> (bytes \<times> bytes) list \<Rightarrow> (unit + (bytes \<times> bytes) list) option" where
  "drain_prefix K p acc =
     (case Prefix_Next K p of
        None \<Rightarrow> None
      | Some (Inl u) \<Rightarrow> Some (Inl u)
      | Some (Inr (None, p)) \<Rightarrow> Some (Inr (rev acc))
      | Some (Inr (Some kv, p)) \<Rightarrow> drain_prefix K p (kv # acc))"

definition trie_leaves :: "keccak \<Rightarrow> trie \<Rightarrow> bytes \<Rightarrow> (unit + (bytes \<times> bytes) list) option" where
  "trie_leaves K t start =
     (case newNodeIterator K t start of
        None \<Rightarrow> None | Some (Inl u) \<Rightarrow> Some (Inl u) | Some (Inr it) \<Rightarrow> drain_it K it [])"

definition prefix_leaves :: "keccak \<Rightarrow> trie \<Rightarrow> bytes \<Rightarrow> (unit + (bytes \<times> bytes) list) option" where
  "prefix_leaves K t pfx =
     (case PrefixIterator K t pfx of
        None \<Rightarrow> None | Some (Inl u) \<Rightarrow> Some (Inl u) | Some (Inr p) \<Rightarrow> drain_prefix K p [])"

end
