(* ===== verification/Trie_Iteration.thy ===== *)
theory Trie_Iteration
  imports Trie_Iterator
begin

text \<open>
  Correctness of the iterators of \<open>Trie_Iterator\<close>: the stack of an iterator determines the list
  of nodes it has still to visit, in the order of their paths; \<open>seek\<close> drops those before the
  key, and draining yields the leaves of the rest. Together with the refinement of the trie by a
  map this says which entries a loop over an iterator sees.
\<close>

section \<open>Nodes in order\<close>

text \<open>The subtrees of a tree with their paths, in the order the iterator visits them.\<close>

fun xnodes :: "bytes \<Rightarrow> xt \<Rightarrow> (bytes \<times> xt) list"
  and xkids :: "nat \<Rightarrow> bytes \<Rightarrow> xt list \<Rightarrow> (bytes \<times> xt) list" where
  "xnodes p XNil = [(p, XNil)]"
| "xnodes p (XVal v) = [(p, XVal v)]"
| "xnodes p (XShort k t) = (p, XShort k t) # xnodes (p @ k) t"
| "xnodes p (XFull ts) = (p, XFull ts) # xkids 0 p ts"
| "xkids i p [] = []"
| "xkids i p (t # ts) = (if t = XNil then [] else xnodes (p @ [word_of_nat i]) t) @ xkids (Suc i) p ts"

definition below :: "bytes \<Rightarrow> xt \<Rightarrow> int \<Rightarrow> (bytes \<times> xt) list" where
  "below p x idx =
     (case x of
        XShort k t \<Rightarrow> if idx < 0 then xnodes (p @ k) t else []
      | XFull ts \<Rightarrow> xkids (nat (idx + 1)) p (drop (nat (idx + 1)) ts)
      | _ \<Rightarrow> [])"

lemma xnodes_below: "xnodes p x = (p, x) # below p x (-1)"
  by (cases x) (simp_all add: below_def)

text \<open>\<open>place p x\<close>: \<open>x\<close> is a subtree that can occur at path \<open>p\<close>.\<close>

definition place :: "bytes \<Rightarrow> xt \<Rightarrow> bool" where
  "place p x \<longleftrightarrow> canon x \<and> is_nibbles p \<or> (\<exists>v. x = XVal v) \<and> term_key p"

lemma place_short: "place p (XShort k t) \<Longrightarrow> place (p @ k) t"
proof -
  assume "place p (XShort k t)"
  then have "canon (XShort k t)" "is_nibbles p" by (auto simp: place_def)
  moreover have "term_key k \<Longrightarrow> k \<noteq> []" by auto
  ultimately show ?thesis
    by (cases rule: canon_short_cases) (auto simp: place_def term_key_append)
qed

lemma place_full:
  assumes "place p (XFull ts)" "i < length ts" "ts ! i \<noteq> XNil"
  shows "place (p @ [word_of_nat i]) (ts ! i)"
proof -
  have c: "canon (XFull ts)" "is_nibbles p" using assms(1) by (auto simp: place_def)
  show ?thesis
  proof (cases "i = 16")
    case True
    then show ?thesis
      using c assms(3) by (auto simp: place_def canon_full_iff val_child_def split: xt.splits)
  next
    case False
    then have i: "i < 16" using assms(2) c by (simp add: canon_full_iff)
    then have "(word_of_nat i :: byte) < 16" by (simp add: word_less_nat_alt unat_of_nat)
    then show ?thesis
      using i c assms(3) by (auto simp: place_def canon_full_iff canon_root_def)
  qed
qed

lemma expands_not_nil_child: "list_all2 (expands db) cs ts \<Longrightarrow> i < length cs \<Longrightarrow> is_NilN (cs ! i) \<longleftrightarrow> ts ! i = XNil"
  using expands_is_nil by (auto simp: list_all2_conv_all_nth)

lemma first_child_xkids:
  assumes "list_all2 (expands db) cs ts"
  shows "case first_child j i cs of
      None \<Rightarrow> xkids (j + nat (i - int j)) p (drop (nat (i - int j)) ts) = []
    | Some (l, c) \<Rightarrow> j \<le> l \<and> l < j + length ts \<and> i \<le> int l \<and> c = cs ! (l - j) \<and> ts ! (l - j) \<noteq> XNil
        \<and> xkids (j + nat (i - int j)) p (drop (nat (i - int j)) ts) =
            xnodes (p @ [word_of_nat l]) (ts ! (l - j)) @ xkids (Suc l) p (drop (Suc l - j) ts)"
  using assms
proof (induction cs ts arbitrary: j rule: list_all2_induct)
  case Nil
  then show ?case by simp
next
  case (Cons c cs t ts)
  have nil: "is_NilN c \<longleftrightarrow> t = XNil" using Cons.hyps(1) expands_is_nil by blast
  show ?case
  proof (cases "int j \<ge> i \<and> \<not> is_NilN c")
    case True
    then show ?thesis using nil by simp
  next
    case False
    have s: "xkids (j + nat (i - int j)) p (drop (nat (i - int j)) (t # ts)) =
        xkids (Suc j + nat (i - int (Suc j))) p (drop (nat (i - int (Suc j))) ts)"
    proof (cases "int j \<ge> i")
      case True
      then show ?thesis using False nil by simp
    next
      case f: False
      then have "nat (i - int j) = Suc (nat (i - int (Suc j)))" by simp
      then show ?thesis by simp
    qed
    have "first_child j i (c # cs) = first_child (Suc j) i cs" using False by auto
    then show ?thesis
      unfolding s using Cons.IH [of "Suc j"]
      by (auto simp: nth_Cons' Suc_diff_le split: option.splits)
  qed
qed
section \<open>The stack\<close>

text \<open>
  \<open>frames db stack path todo\<close>: the stack stands on resolved nodes along \<open>path\<close>, and \<open>todo\<close> are
  the nodes it has not visited yet.
\<close>

definition resolved :: "node \<Rightarrow> bool" where
  "resolved n \<longleftrightarrow> (\<forall>h. n \<noteq> HashN h)"

inductive frames :: "nodeDb \<Rightarrow> itState list \<Rightarrow> bytes \<Rightarrow> (bytes \<times> xt) list \<Rightarrow> bool" for db where
  frames_nil: "frames db [] path []"
| frames_cons: "expands db (is_node st) x \<Longrightarrow> resolved (is_node st) \<Longrightarrow> place path x \<or> x = XNil \<Longrightarrow>
    -1 \<le> is_index st \<Longrightarrow> is_pathlen st \<le> length path \<Longrightarrow>
    frames db rest (take (is_pathlen st) path) todo \<Longrightarrow>
    frames db (st # rest) path (below path x (is_index st) @ todo)"

inductive_cases frames_nilE [elim!]: "frames db [] path todo"
inductive_cases frames_consE: "frames db (st # rest) path todo"

lemma resolve_expands:
  assumes "expands db (is_node st) x" "t_db tr = db" "place p x"
  shows "\<exists>st'. state_resolve st tr path = Inr st' \<and> expands db (is_node st') x \<and> resolved (is_node st')
    \<and> is_index st' = is_index st \<and> is_pathlen st' = is_pathlen st"
proof (cases "is_node st")
  case (HashN h)
  then have "expands db (HashN h) x" using assms(1) by simp
  then obtain n where n: "resolveHash db (t_cachegen tr) h path = Inr n" "is_branchN n" "expands db n x"
    by (rule resolveHash_expands)
  then have "resolved n" by (auto simp: resolved_def is_branchN_def)
  then show ?thesis
    using n(1,3) HashN assms(2) by (simp add: state_resolve_def)
qed (use assms in \<open>auto simp: state_resolve_def resolved_def\<close>)

definition bump_top :: "itState list \<Rightarrow> itState list" where
  "bump_top stack = (case stack of [] \<Rightarrow> [] | p # rest \<Rightarrow> p\<lparr>is_index := is_index p + 1\<rparr> # rest)"

lemma it_push_eq: "it_push st path it = it\<lparr>it_path := path, it_stack := st # bump_top (it_stack it)\<rparr>"
  by (simp add: it_push_def bump_top_def)

text \<open>One child of the innermost frame, when it has any left.\<close>

lemma nextChild_below:
  assumes "expands db (is_node st) x" "resolved (is_node st)" "place path x \<or> x = XNil" "-1 \<le> is_index st"
  shows "(below path x (is_index st) = [] \<and> nextChild st anc path = None) \<or>
    (\<exists>c p' st' y. nextChild st anc path = Some (c, p', st') \<and> expands db (is_node c) y \<and> place p' y
       \<and> is_index c = -1 \<and> is_pathlen c = length path \<and> take (length path) p' = path
       \<and> is_node st' = is_node st \<and> is_pathlen st' = is_pathlen st \<and> -1 \<le> is_index st'
       \<and> below path x (is_index st') = below path x (is_index st)
       \<and> below path x (is_index st) = xnodes p' y @ below path x (is_index st' + 1))"
proof (cases "is_node st")
  case (ShortN k v fl)
  then obtain t where t: "x = XShort k t" "expands db v t" using assms(1) by auto
  then show ?thesis
    using ShortN assms(3,4) place_short [of path k t]
    by (auto simp: nextChild_def below_def)
next
  case (FullN cs fl)
  then obtain ts where ts: "x = XFull ts" "list_all2 (expands db) cs ts" using assms(1) by auto
  have pl: "place path (XFull ts)" using assms(3) ts by auto
  have nn: "nat (is_index st + 1 - int 0) = nat (is_index st + 1)" by simp
  show ?thesis
  proof (cases "first_child 0 (is_index st + 1) cs")
    case None
    then show ?thesis
      using first_child_xkids [OF ts(2), of 0 "is_index st + 1" path] FullN ts(1)
      by (auto simp: nextChild_def below_def)
  next
    case (Some lc)
    obtain l c where lc: "lc = (l, c)" by (cases lc)
    have f: "l < length ts" "is_index st + 1 \<le> int l" "c = cs ! l" "ts ! l \<noteq> XNil"
        "xkids (nat (is_index st + 1)) path (drop (nat (is_index st + 1)) ts) =
          xnodes (path @ [word_of_nat l]) (ts ! l) @ xkids (Suc l) path (drop (Suc l) ts)"
      using first_child_xkids [OF ts(2), of 0 "is_index st + 1" path] Some lc by auto
    have e: "expands db c (ts ! l)" using ts(2) f(1,3) by (auto simp: list_all2_conv_all_nth)
    have k: "xkids l path (drop l ts) =
        xnodes (path @ [word_of_nat l]) (ts ! l) @ xkids (Suc l) path (drop (Suc l) ts)"
      using f(1,4) by (simp flip: Cons_nth_drop_Suc)
    show ?thesis
      using FullN Some lc e place_full [OF pl f(1,4)] f(2,5) k ts(1)
      by (auto simp: nextChild_def below_def nat_add_distrib)
  qed
qed (use assms in \<open>auto simp: nextChild_def below_def resolved_def\<close>)
lemma take_eq_length: "take (length p) q = p \<Longrightarrow> length p \<le> length q"
  by (metis length_take min.cobounded1)

lemma peek_loop_frames:
  assumes "frames db stack path todo" "t_db tr = db"
  shows "(todo = [] \<and> (\<exists>path'. peek_loop tr stack path = (Inl IteratorEnd, [], path'))) \<or>
    (\<exists>p x r st stack' path'. todo = (p, x) # r \<and> peek_loop tr stack path = (Inr (st, p), stack', path')
       \<and> stack' \<noteq> [] \<and> frames db stack' path' todo \<and> frames db (st # bump_top stack') p r
       \<and> expands db (is_node st) x \<and> resolved (is_node st) \<and> place p x \<and> is_index st = -1)"
  using assms
proof (induction rule: frames.induct)
  case (frames_nil path)
  then show ?case by simp
next
  case (frames_cons st x path rest todo)
  let ?anc = "if is_hash st = zeroHash then is_parent st else is_hash st"
  consider (none) "below path x (is_index st) = []" "nextChild st ?anc path = None"
    | (some) c p' st' y where "nextChild st ?anc path = Some (c, p', st')" "expands db (is_node c) y"
        "place p' y" "is_index c = -1" "is_pathlen c = length path" "take (length path) p' = path"
        "is_node st' = is_node st" "is_pathlen st' = is_pathlen st" "-1 \<le> is_index st'"
        "below path x (is_index st') = below path x (is_index st)"
        "below path x (is_index st) = xnodes p' y @ below path x (is_index st' + 1)"
    using nextChild_below [OF frames_cons.hyps(1-4), of ?anc] by (elim disjE exE conjE) assumption+
  then show ?case
  proof cases
    case none
    then have "peek_loop tr (st # rest) path = peek_loop tr rest (take (is_pathlen st) path)"
      by (simp add: Let_def)
    then show ?thesis using frames_cons.IH frames_cons.prems none(1) by simp
  next
    case some
    obtain c' where c': "state_resolve c tr p' = Inr c'" "expands db (is_node c') y" "resolved (is_node c')"
        "is_index c' = -1" "is_pathlen c' = length path"
      using resolve_expands [OF some(2) frames_cons.prems some(3), of p'] some(4,5) by auto
    have st': "frames db (st' # rest) path (below path x (is_index st) @ todo)"
      using frames.frames_cons [of db st' x path rest todo] frames_cons.hyps some(7-10) by simp
    have "frames db (st'\<lparr>is_index := is_index st' + 1\<rparr> # rest) path (below path x (is_index st' + 1) @ todo)"
      using frames.frames_cons [of db "st'\<lparr>is_index := is_index st' + 1\<rparr>" x path rest todo]
        frames_cons.hyps some(7-9) by simp
    then have "frames db (c' # st'\<lparr>is_index := is_index st' + 1\<rparr> # rest) p'
        (below p' y (-1) @ below path x (is_index st' + 1) @ todo)"
      using frames.frames_cons [of db c' y p' "st'\<lparr>is_index := is_index st' + 1\<rparr> # rest"] c' some(3,6)
        take_eq_length [OF some(6)] by simp
    moreover have "peek_loop tr (st # rest) path = (Inr (c', p'), st' # rest, path)"
      using some(1) c'(1) by (simp add: Let_def)
    moreover have "below path x (is_index st) @ todo = (p', y) # below p' y (-1) @ below path x (is_index st' + 1) @ todo"
      using some(11) xnodes_below by simp
    ultimately show ?thesis
      using st' c' some(3) by (auto simp: bump_top_def)
  qed
qed

section \<open>Stepping\<close>

text \<open>\<open>itr it todo\<close>: the iterator will visit exactly \<open>todo\<close>.\<close>

inductive itr :: "keccak \<Rightarrow> nodeIterator \<Rightarrow> (bytes \<times> xt) list \<Rightarrow> bool" for K where
  itr_start: "it_err it = None \<Longrightarrow> it_stack it = [] \<Longrightarrow> expands (t_db (it_trie it)) (t_root (it_trie it)) x \<Longrightarrow>
    canon_root x \<Longrightarrow> hgood K (t_db (it_trie it)) False (t_root (it_trie it)) \<Longrightarrow> itr K it (xnodes [] x)"
| itr_frames: "it_err it = None \<Longrightarrow> it_stack it \<noteq> [] \<Longrightarrow>
    frames (t_db (it_trie it)) (it_stack it) (it_path it) todo \<Longrightarrow> itr K it todo"
| itr_end: "it_err it = Some IteratorEnd \<Longrightarrow> itr K it []"

lemma root_frame:
  assumes "expands db n x" "canon_root x" "resolved n" "is_node st = n" "is_index st = -1" "is_pathlen st = 0"
  shows "frames db [st] [] (below [] x (-1))"
  using frames_cons [of db st x "[]" "[]" "[]"] assms frames_nil
  by (auto simp: place_def canon_root_def)

lemma it_peek_start:
  assumes "it_stack it = []" "expands (t_db (it_trie it)) (t_root (it_trie it)) x"
    "canon_root x" "hgood K (t_db (it_trie it)) False (t_root (it_trie it))"
  shows "\<exists>st tr. it_peek K d it = (Inr (st, []), it\<lparr>it_trie := tr\<rparr>) \<and> t_db tr = t_db (it_trie it)
    \<and> expands (t_db tr) (t_root tr) x \<and> hgood K (t_db tr) False (t_root tr)
    \<and> expands (t_db tr) (is_node st) x \<and> resolved (is_node st) \<and> is_index st = -1 \<and> is_pathlen st = 0"
proof -
  obtain h tr where tr: "trie_Hash K (it_trie it) = (h, tr)" "expands (t_db tr) (t_root tr) x"
      "hgood K (t_db tr) False (t_root tr)" "t_db tr = t_db (it_trie it)"
    using trie_Hash_ok [OF assms(2-4)] by auto
  let ?st = "\<lparr>is_hash = (if h \<noteq> emptyRoot then h else zeroHash), is_node = t_root tr,
      is_parent = zeroHash, is_index = -1, is_pathlen = 0\<rparr>"
  have "\<exists>st'. state_resolve ?st tr [] = Inr st' \<and> expands (t_db tr) (is_node st') x \<and> resolved (is_node st')
      \<and> is_index st' = -1 \<and> is_pathlen st' = 0"
  proof (cases "x = XNil")
    case True
    then have "t_root tr = NilN" using expands_is_nil [OF tr(2)] by (cases "t_root tr") auto
    then show ?thesis using tr(2) by (simp add: state_resolve_def resolved_def)
  next
    case False
    then have "place [] x" using assms(3) by (auto simp: canon_root_def place_def)
    then show ?thesis using resolve_expands [of "t_db tr" ?st x tr "[]" "[]"] tr(2) by auto
  qed
  then obtain st' where "state_resolve ?st tr [] = Inr st'" "expands (t_db tr) (is_node st') x"
      "resolved (is_node st')" "is_index st' = -1" "is_pathlen st' = 0"
    by blast
  then have "it_peek K d it = (Inr (st', []), it\<lparr>it_trie := tr\<rparr>) \<and> t_db tr = t_db (it_trie it)
    \<and> expands (t_db tr) (t_root tr) x \<and> hgood K (t_db tr) False (t_root tr)
    \<and> expands (t_db tr) (is_node st') x \<and> resolved (is_node st') \<and> is_index st' = -1 \<and> is_pathlen st' = 0"
    using tr assms(1) by (simp add: it_peek_def)
  then show ?thesis by blast
qed

lemma it_Next_itr:
  assumes "itr K it todo"
  shows "(todo = [] \<and> (\<exists>it'. it_Next K True it = Some (False, it') \<and> itr K it' [])) \<or>
    (\<exists>p x r it' st rest. todo = (p, x) # r \<and> it_Next K True it = Some (True, it') \<and> itr K it' r
       \<and> it_path it' = p \<and> it_stack it' = st # rest \<and> expands (t_db (it_trie it')) (is_node st) x \<and> resolved (is_node st))"
  using assms
proof cases
  case (itr_start x)
  obtain st tr where s: "it_peek K True it = (Inr (st, []), it\<lparr>it_trie := tr\<rparr>)"
      "expands (t_db tr) (is_node st) x" "resolved (is_node st)" "is_index st = -1" "is_pathlen st = 0"
    using it_peek_start [OF itr_start(3-6), of True] by blast
  let ?it = "it\<lparr>it_trie := tr, it_err := None, it_path := [], it_stack := [st]\<rparr>"
  have "it_Next K True it = Some (True, ?it)"
    using s(1) itr_start(2,3) by (simp add: it_Next_def it_step_def it_push_eq bump_top_def)
  moreover have "itr K ?it (below [] x (-1))"
    using root_frame [OF s(2) itr_start(5) s(3) refl s(4,5)] by (intro itr_frames) auto
  ultimately show ?thesis
    using s(2,3) itr_start(1) xnodes_below [of "[]" x] by auto
next
  case itr_frames
  have "(todo = [] \<and> (\<exists>path'. peek_loop (it_trie it) (it_stack it) (it_path it) = (Inl IteratorEnd, [], path'))) \<or>
    (\<exists>p x r st stack' path'. todo = (p, x) # r
       \<and> peek_loop (it_trie it) (it_stack it) (it_path it) = (Inr (st, p), stack', path')
       \<and> frames (t_db (it_trie it)) (st # bump_top stack') p r
       \<and> expands (t_db (it_trie it)) (is_node st) x \<and> resolved (is_node st))"
    using peek_loop_frames [OF itr_frames(3) refl] by blast
  then show ?thesis
  proof (elim disjE conjE exE)
    fix path'
    assume a: "todo = []" "peek_loop (it_trie it) (it_stack it) (it_path it) = (Inl IteratorEnd, [], path')"
    then show ?thesis
      using itr_frames(1,2) by (auto simp: it_Next_def it_step_def it_peek_def Let_def intro!: itr_end)
  next
    fix p x r st stack' path'
    assume a: "todo = (p, x) # r" "peek_loop (it_trie it) (it_stack it) (it_path it) = (Inr (st, p), stack', path')"
      "frames (t_db (it_trie it)) (st # bump_top stack') p r" "expands (t_db (it_trie it)) (is_node st) x"
      "resolved (is_node st)"
    let ?it = "it\<lparr>it_stack := st # bump_top stack', it_path := p, it_err := None\<rparr>"
    have "it_Next K True it = Some (True, ?it)"
      using itr_frames(1,2) a(2) by (simp add: it_Next_def it_step_def it_peek_def it_push_eq)
    moreover have "itr K ?it r" using a(3) by (intro itr.itr_frames) auto
    ultimately show ?thesis using a by auto
  qed
next
  case itr_end
  then show ?thesis by (auto simp: it_Next_def intro: itr.itr_end)
qed

section \<open>Paths\<close>

text \<open>What holds of the nodes below a place: paths extend its path, and places stay places.\<close>

definition kids_ok :: "nat \<Rightarrow> bytes \<Rightarrow> xt list \<Rightarrow> bool" where
  "kids_ok i p ts \<longleftrightarrow> i + length ts \<le> 17 \<and>
     (\<forall>j. i \<le> j \<and> j < i + length ts \<and> ts ! (j - i) \<noteq> XNil \<longrightarrow> place (p @ [word_of_nat j]) (ts ! (j - i)))"

lemma ex_kids:
  "(\<exists>j. i \<le> j \<and> j < i + length (t # ts) \<and> P j ((t # ts) ! (j - i))) \<longleftrightarrow>
     P i t \<or> (\<exists>j. Suc i \<le> j \<and> j < Suc i + length ts \<and> P j (ts ! (j - Suc i)))" (is "?L = ?R")
proof
  assume ?L
  then obtain j where j: "i \<le> j" "j < i + length (t # ts)" "P j ((t # ts) ! (j - i))" by blast
  then show ?R by (cases "j = i") (auto simp: nth_Cons' intro!: exI [of _ j])
next
  assume ?R
  then show ?L
  proof
    assume "P i t"
    then show ?L by (intro exI [of _ i]) simp
  next
    assume "\<exists>j. Suc i \<le> j \<and> j < Suc i + length ts \<and> P j (ts ! (j - Suc i))"
    then obtain j where "Suc i \<le> j" "j < Suc i + length ts" "P j (ts ! (j - Suc i))" by blast
    then show ?L by (intro exI [of _ j]) (simp add: nth_Cons')
  qed
qed

lemma kids_ok_Cons: "kids_ok i p (t # ts) \<longleftrightarrow>
    i < 17 \<and> (t \<noteq> XNil \<longrightarrow> place (p @ [word_of_nat i]) t) \<and> kids_ok (Suc i) p ts"
  using ex_kids [of i t ts "\<lambda>j t. t \<noteq> XNil \<and> \<not> place (p @ [word_of_nat j]) t"]
  by (auto simp: kids_ok_def simp del: length_Cons)

lemma place_kids_ok: "place p (XFull ts) \<Longrightarrow> kids_ok 0 p ts"
  using place_full [of p ts] by (auto simp: kids_ok_def place_def canon_full_iff)

lemma kids_ok_drop: "kids_ok 0 p ts \<Longrightarrow> n \<le> length ts \<Longrightarrow> kids_ok n p (drop n ts)"
  by (auto simp: kids_ok_def)

lemma xnodes_place:
  "place p x \<Longrightarrow> \<forall>(q, y) \<in> set (xnodes p x). place q y \<and> prefix p q"
  "kids_ok i p ts \<Longrightarrow> \<forall>(q, y) \<in> set (xkids i p ts). place q y \<and>
     (\<exists>j. i \<le> j \<and> j < i + length ts \<and> prefix (p @ [word_of_nat j]) q)"
proof (induction p x and i p ts rule: xnodes_xkids.induct)
  case (3 p k t)
  then show ?case using place_short [of p k t] append_prefixD by fastforce
next
  case (4 p ts)
  then show ?case using place_kids_ok [of p ts] append_prefixD by fastforce
next
  case (6 i p t ts)
  have "kids_ok (Suc i) p ts" using 6(3) by (simp add: kids_ok_Cons)
  then have "\<forall>(q, y) \<in> set (xkids (Suc i) p ts). place q y \<and>
     (\<exists>j. Suc i \<le> j \<and> j < Suc i + length ts \<and> prefix (p @ [word_of_nat j]) q)"
    by (rule 6(2))
  then have "\<forall>(q, y) \<in> set (xkids (Suc i) p ts). place q y \<and>
     (\<exists>j. i \<le> j \<and> j < i + length (t # ts) \<and> prefix (p @ [word_of_nat j]) q)"
    using Suc_leD by (fastforce simp: less_Suc_eq_le)
  moreover have "\<forall>(q, y) \<in> set (xnodes (p @ [word_of_nat i]) t). place q y \<and>
     (\<exists>j. i \<le> j \<and> j < i + length (t # ts) \<and> prefix (p @ [word_of_nat j]) q)" if "t \<noteq> XNil"
    using 6(1) [OF that] 6(3) that by (fastforce simp: kids_ok_Cons)
  ultimately show ?case by auto
qed auto

text \<open>The strict order of paths.\<close>

definition path_lt :: "bytes \<Rightarrow> bytes \<Rightarrow> bool" where
  "path_lt p q \<longleftrightarrow> bytes_le p q \<and> p \<noteq> q"

lemma path_lt_append: "ys \<noteq> [] \<Longrightarrow> prefix (xs @ ys) zs \<Longrightarrow> path_lt xs zs"
  using bytes_le_append by (auto simp: path_lt_def prefix_def)

lemma path_lt_siblings:
  "i < j \<Longrightarrow> j < 256 \<Longrightarrow> prefix (p @ [word_of_nat i]) q \<Longrightarrow> prefix (p @ [word_of_nat j]) r \<Longrightarrow> path_lt q r"
  by (auto simp: prefix_def path_lt_def word_less_nat_alt unat_of_nat word_unat_eq_iff)

lemma place_xkids_lt: "kids_ok i p ts \<Longrightarrow> (q, y) \<in> set (xkids i p ts) \<Longrightarrow> path_lt p q"
  using xnodes_place(2) [of i p ts] path_lt_append by fastforce

lemma xnodes_sorted:
  "place p x \<Longrightarrow> sorted_wrt path_lt (map fst (xnodes p x))"
  "kids_ok i p ts \<Longrightarrow> sorted_wrt path_lt (map fst (xkids i p ts))"
proof (induction p x and i p ts rule: xnodes_xkids.induct)
  case (3 p k t)
  have pl: "place (p @ k) t" using place_short 3 by simp
  have "k \<noteq> []" using 3 canon_short_key [of k t] by (auto simp: place_def)
  then show ?case
    using 3(1) [OF pl] xnodes_place(1) [OF pl] path_lt_append [of k p] by fastforce
next
  case (4 p ts)
  then show ?case using place_kids_ok [of p ts] place_xkids_lt [of 0 p ts] by fastforce
next
  case (6 i p t ts)
  have k: "kids_ok (Suc i) p ts" using 6(3) by (simp add: kids_ok_Cons)
  show ?case
  proof (cases "t = XNil")
    case True
    then show ?thesis using 6(2) k by simp
  next
    case False
    then have pl: "place (p @ [word_of_nat i]) t" using 6(3) by (simp add: kids_ok_Cons)
    have "path_lt q r" if q: "(q, y) \<in> set (xnodes (p @ [word_of_nat i]) t)" and r: "(r, z) \<in> set (xkids (Suc i) p ts)"
      for q :: bytes and r :: bytes and y z
    proof -
      have "prefix (p @ [word_of_nat i]) q" using xnodes_place(1) [OF pl] q by auto
      moreover obtain j where "Suc i \<le> j" "j < Suc i + length ts" "prefix (p @ [word_of_nat j]) r"
        using bspec [OF xnodes_place(2) [OF k] r] by auto
      ultimately show ?thesis using path_lt_siblings [of i j p q r] k by (auto simp: kids_ok_def)
    qed
    then show ?thesis
      using 6(1) [OF False pl] 6(2) [OF k] False by (auto simp: sorted_wrt_append)
  qed
qed auto

text \<open>The values of a tree are its leaves.\<close>

lemma xnodes_leaf:
  "place p x \<Longrightarrow> (q, XVal v) \<in> set (xnodes p x) \<longleftrightarrow> (\<exists>r. q = p @ r \<and> xlookup x r = Some v)"
  "kids_ok i p ts \<Longrightarrow> (q, XVal v) \<in> set (xkids i p ts) \<longleftrightarrow>
     (\<exists>j r. i \<le> j \<and> j < i + length ts \<and> q = p @ word_of_nat j # r \<and> xlookup (ts ! (j - i)) r = Some v)"
proof (induction p x and i p ts rule: xnodes_xkids.induct)
  case (2 p w)
  then show ?case by auto
next
  case (3 p k t)
  then show ?case using place_short [of p k t] by (auto simp: prefix_def)
next
  case (4 p ts)
  have k: "kids_ok 0 p ts" "length ts = 17"
    using 4(2) place_kids_ok by (auto simp: place_def canon_full_iff)
  have "(\<exists>j r. j < length ts \<and> q = p @ word_of_nat j # r \<and> xlookup (ts ! j) r = Some v) \<longleftrightarrow>
      (\<exists>r. q = p @ r \<and> xlookup (XFull ts) r = Some v)" (is "?L = ?R")
  proof
    assume ?L
    then obtain j r where "j < 17" "q = p @ word_of_nat j # r" "xlookup (ts ! j) r = Some v" using k by auto
    then show ?R using k by (intro exI [of _ "word_of_nat j # r"]) (simp add: unat_of_nat)
  next
    assume ?R
    then obtain s where s: "q = p @ s" "xlookup (XFull ts) s = Some v" by blast
    then obtain a r where "q = p @ a # r" "unat a < length ts" "xlookup (ts ! unat a) r = Some v"
      by (cases s) (auto split: if_splits)
    then show ?L by (intro exI [of _ "unat a"] exI [of _ r]) simp
  qed
  then show ?case using 4(1) [OF k(1)] by simp
next
  case (6 i p t ts)
  have k: "kids_ok (Suc i) p ts" using 6(3) by (simp add: kids_ok_Cons)
  have hd: "(q, XVal v) \<in> set (if t = XNil then [] else xnodes (p @ [word_of_nat i]) t) \<longleftrightarrow>
      (\<exists>r. q = p @ word_of_nat i # r \<and> xlookup t r = Some v)"
    using 6(1,3) by (cases "t = XNil") (auto simp: kids_ok_Cons)
  have "(\<exists>j r. i \<le> j \<and> j < i + length (t # ts) \<and> q = p @ word_of_nat j # r \<and> xlookup ((t # ts) ! (j - i)) r = Some v) \<longleftrightarrow>
      (\<exists>r. q = p @ word_of_nat i # r \<and> xlookup t r = Some v) \<or>
      (\<exists>j r. Suc i \<le> j \<and> j < Suc i + length ts \<and> q = p @ word_of_nat j # r \<and> xlookup (ts ! (j - Suc i)) r = Some v)"
    using ex_kids [of i t ts "\<lambda>j t. \<exists>r. q = p @ word_of_nat j # r \<and> xlookup t r = Some v"] by blast
  then show ?case using hd 6(2) [OF k] by simp
qed (auto simp: place_def)


section \<open>Seeking\<close>

definition sorted_todo :: "(bytes \<times> xt) list \<Rightarrow> bool" where
  "sorted_todo todo \<longleftrightarrow> sorted_wrt path_lt (map fst todo)"

definition from_key :: "bytes \<Rightarrow> (bytes \<times> xt) list \<Rightarrow> (bytes \<times> xt) list" where
  "from_key key todo = filter (\<lambda>(p, x). bytes_le key p) todo"

lemma from_key_sorted:
  assumes "sorted_todo ((p, x) # r)" "bytes_le key p"
  shows "from_key key ((p, x) # r) = (p, x) # r"
proof -
  have "bytes_le key q" if "(q, y) \<in> set r" for q y
    using assms that bytes_le_trans [of key p q] by (force simp: sorted_todo_def path_lt_def)
  then show ?thesis using assms(2) by (auto simp: from_key_def filter_id_conv)
qed

text \<open>Nothing below a path before the key that is not a prefix of the key can reach the key.\<close>

lemma below_before:
  assumes "\<not> bytes_le key p" "\<not> prefix p key" "prefix p q"
  shows "\<not> bytes_le key q"
  using assms
proof (induction key p arbitrary: q rule: bytes_le.induct)
  case (3 x xs y ys)
  then show ?case by (cases q) auto
qed auto

lemma below_place:
  assumes "place p x \<or> x = XNil" "-1 \<le> idx" "(q, y) \<in> set (below p x idx)"
  shows "prefix p q"
proof (cases x)
  case (XShort k t)
  then have "place p x" using assms(1) by auto
  then have "place (p @ k) t" using place_short XShort by simp
  then show ?thesis
    using xnodes_place(1) [of "p @ k" t] assms(3) XShort append_prefixD
    by (fastforce simp: below_def split: if_splits)
next
  case (XFull ts)
  then have "kids_ok 0 p ts" using assms(1) place_kids_ok by auto
  moreover have "nat (idx + 1) \<le> length ts"
    using assms(3) XFull by (cases "nat (idx + 1) \<le> length ts") (auto simp: below_def)
  ultimately have "kids_ok (nat (idx + 1)) p (drop (nat (idx + 1)) ts)"
    by (rule kids_ok_drop)
  from bspec [OF xnodes_place(2) [OF this]] assms(3) XFull show ?thesis
    using append_prefixD by (fastforce simp: below_def)
qed (use assms in \<open>auto simp: below_def\<close>)

lemma sorted_todo_append: "sorted_todo (a @ b) \<Longrightarrow> sorted_todo b"
  by (simp add: sorted_todo_def sorted_wrt_append)

lemma from_key_pop:
  assumes "place p x \<or> x = XNil" "-1 \<le> idx" "\<not> bytes_le key p" "\<not> prefix p key"
  shows "from_key key (below p x idx @ todo) = from_key key todo"
proof -
  have "\<not> bytes_le key q" if "(q, y) \<in> set (below p x idx)" for q y
    using below_before [OF assms(3,4)] below_place [OF assms(1,2) that] by blast
  then show ?thesis by (auto simp: from_key_def filter_empty_conv)
qed


lemma it_peek_seek:
  assumes "frames db (it_stack it) (it_path it) todo" "it_stack it \<noteq> []" "\<not> bytes_le key (it_path it)"
  shows "\<exists>stack path a todo'. frames db stack path todo' \<and> from_key key todo' = from_key key todo
    \<and> todo = a @ todo' \<and> it_peek K (hasPrefix key (it_path it)) it =
        (case peek_loop (it_trie it) stack path of (r, s, p) \<Rightarrow> (r, it\<lparr>it_stack := s, it_path := p\<rparr>))"
proof (cases "hasPrefix key (it_path it)")
  case True
  then show ?thesis
    using assms by (intro exI [of _ "it_stack it"] exI [of _ "it_path it"] exI [of _ "[]"] exI [of _ todo])
      (simp add: it_peek_def)
next
  case False
  obtain st rest where st: "it_stack it = st # rest" using assms(2) by (cases "it_stack it") auto
  from assms(1) [unfolded st] show ?thesis
  proof (rule frames_consE)
    fix x todo'
    assume 1: "todo = below (it_path it) x (is_index st) @ todo'" "expands db (is_node st) x" "resolved (is_node st)"
      "place (it_path it) x \<or> x = XNil" "-1 \<le> is_index st" "is_pathlen st \<le> length (it_path it)"
      "frames db rest (take (is_pathlen st) (it_path it)) todo'"
    have "from_key key todo = from_key key todo'"
      unfolding 1(1) using from_key_pop [OF 1(4,5) assms(3)] False by (simp add: hasPrefix_iff)
    moreover have "it_peek K (hasPrefix key (it_path it)) it =
        (case peek_loop (it_trie it) rest (take (is_pathlen st) (it_path it)) of
           (r, s, p) \<Rightarrow> (r, it\<lparr>it_stack := s, it_path := p\<rparr>))"
      using False st by (simp add: it_peek_def it_pop_def split: prod.splits)
    ultimately show ?thesis using 1(1,7) by metis
  qed
qed

lemma it_seek_loop_itr:
  assumes "itr K it todo" "it_err it = None" "sorted_todo todo" "it_stack it \<noteq> [] \<Longrightarrow> \<not> bytes_le key (it_path it)"
  shows "\<exists>e it'. it_seek_loop K pfx key it = Some (e, it') \<and> itr K (it'\<lparr>it_err := e\<rparr>) (from_key key todo)"
  using assms
proof (induction "length todo" arbitrary: it todo rule: less_induct)
  case less
  from less.prems(1) show ?case
  proof cases
    case (itr_start x)
    obtain st tr where s: "it_peek K (hasPrefix key (it_path it)) it = (Inr (st, []), it\<lparr>it_trie := tr\<rparr>)"
        "expands (t_db tr) (t_root tr) x" "hgood K (t_db tr) False (t_root tr)"
        "expands (t_db tr) (is_node st) x" "resolved (is_node st)" "is_index st = -1" "is_pathlen st = 0"
      using it_peek_start [OF itr_start(3-6), of "hasPrefix key (it_path it)"] by blast
    show ?thesis
    proof (cases "bytes_le key []")
      case True
      then have "it_seek_loop K pfx key it = Some (None, it\<lparr>it_trie := tr\<rparr>)"
        using s(1) by (subst it_seek_loop.simps) simp
      moreover have "itr K (it\<lparr>it_trie := tr, it_err := None\<rparr>) (xnodes [] x)"
        using itr_start s(2,3) by (intro itr.itr_start) auto
      moreover have "from_key key todo = xnodes [] x"
        using from_key_sorted [of "[]" x _ key] True less.prems(3) itr_start(1) xnodes_below [of "[]" x] by simp
      ultimately show ?thesis by simp
    next
      case False
      let ?it = "it\<lparr>it_trie := tr, it_path := [], it_stack := [st]\<rparr>"
      have "it_seek_loop K pfx key it = it_seek_loop K pfx key ?it"
        using s(1) False itr_start(3) by (subst it_seek_loop.simps) (simp add: it_push_eq bump_top_def)
      moreover have "itr K ?it (below [] x (-1))"
        using root_frame [OF s(4) itr_start(5) s(5) refl s(6,7)] itr_start(2) by (intro itr_frames) auto
      moreover have "from_key key todo = from_key key (below [] x (-1))"
        using itr_start(1) xnodes_below [of "[]" x] False by (simp add: from_key_def)
      moreover have "length (below [] x (-1)) < length todo" "sorted_todo (below [] x (-1))"
        using itr_start(1) xnodes_below [of "[]" x] less.prems(3) by (simp_all add: sorted_todo_def)
      ultimately show ?thesis
        using less.hyps [of "below [] x (-1)" ?it] False itr_start(2) by simp
    qed
  next
    case itr_frames
    have nb: "\<not> bytes_le key (it_path it)" using less.prems(4) itr_frames(2) by blast
    obtain stack path a todo' where t: "frames (t_db (it_trie it)) stack path todo'"
        "from_key key todo' = from_key key todo" "todo = a @ todo'"
        "it_peek K (hasPrefix key (it_path it)) it =
          (case peek_loop (it_trie it) stack path of (r, s, p) \<Rightarrow> (r, it\<lparr>it_stack := s, it_path := p\<rparr>))"
      using it_peek_seek [OF itr_frames(3,2) nb, of K] by blast
    have so: "sorted_todo todo'" using less.prems(3) t(3) sorted_todo_append by blast
    from peek_loop_frames [OF t(1) refl] show ?thesis
    proof (elim disjE conjE exE)
      fix path'
      assume "todo' = []" "peek_loop (it_trie it) stack path = (Inl IteratorEnd, [], path')"
      then show ?thesis
        using t(2,4) by (subst it_seek_loop.simps) (auto simp: from_key_def intro: itr_end)
    next
      fix p x r st stack' path'
      assume a: "todo' = (p, x) # r" "peek_loop (it_trie it) stack path = (Inr (st, p), stack', path')"
        "stack' \<noteq> []" "frames (t_db (it_trie it)) stack' path' todo'"
        "frames (t_db (it_trie it)) (st # bump_top stack') p r"
      let ?it = "it\<lparr>it_stack := stack', it_path := path'\<rparr>"
      show ?thesis
      proof (cases "bytes_le key p")
        case True
        then have "it_seek_loop K pfx key it = Some (None, ?it)"
          using t(4) a(2) by (subst it_seek_loop.simps) simp
        moreover have "itr K (?it\<lparr>it_err := None\<rparr>) todo'" using a(3,4) by (intro itr.itr_frames) auto
        moreover have "from_key key todo = todo'"
          using from_key_sorted [OF so [unfolded a(1)] True] t(2) a(1) by simp
        ultimately show ?thesis by simp
      next
        case False
        let ?it = "it\<lparr>it_path := p, it_stack := st # bump_top stack'\<rparr>"
        have "it_seek_loop K pfx key it = it_seek_loop K pfx key ?it"
          using t(4) a(2) False by (subst it_seek_loop.simps) (simp add: it_push_eq)
        moreover have "itr K ?it r" using a(5) itr_frames(1) by (intro itr.itr_frames) auto
        moreover have "from_key key todo = from_key key r" using t(2) a(1) False by (simp add: from_key_def)
        moreover have "length r < length todo" "sorted_todo r"
          using t(3) a(1) so by (simp_all add: sorted_todo_def)
        ultimately show ?thesis using less.hyps [of r ?it] False itr_frames(1) by simp
      qed
    qed
  next
    case itr_end
    then show ?thesis using less.prems(2) by simp
  qed
qed

section \<open>Leaves\<close>

definition good_todo :: "(bytes \<times> xt) list \<Rightarrow> bool" where
  "good_todo todo \<longleftrightarrow> (\<forall>(q, y) \<in> set todo.
     if y = XNil then q = [] else place q y \<and> (\<forall>v. y = XVal v \<longrightarrow> odd (length q)))"

fun leaves :: "(bytes \<times> xt) list \<Rightarrow> (bytes \<times> bytes) list" where
  "leaves [] = []"
| "leaves ((q, XVal v) # todo) = (decodeNibbles (butlast q), v) # leaves todo"
| "leaves (_ # todo) = leaves todo"

lemma good_todo_Cons:
  "good_todo ((q, y) # todo) \<longleftrightarrow>
     (if y = XNil then q = [] else place q y \<and> (\<forall>v. y = XVal v \<longrightarrow> odd (length q))) \<and> good_todo todo"
  by (simp add: good_todo_def)

lemma good_leaf:
  assumes "good_todo ((q, y) # todo)"
  shows "hasTerm q \<longleftrightarrow> (\<exists>v. y = XVal v)"
proof (cases "\<exists>v. y = XVal v")
  case True
  then show ?thesis
    using assms hasTerm_term_key [of q] by (auto simp: good_todo_Cons place_def)
next
  case False
  then have "is_nibbles q" using assms by (auto simp: good_todo_Cons place_def split: if_splits)
  then have "\<not> hasTerm q" using last_in_set [of q] by (metis hasTerm_def is_nibbles_def less_irrefl)
  then show ?thesis using False by simp
qed

lemma good_leaf_key:
  assumes "good_todo ((q, XVal v) # todo)"
  shows "hexToKeybytes q = Some (decodeNibbles (butlast q))" "keybytesToHex (decodeNibbles (butlast q)) = q"
proof -
  have q: "term_key q" "odd (length q)" using assms by (auto simp: good_todo_Cons place_def)
  then have n: "q \<noteq> []" "last q = 16" "is_nibbles (butlast q)" by (auto simp: term_key_def)
  have e: "even (length (butlast q))" using q(2) by simp
  show "hexToKeybytes q = Some (decodeNibbles (butlast q))"
    using hasTerm_term_key [OF q(1)] e by (simp add: hexToKeybytes_def)
  show "keybytesToHex (decodeNibbles (butlast q)) = q"
    using keybytesToHex_decodeNibbles [OF n(3) e] n(1,2) by (metis append_butlast_last_id)
qed

lemma expands_value: "expands db n (XVal v) \<Longrightarrow> resolved n \<Longrightarrow> n = ValueN v"
  by (cases n) (auto simp: resolved_def)

text \<open>One step to the next leaf.\<close>

lemma Iterator_Next_itr:
  assumes "itr K it todo" "good_todo todo"
  shows "(leaves todo = [] \<and> (\<exists>it'. Iterator_Next K it = Some (Inr (None, it')))) \<or>
    (\<exists>kv it' todo'. Iterator_Next K it = Some (Inr (Some kv, it')) \<and> itr K it' todo'
       \<and> good_todo todo' \<and> leaves todo = kv # leaves todo' \<and> length todo' < length todo)"
  using assms
proof (induction todo arbitrary: it rule: list.induct)
  case Nil
  then obtain it' where "it_Next K True it = Some (False, it')" using it_Next_itr [of K it "[]"] by blast
  then show ?case by (subst Iterator_Next.simps) simp
next
  case (Cons qy todo)
  obtain q y where qy: "qy = (q, y)" by (cases qy)
  obtain it' st rest where n: "it_Next K True it = Some (True, it')" "itr K it' todo"
      "it_path it' = q" "it_stack it' = st # rest" "expands (t_db (it_trie it')) (is_node st) y" "resolved (is_node st)"
    using it_Next_itr [OF Cons.prems(1)] qy by auto
  show ?case
  proof (cases "\<exists>v. y = XVal v")
    case True
    then obtain v where v: "y = XVal v" by blast
    have "is_node st = ValueN v" using expands_value n(5,6) v by blast
    then have "Iterator_Next K it = Some (Inr (Some (decodeNibbles (butlast q), v), it'))"
      using n good_leaf [of q y todo] good_leaf_key(1) [of q v todo] Cons.prems(2) qy v
      by (subst Iterator_Next.simps) (simp add: it_Leaf_def it_LeafKey_def it_LeafBlob_def)
    moreover have "good_todo todo" using Cons.prems(2) qy by (simp add: good_todo_Cons)
    ultimately show ?thesis using n(2) qy v by (intro disjI2) fastforce
  next
    case False
    then have "\<not> hasTerm q" using good_leaf [of q y todo] Cons.prems(2) qy by simp
    then have e: "Iterator_Next K it = Iterator_Next K it'"
      using n by (subst Iterator_Next.simps) (simp add: it_Leaf_def)
    have l: "leaves (qy # todo) = leaves todo" using False qy by (cases y) auto
    have "good_todo todo" using Cons.prems(2) qy by (simp add: good_todo_Cons)
    from Cons.IH [OF n(2) this] show ?thesis
      unfolding e l
      by (metis length_Cons less_Suc_eq)
  qed
qed

lemma good_todo_append: "good_todo (a @ b) \<longleftrightarrow> good_todo a \<and> good_todo b"
  by (auto simp: good_todo_def)

lemma drain_it_itr:
  assumes "itr K it todo" "good_todo todo"
  shows "drain_it K it acc = Some (Inr (rev acc @ leaves todo))"
  using assms
proof (induction "length todo" arbitrary: it todo acc rule: less_induct)
  case less
  from Iterator_Next_itr [OF less.prems] show ?case
  proof (elim disjE conjE exE)
    fix it' assume "leaves todo = []" "Iterator_Next K it = Some (Inr (None, it'))"
    then show ?thesis by (subst drain_it.simps) simp
  next
    fix kv it' todo'
    assume a: "Iterator_Next K it = Some (Inr (Some kv, it'))" "itr K it' todo'"
       "good_todo todo'" "leaves todo = kv # leaves todo'" "length todo' < length todo"
    have "drain_it K it' (kv # acc) = Some (Inr (rev (kv # acc) @ leaves todo'))"
      by (rule less.hyps [OF a(5,2,3)])
    then show ?thesis using a(1,4) by (subst drain_it.simps) simp
  qed
qed

text \<open>The prefix iterator stops at the first node away from its prefix.\<close>

definition while_prefix :: "bytes \<Rightarrow> (bytes \<times> xt) list \<Rightarrow> (bytes \<times> xt) list" where
  "while_prefix pfx todo = takeWhile (\<lambda>(q, y). prefix pfx q) todo"

lemma Prefix_Next_itr:
  assumes "itr K (pi_it p) todo" "good_todo todo"
  shows "(leaves (while_prefix (pi_prefix p) todo) = [] \<and> (\<exists>p'. Prefix_Next K p = Some (Inr (None, p')))) \<or>
    (\<exists>kv p' todo'. Prefix_Next K p = Some (Inr (Some kv, p')) \<and> itr K (pi_it p') todo'
       \<and> pi_prefix p' = pi_prefix p \<and> good_todo todo' \<and> length todo' < length todo
       \<and> leaves (while_prefix (pi_prefix p) todo) = kv # leaves (while_prefix (pi_prefix p) todo'))"
  using assms
proof (induction todo arbitrary: p rule: list.induct)
  case Nil
  then obtain it' where "it_Next K True (pi_it p) = Some (False, it')"
    using it_Next_itr [of K "pi_it p" "[]"] by blast
  then show ?case by (subst Prefix_Next.simps) (simp add: pi_Next_def while_prefix_def)
next
  case (Cons qy todo)
  obtain q y where qy: "qy = (q, y)" by (cases qy)
  obtain it' st rest where n: "it_Next K True (pi_it p) = Some (True, it')" "itr K it' todo"
      "it_path it' = q" "it_stack it' = st # rest" "expands (t_db (it_trie it')) (is_node st) y" "resolved (is_node st)"
    using it_Next_itr [OF Cons.prems(1)] qy by auto
  let ?p = "p\<lparr>pi_it := it'\<rparr>"
  have nx: "pi_Next K True p = Some (prefix (pi_prefix p) q, ?p)" "pi_hasPrefix ?p = prefix (pi_prefix p) q"
    using n(1,3) by (simp_all add: pi_Next_def pi_hasPrefix_def hasPrefix_iff)
  show ?case
  proof (cases "prefix (pi_prefix p) q")
    case False
    then show ?thesis using nx qy by (subst Prefix_Next.simps) (simp add: while_prefix_def)
  next
    case pre: True
    show ?thesis
    proof (cases "\<exists>v. y = XVal v")
      case True
      then obtain v where v: "y = XVal v" by blast
      have "is_node st = ValueN v" using expands_value n(5,6) v by blast
      then have "Prefix_Next K p = Some (Inr (Some (decodeNibbles (butlast q), v), ?p))"
        using n nx pre good_leaf [of q y todo] good_leaf_key(1) [of q v todo] Cons.prems(2) qy v
        by (subst Prefix_Next.simps)
          (simp add: it_Leaf_def it_LeafKey_def it_LeafBlob_def pi_Leaf_def pi_LeafKey_def pi_LeafBlob_def)
      moreover have "itr K (pi_it ?p) todo" "pi_prefix ?p = pi_prefix p" "good_todo todo"
        "leaves (while_prefix (pi_prefix p) (qy # todo)) = (decodeNibbles (butlast q), v) # leaves (while_prefix (pi_prefix p) todo)"
        using n(2) Cons.prems(2) qy v pre by (simp_all add: good_todo_Cons while_prefix_def)
      ultimately show ?thesis by (metis length_Cons lessI)
    next
      case False
      then have "\<not> hasTerm q" using good_leaf [of q y todo] Cons.prems(2) qy by simp
      then have e: "Prefix_Next K p = Prefix_Next K ?p"
        using n nx pre by (subst Prefix_Next.simps) (simp add: it_Leaf_def pi_Leaf_def)
      have l: "leaves (while_prefix (pi_prefix p) (qy # todo)) = leaves (while_prefix (pi_prefix ?p) todo)"
        using False qy pre by (cases y) (auto simp: while_prefix_def)
      have g: "good_todo todo" using Cons.prems(2) qy by (simp add: good_todo_Cons)
      have i: "itr K (pi_it ?p) todo" using n(2) by simp
      from Cons.IH [OF i g] show ?thesis
      proof (elim disjE exE conjE)
        fix p' assume "leaves (while_prefix (pi_prefix ?p) todo) = []" "Prefix_Next K ?p = Some (Inr (None, p'))"
        then show ?thesis using e l by (intro disjI1) simp
      next
        fix kv p' todo'
        assume a: "Prefix_Next K ?p = Some (Inr (Some kv, p'))" "itr K (pi_it p') todo'"
          "pi_prefix p' = pi_prefix ?p" "good_todo todo'" "length todo' < length todo"
          "leaves (while_prefix (pi_prefix ?p) todo) = kv # leaves (while_prefix (pi_prefix ?p) todo')"
        then have "length todo' < length (qy # todo)" "pi_prefix p' = pi_prefix p" "Prefix_Next K p = Some (Inr (Some kv, p'))"
          "leaves (while_prefix (pi_prefix p) (qy # todo)) = kv # leaves (while_prefix (pi_prefix p) todo')"
          using l e by simp_all
        then show ?thesis using a(2,4) by blast
      qed
    qed
  qed
qed

lemma drain_prefix_itr:
  assumes "itr K (pi_it p) todo" "good_todo todo"
  shows "drain_prefix K p acc = Some (Inr (rev acc @ leaves (while_prefix (pi_prefix p) todo)))"
  using assms
proof (induction "length todo" arbitrary: p todo acc rule: less_induct)
  case less
  from Prefix_Next_itr [OF less.prems] show ?case
  proof (elim disjE conjE exE)
    fix p' assume "leaves (while_prefix (pi_prefix p) todo) = []" "Prefix_Next K p = Some (Inr (None, p'))"
    then show ?thesis by (subst drain_prefix.simps) simp
  next
    fix kv p' todo'
    assume a: "Prefix_Next K p = Some (Inr (Some kv, p'))" "itr K (pi_it p') todo'" "pi_prefix p' = pi_prefix p"
       "good_todo todo'" "length todo' < length todo"
       "leaves (while_prefix (pi_prefix p) todo) = kv # leaves (while_prefix (pi_prefix p) todo')"
    have "drain_prefix K p' (kv # acc) = Some (Inr (rev (kv # acc) @ leaves (while_prefix (pi_prefix p') todo')))"
      by (rule less.hyps [OF a(5,2,4)])
    then show ?thesis using a(1,3,6) by (subst drain_prefix.simps) simp
  qed
qed

section \<open>What iteration yields\<close>

lemma leaves_iff:
  "good_todo todo \<Longrightarrow> (k, v) \<in> set (leaves todo) \<longleftrightarrow> (keybytesToHex k, XVal v) \<in> set todo"
proof (induction todo rule: leaves.induct)
  case (2 q w todo)
  then show ?case
    using good_leaf_key(2) [OF 2(2)] decodeNibbles_keybytes [of k] by (auto simp: good_todo_Cons)
qed (auto simp: good_todo_Cons)

lemma leaves_sorted:
  "good_todo todo \<Longrightarrow> sorted_todo todo \<Longrightarrow> sorted_wrt path_lt (map (keybytesToHex \<circ> fst) (leaves todo))"
proof (induction todo rule: leaves.induct)
  case (2 q w todo)
  have g: "good_todo todo" using 2(2) by (simp add: good_todo_Cons)
  have "path_lt q (keybytesToHex k)" if "(k, v) \<in> set (leaves todo)" for k v
    using that 2(3) by (force simp: leaves_iff [OF g] sorted_todo_def)
  then show ?case
    using 2 good_leaf_key(2) [OF 2(2)] g by (auto simp: sorted_todo_def)
qed (auto simp: good_todo_Cons sorted_todo_def)

lemma sorted_todo_filter: "sorted_todo todo \<Longrightarrow> sorted_todo (filter P todo)"
  by (auto simp: sorted_todo_def sorted_wrt_map sorted_wrt_filter)

lemma good_todo_filter: "good_todo todo \<Longrightarrow> good_todo (filter P todo)"
  by (auto simp: good_todo_def)

lemma place_not_nil [simp]: "\<not> place p XNil"
  by (simp add: place_def)

lemma prefix_between: "bytes_le p q \<Longrightarrow> bytes_le q r \<Longrightarrow> prefix p r \<Longrightarrow> prefix p q"
proof (induction p q arbitrary: r rule: bytes_le.induct)
  case (3 x xs y ys)
  then show ?case by (cases r) auto
qed auto

lemma root_todo:
  assumes "canon_root x" "byte_keys x"
  shows "good_todo (xnodes [] x)" "sorted_todo (xnodes [] x)"
    "(keybytesToHex k, XVal v) \<in> set (xnodes [] x) \<longleftrightarrow> xmap x k = Some v"
proof -
  have "good_todo (xnodes [] x) \<and> sorted_todo (xnodes [] x)
      \<and> ((keybytesToHex k, XVal v) \<in> set (xnodes [] x) \<longleftrightarrow> xmap x k = Some v)"
  proof (cases "x = XNil")
    case True
    then show ?thesis by (simp add: good_todo_def sorted_todo_def xmap_def)
  next
    case False
    then have pl: "place [] x" using assms(1) by (auto simp: canon_root_def place_def)
    have "place q y \<and> (\<forall>v. y = XVal v \<longrightarrow> odd (length q))" if q: "(q, y) \<in> set (xnodes [] x)" for q y
    proof -
      have p: "place q y" using bspec [OF xnodes_place(1) [OF pl] q] by simp
      have "odd (length q)" if "y = XVal v" for v
        using p that xnodes_leaf(1) [OF pl, of q v] q assms(2) by (auto simp: place_def byte_keys_def)
      then show ?thesis using p by blast
    qed
    then have "good_todo (xnodes [] x)" using place_not_nil by (fastforce simp: good_todo_def)
    moreover have "sorted_todo (xnodes [] x)" using xnodes_sorted(1) [OF pl] by (simp add: sorted_todo_def)
    ultimately show ?thesis using xnodes_leaf(1) [OF pl] by (simp add: xmap_def)
  qed
  then show "good_todo (xnodes [] x)" "sorted_todo (xnodes [] x)"
    "(keybytesToHex k, XVal v) \<in> set (xnodes [] x) \<longleftrightarrow> xmap x k = Some v"
    by blast+
qed

lemma while_prefix_from_key:
  assumes "sorted_todo todo"
  shows "while_prefix pfx (from_key pfx todo) = filter (\<lambda>(q, y). prefix pfx q) todo"
  using assms
proof (induction todo)
  case Nil
  then show ?case by (simp add: while_prefix_def from_key_def)
next
  case (Cons qy todo)
  obtain q y where qy: "qy = (q, y)" by (cases qy)
  have so: "sorted_todo todo" using Cons.prems by (simp add: sorted_todo_def)
  show ?case
  proof (cases "bytes_le pfx q \<and> \<not> prefix pfx q")
    case True
    have "\<not> prefix pfx r" if "(r, z) \<in> set todo" for r z
    proof
      assume "prefix pfx r"
      moreover have "bytes_le q r" using Cons.prems that qy by (force simp: sorted_todo_def path_lt_def)
      ultimately show False using True prefix_between [of pfx q r] by blast
    qed
    then have "filter (\<lambda>(q, y). prefix pfx q) todo = []" by (auto simp: filter_empty_conv)
    then show ?thesis
      using True qy by (simp add: while_prefix_def from_key_def)
  next
    case False
    then show ?thesis
      using Cons.IH [OF so] qy bytes_le_append [of pfx] by (auto simp: while_prefix_def from_key_def prefix_def)
  qed
qed

lemma newNodeIterator_itr:
  assumes "trie_ok K t m" "fst (trie_Hash K t) \<noteq> BytesToHash (K [])"
  shows "\<exists>it x. newNodeIterator K t start = Some (Inr it) \<and> canon_root x \<and> byte_keys x \<and> m = xmap x
    \<and> itr K it (from_key (butlast (keybytesToHex start)) (xnodes [] x))"
proof -
  obtain x where x: "expands (t_db t) (t_root t) x" "canon_root x" "m = xmap x"
      "hgood K (t_db t) False (t_root t)" "byte_keys x"
    using assms(1) by (auto simp: trie_ok_def trie_rep_def)
  obtain h t' where t': "trie_Hash K t = (h, t')" "expands (t_db t') (t_root t') x"
      "hgood K (t_db t') False (t_root t')"
    using trie_Hash_ok [OF x(1,2,4)] by blast
  let ?it = "\<lparr>it_trie = t', it_stack = [], it_path = [], it_err = None\<rparr>"
  let ?key = "butlast (keybytesToHex start)"
  have i: "itr K ?it (xnodes [] x)" using t' x(2) by (intro itr_start) auto
  obtain e it' where "it_seek_loop K start ?key ?it = Some (e, it')"
      "itr K (it'\<lparr>it_err := e\<rparr>) (from_key ?key (xnodes [] x))"
    using it_seek_loop_itr [OF i _ root_todo(2) [OF x(2,5)], of ?key start] by auto
  then have "newNodeIterator K t start = Some (Inr (it'\<lparr>it_err := e\<rparr>))"
      "itr K (it'\<lparr>it_err := e\<rparr>) (from_key ?key (xnodes [] x))"
    using t'(1) assms(2) by (simp_all add: newNodeIterator_def it_seek_def)
  then show ?thesis using x(2,3,5) by blast
qed

lemma prefix_hex: "prefix (butlast (keybytesToHex p)) (keybytesToHex k) \<longleftrightarrow> prefix p k"
proof (induction p arbitrary: k)
  case Nil
  then show ?case by (simp add: keybytesToHex_def)
next
  case (Cons a p)
  show ?case
  proof (cases k)
    case (Cons b k')
    have "a div 16 = b div 16 \<and> a mod 16 = b mod 16 \<longleftrightarrow> a = b"
      by (metis word_mod_div_equality)
    then show ?thesis using Cons.IH [of k'] Cons by auto
  qed auto
qed


lemma trie_leaves_ok:
  assumes "trie_ok K t m" "fst (trie_Hash K t) \<noteq> BytesToHash (K [])"
  shows "\<exists>l. trie_leaves K t start = Some (Inr l)
    \<and> sorted_wrt path_lt (map (keybytesToHex \<circ> fst) l)
    \<and> set l = {(k, v). m k = Some v \<and> bytes_le (butlast (keybytesToHex start)) (keybytesToHex k)}"
proof -
  let ?key = "butlast (keybytesToHex start)"
  obtain it x where x: "newNodeIterator K t start = Some (Inr it)" "canon_root x" "byte_keys x" "m = xmap x"
      "itr K it (from_key ?key (xnodes [] x))"
    using newNodeIterator_itr [OF assms] by blast
  let ?todo = "from_key ?key (xnodes [] x)"
  have g: "good_todo ?todo" "sorted_todo ?todo"
    using good_todo_filter sorted_todo_filter root_todo [OF x(2,3)] by (simp_all add: from_key_def)
  have "trie_leaves K t start = Some (Inr (leaves ?todo))"
    using x(1) drain_it_itr [OF x(5) g(1), of "[]"] by (simp add: trie_leaves_def)
  moreover have "set (leaves ?todo) = {(k, v). m k = Some v \<and> bytes_le ?key (keybytesToHex k)}"
    using leaves_iff [OF g(1)] root_todo(3) [OF x(2,3)] x(4) by (auto simp: from_key_def)
  ultimately show ?thesis using leaves_sorted [OF g] by blast
qed

text \<open>
  C15: Iterating over a trie, from any start key, ends; it yields exactly the entries of the map
  the trie stands for whose key is not before the start, each once, in the order of the hex
  keys (a key comes after the keys it is a proper prefix of).
\<close>

theorem trie_iteration:
  assumes "trie_ok K t m" "fst (trie_Hash K t) \<noteq> BytesToHash (K [])"
  shows "\<exists>l. trie_leaves K t start = Some (Inr l)
    \<and> sorted_wrt path_lt (map (keybytesToHex \<circ> fst) l)
    \<and> set l = {(k, v). m k = Some v \<and> bytes_le (butlast (keybytesToHex start)) (keybytesToHex k)}"
  using assms by (rule trie_leaves_ok)

lemma pad_hash_length [simp]: "length (pad_hash b) = 32"
  by (auto simp: pad_hash_def emptyRoot_def)

lemma leaf_trie_hash: "fst (trie_Hash pad_hash leaf_trie) \<noteq> BytesToHash (pad_hash [])"
proof -
  have s: "rlp_small (RList [RStr [0x20, 1], RStr [2]])"
    by (simp add: rlp_small_def puthead_def word_le_nat_alt)
  have "fst (trie_Hash pad_hash leaf_trie) = BytesToHash (xhash pad_hash (XShort [0, 1, 16] (XVal [2])))"
    using trie_Hash_ok [OF leaf_trie_expands, of pad_hash] leaf_trie_ok [of pad_hash]
    by (auto simp: canon_root_def term_key_def trie_ok_def)
  moreover have "xhash pad_hash (XShort [0, 1, 16] (XVal [2])) = pad_hash [0xC4, 0x82, 0x20, 1, 2]"
    using s by (simp add: xhash_def xenc.simps hexToCompact_def hasTerm_def EncodeToBytes_eq puthead_def word_le_nat_alt)
  moreover have "hd (pad_hash [0xC4, 0x82, 0x20, 1, 2]) \<noteq> hd (pad_hash [])"
    by (simp add: pad_hash_def)
  ultimately show ?thesis by (auto simp: BytesToHash_def HashLength_def)
qed

theorem trie_iteration_witness:
  "\<exists>l. trie_leaves pad_hash leaf_trie [0] = Some (Inr l) \<and> set l = {([1], [2])}"
proof -
  have "{(k, v). ([[1] \<mapsto> [2]] :: bytes \<rightharpoonup> bytes) k = Some v \<and>
      bytes_le (butlast (keybytesToHex [0])) (keybytesToHex k)} = {([1], [2])}"
    by (auto split: if_splits)
  then show ?thesis
    using trie_iteration [OF leaf_trie_ok leaf_trie_hash, of "[0]"] by auto
qed

lemma prefix_leaves_ok:
  assumes "trie_ok K t m" "fst (trie_Hash K t) \<noteq> BytesToHash (K [])"
  shows "\<exists>l. prefix_leaves K t pfx = Some (Inr l)
    \<and> sorted_wrt path_lt (map (keybytesToHex \<circ> fst) l)
    \<and> set l = {(k, v). m k = Some v \<and> prefix (case_option [] id (t_prefix t) @ pfx) k}"
proof -
  let ?p = "case_option [] id (t_prefix t) @ pfx"
  let ?key = "butlast (keybytesToHex ?p)"
  obtain h t' where t': "trie_Hash K t = (h, t')" "trie_ok K t' m"
    using trie_Hash_rep [OF assms(1)] by blast
  have h: "fst (trie_Hash K t') \<noteq> BytesToHash (K [])"
    using trie_Hash_determined [OF assms(1) t'(2)] assms(2) by simp
  obtain it x where x: "newNodeIterator K t' ?p = Some (Inr it)" "canon_root x" "byte_keys x" "m = xmap x"
      "itr K it (from_key ?key (xnodes [] x))"
    using newNodeIterator_itr [OF t'(2) h] by blast
  let ?todo = "filter (\<lambda>(q, y). prefix ?key q) (xnodes [] x)"
  have g: "good_todo ?todo" "sorted_todo ?todo" "good_todo (from_key ?key (xnodes [] x))"
    using good_todo_filter sorted_todo_filter root_todo [OF x(2,3)] by (simp_all add: from_key_def)
  have e: "(case t_prefix t of None \<Rightarrow> pfx | Some p \<Rightarrow> p @ pfx) = ?p" by (simp split: option.splits)
  have "PrefixIterator K t pfx = Some (Inr \<lparr>pi_prefix = ?key, pi_it = it\<rparr>)"
    unfolding PrefixIterator_def e using t'(1) assms(2) x(1) by (simp add: newPrefixIterator_def)
  then have "prefix_leaves K t pfx = Some (Inr (leaves ?todo))"
    using drain_prefix_itr [of K "\<lparr>pi_prefix = ?key, pi_it = it\<rparr>", OF _ g(3), of "[]"] x(5)
      while_prefix_from_key [OF root_todo(2) [OF x(2,3)], of ?key]
    by (simp add: prefix_leaves_def)
  moreover have "set (leaves ?todo) = {(k, v). m k = Some v \<and> prefix ?p k}"
    using leaves_iff [OF g(1)] root_todo(3) [OF x(2,3)] x(4) by (auto simp: prefix_hex)
  ultimately show ?thesis using leaves_sorted [OF g(1,2)] by blast
qed

text \<open>
  C26: The prefix iterator of a trie ends; it yields exactly the entries whose key starts with the
  prefix of the trie followed by the prefix asked for, each once, in the order of the hex keys.
\<close>

theorem prefix_iteration:
  assumes "trie_ok K t m" "fst (trie_Hash K t) \<noteq> BytesToHash (K [])"
  shows "\<exists>l. prefix_leaves K t pfx = Some (Inr l)
    \<and> sorted_wrt path_lt (map (keybytesToHex \<circ> fst) l)
    \<and> set l = {(k, v). m k = Some v \<and> prefix (case_option [] id (t_prefix t) @ pfx) k}"
  using assms by (rule prefix_leaves_ok)

theorem prefix_iteration_witness:
  "\<exists>l. prefix_leaves pad_hash leaf_trie [1] = Some (Inr l) \<and> set l = {([1], [2])}"
proof -
  have "{(k, v). ([[1] \<mapsto> [2]] :: bytes \<rightharpoonup> bytes) k = Some v \<and>
      prefix (case_option [] id (t_prefix leaf_trie) @ [1]) k} = {([1], [2])}"
    by (auto simp: leaf_trie_def entry_trie_def empty_trie_def split: if_splits)
  then show ?thesis
    using prefix_iteration [OF leaf_trie_ok leaf_trie_hash, of "[1]"] by auto
qed

end
