(* ===== verification/Dpos_Context.thy ===== *)
theory Dpos_Context
  imports Block_Types Trie_Iteration
begin

text \<open>
  The DPoS state of \<open>core/types/dpos_context.go\<close>: five tries (elected validators, votes by
  candidate, vote of each delegator, candidates, blocks minted per epoch) over one node database.

  An operation returns the context as it leaves it, also after an error, and the error if any.
  The loops over an iterator are modelled by the list of entries the iterator yields: the
  iterators the code uses here hold the nodes that were reachable at their creation, and the
  loops never change the trie before the iterator has left its root.
\<close>

section \<open>State\<close>

record dposContext =
  dc_epoch :: trie
  dc_delegate :: trie
  dc_vote :: trie
  dc_candidate :: trie
  dc_mintCnt :: trie
  dc_db :: "database option"

datatype dposError =
    TrieErr trieError
  | IterPanic | IterDiverges
  | InvalidCandidateToDelegate | InvalidCandidateToUndelegate | MismatchCandidateToUndelegate
  | DecodeValidatorsErr decErr | EncodeValidatorsErr string
  | NoCandidates | TooFewCandidates | NoValidatorToKickout | GetValidatorErr dposError
  | FailedToLookupValidator | ErrInvalidMintBlockTime | ErrUnknownBlock | ErrMissingVanity
  | ErrMissingSignature | ErrInvalidMixDigest | ErrInvalidUncleHash | ErrInvalidDifficulty
  | ErrFutureBlock | ErrUnknownAncestor | ErrInvalidTimestamp | ErrForkHash | ErrWaitForPrevBlock
  | ErrMintFutureBlock | ErrMismatchSignerAndValidator | ErrInvalidBlockValidator
  | ErrNilBlockHeader | ErrUncles | ErrDbGet | ErrDbPut | ErrSign | ErrRecoverKey
  | ElectErr dposError | DposPanic

text \<open>The key prefixes, in ASCII.\<close>

definition epochPrefix :: bytes where
  "epochPrefix = [0x65, 0x70, 0x6F, 0x63, 0x68, 0x2D]"

definition delegatePrefix :: bytes where
  "delegatePrefix = [0x64, 0x65, 0x6C, 0x65, 0x67, 0x61, 0x74, 0x65, 0x2D]"

definition votePrefix :: bytes where
  "votePrefix = [0x76, 0x6F, 0x74, 0x65, 0x2D]"

definition candidatePrefix :: bytes where
  "candidatePrefix = [0x63, 0x61, 0x6E, 0x64, 0x69, 0x64, 0x61, 0x74, 0x65, 0x2D]"

definition mintCntPrefix :: bytes where
  "mintCntPrefix = [0x6D, 0x69, 0x6E, 0x74, 0x43, 0x6E, 0x74, 0x2D]"

definition NewEpochTrie :: "hash \<Rightarrow> nodeDb \<Rightarrow> trieError + trie" where
  "NewEpochTrie root db = NewTrieWithPrefix root epochPrefix db"

definition NewDelegateTrie :: "hash \<Rightarrow> nodeDb \<Rightarrow> trieError + trie" where
  "NewDelegateTrie root db = NewTrieWithPrefix root delegatePrefix db"

definition NewVoteTrie :: "hash \<Rightarrow> nodeDb \<Rightarrow> trieError + trie" where
  "NewVoteTrie root db = NewTrieWithPrefix root votePrefix db"

definition NewCandidateTrie :: "hash \<Rightarrow> nodeDb \<Rightarrow> trieError + trie" where
  "NewCandidateTrie root db = NewTrieWithPrefix root candidatePrefix db"

definition NewMintCntTrie :: "hash \<Rightarrow> nodeDb \<Rightarrow> trieError + trie" where
  "NewMintCntTrie root db = NewTrieWithPrefix root mintCntPrefix db"

definition NewDposContextFromProto :: "database \<Rightarrow> dposProto \<Rightarrow> trieError + dposContext" where
  "NewDposContextFromProto db p =
     (let ndb = Database_node db in
      case NewEpochTrie (px_EpochHash p) ndb of Inl e \<Rightarrow> Inl e | Inr epochTrie \<Rightarrow>
      (case NewDelegateTrie (px_DelegateHash p) ndb of Inl e \<Rightarrow> Inl e | Inr delegateTrie \<Rightarrow>
      (case NewVoteTrie (px_VoteHash p) ndb of Inl e \<Rightarrow> Inl e | Inr voteTrie \<Rightarrow>
      (case NewCandidateTrie (px_CandidateHash p) ndb of Inl e \<Rightarrow> Inl e | Inr candidateTrie \<Rightarrow>
      (case NewMintCntTrie (px_MintCntHash p) ndb of Inl e \<Rightarrow> Inl e | Inr mintCntTrie \<Rightarrow>
         Inr \<lparr>dc_epoch = epochTrie, dc_delegate = delegateTrie, dc_vote = voteTrie,
              dc_candidate = candidateTrie, dc_mintCnt = mintCntTrie, dc_db = Some db\<rparr>)))))"

definition NewDposContext :: "database \<Rightarrow> trieError + dposContext" where
  "NewDposContext db = NewDposContextFromProto db zeroProto"

text \<open>\<open>Copy\<close> does not copy the database reference.\<close>

definition dc_Copy :: "dposContext \<Rightarrow> dposContext" where
  "dc_Copy d = \<lparr>dc_epoch = dc_epoch d, dc_delegate = dc_delegate d, dc_vote = dc_vote d,
     dc_candidate = dc_candidate d, dc_mintCnt = dc_mintCnt d, dc_db = None\<rparr>"

definition dc_Snapshot :: "dposContext \<Rightarrow> dposContext" where
  "dc_Snapshot d = dc_Copy d"

definition RevertToSnapShot :: "dposContext \<Rightarrow> dposContext \<Rightarrow> dposContext" where
  "RevertToSnapShot d snapshot =
     d\<lparr>dc_epoch := dc_epoch snapshot, dc_delegate := dc_delegate snapshot,
       dc_candidate := dc_candidate snapshot, dc_vote := dc_vote snapshot,
       dc_mintCnt := dc_mintCnt snapshot\<rparr>"

section \<open>Roots\<close>

text \<open>Hashing a trie caches the hashes of its nodes.\<close>

definition dc_hashed :: "keccak \<Rightarrow> dposContext \<Rightarrow> dposContext" where
  "dc_hashed K d =
     d\<lparr>dc_epoch := snd (trie_Hash K (dc_epoch d)), dc_delegate := snd (trie_Hash K (dc_delegate d)),
       dc_candidate := snd (trie_Hash K (dc_candidate d)), dc_vote := snd (trie_Hash K (dc_vote d)),
       dc_mintCnt := snd (trie_Hash K (dc_mintCnt d))\<rparr>"

definition dc_Root :: "keccak \<Rightarrow> dposContext \<Rightarrow> hash \<times> dposContext" where
  "dc_Root K d =
     (K (enc_hash (fst (trie_Hash K (dc_epoch d))) @ enc_hash (fst (trie_Hash K (dc_delegate d))) @
         enc_hash (fst (trie_Hash K (dc_candidate d))) @ enc_hash (fst (trie_Hash K (dc_vote d))) @
         enc_hash (fst (trie_Hash K (dc_mintCnt d)))),
      dc_hashed K d)"

definition dc_ToProto :: "keccak \<Rightarrow> dposContext \<Rightarrow> dposProto \<times> dposContext" where
  "dc_ToProto K d =
     (\<lparr>px_EpochHash = fst (trie_Hash K (dc_epoch d)), px_DelegateHash = fst (trie_Hash K (dc_delegate d)),
       px_CandidateHash = fst (trie_Hash K (dc_candidate d)), px_VoteHash = fst (trie_Hash K (dc_vote d)),
       px_MintCntHash = fst (trie_Hash K (dc_mintCnt d))\<rparr>,
      dc_hashed K d)"

section \<open>Candidates and votes\<close>

definition is_missing :: "trieError \<Rightarrow> bool" where
  "is_missing e = (case e of MissingNodeError h p \<Rightarrow> True | _ \<Rightarrow> False)"

definition BecomeCandidate :: "dposContext \<Rightarrow> address \<Rightarrow> dposContext \<times> dposError option" where
  "BecomeCandidate d candidate =
     (case TryUpdate (dc_candidate d) candidate candidate of
        Inl e \<Rightarrow> (d, Some (TrieErr e))
      | Inr t \<Rightarrow> (d\<lparr>dc_candidate := t\<rparr>, None))"

definition opt_bytes :: "bytes option \<Rightarrow> bytes" where
  "opt_bytes v = (case v of None \<Rightarrow> [] | Some b \<Rightarrow> b)"

text \<open>The body of the loop over the delegators of a candidate, and the loop.\<close>

definition kickout_vote :: "address \<Rightarrow> bytes \<Rightarrow> dposContext \<Rightarrow> dposContext \<times> dposError option" where
  "kickout_vote candidate delegator d =
     (case TryGet (dc_vote d) delegator of
        Inl e \<Rightarrow> if is_missing e then (d, None) else (d, Some (TrieErr e))
      | Inr (v, t) \<Rightarrow>
          (let d = d\<lparr>dc_vote := t\<rparr> in
           if opt_bytes v = candidate then
             (case TryDelete (dc_vote d) delegator of
                Inl e \<Rightarrow> if is_missing e then (d, None) else (d, Some (TrieErr e))
              | Inr t \<Rightarrow> (d\<lparr>dc_vote := t\<rparr>, None))
           else (d, None)))"

fun kickout_loop :: "address \<Rightarrow> bytes list \<Rightarrow> dposContext \<Rightarrow> dposContext \<times> dposError option" where
  "kickout_loop candidate [] d = (d, None)"
| "kickout_loop candidate (delegator # rest) d =
     (case TryDelete (dc_delegate d) (candidate @ delegator) of
        Inl e \<Rightarrow>
          if is_missing e then
            (case kickout_vote candidate delegator d of
               (d, None) \<Rightarrow> kickout_loop candidate rest d
             | (d, Some e) \<Rightarrow> (d, Some e))
          else (d, Some (TrieErr e))
      | Inr t \<Rightarrow>
          (case kickout_vote candidate delegator (d\<lparr>dc_delegate := t\<rparr>) of
             (d, None) \<Rightarrow> kickout_loop candidate rest d
           | (d, Some e) \<Rightarrow> (d, Some e)))"

definition kickout_delegates :: "keccak \<Rightarrow> address \<Rightarrow> dposContext \<Rightarrow> dposContext \<times> dposError option" where
  "kickout_delegates K candidate d =
     (let d' = d\<lparr>dc_delegate := snd (trie_Hash K (dc_delegate d))\<rparr> in
      case prefix_leaves K (dc_delegate d) candidate of
        None \<Rightarrow> (d', Some IterDiverges)
      | Some (Inl u) \<Rightarrow> (d', Some IterPanic)
      | Some (Inr kvs) \<Rightarrow> kickout_loop candidate (map snd kvs) d')"

definition KickoutCandidate :: "keccak \<Rightarrow> dposContext \<Rightarrow> address \<Rightarrow> dposContext \<times> dposError option" where
  "KickoutCandidate K d candidate =
     (case TryDelete (dc_candidate d) candidate of
        Inl e \<Rightarrow> if is_missing e then kickout_delegates K candidate d else (d, Some (TrieErr e))
      | Inr t \<Rightarrow> kickout_delegates K candidate (d\<lparr>dc_candidate := t\<rparr>))"

text \<open>What \<open>Delegate\<close> does once the vote of the delegator has been read.\<close>

definition delegate_to :: "address \<Rightarrow> address \<Rightarrow> bytes option \<Rightarrow> dposContext \<Rightarrow> dposContext \<times> dposError option" where
  "delegate_to delegator candidate oldCandidate d =
     (let cleared = (case oldCandidate of
                       None \<Rightarrow> Inr d
                     | Some old \<Rightarrow>
                         (case Delete (dc_delegate d) (old @ delegator) of
                            Inl e \<Rightarrow> Inl e | Inr t \<Rightarrow> Inr (d\<lparr>dc_delegate := t\<rparr>)))
      in case cleared of
           Inl e \<Rightarrow> (d, Some (TrieErr e))
         | Inr d \<Rightarrow>
             (case TryUpdate (dc_delegate d) (candidate @ delegator) delegator of
                Inl e \<Rightarrow> (d, Some (TrieErr e))
              | Inr t \<Rightarrow>
                  (let d = d\<lparr>dc_delegate := t\<rparr> in
                   case TryUpdate (dc_vote d) delegator candidate of
                     Inl e \<Rightarrow> (d, Some (TrieErr e))
                   | Inr t \<Rightarrow> (d\<lparr>dc_vote := t\<rparr>, None))))"

definition Delegate :: "dposContext \<Rightarrow> address \<Rightarrow> address \<Rightarrow> dposContext \<times> dposError option" where
  "Delegate d delegator candidate =
     (case TryGet (dc_candidate d) candidate of
        Inl e \<Rightarrow> (d, Some (TrieErr e))
      | Inr (candidateInTrie, t) \<Rightarrow>
          (let d = d\<lparr>dc_candidate := t\<rparr> in
           if candidateInTrie = None then (d, Some InvalidCandidateToDelegate)
           else
             (case TryGet (dc_vote d) delegator of
                Inl e \<Rightarrow> if is_missing e then delegate_to delegator candidate None d else (d, Some (TrieErr e))
              | Inr (oldCandidate, t) \<Rightarrow> delegate_to delegator candidate oldCandidate (d\<lparr>dc_vote := t\<rparr>))))"

definition UnDelegate :: "dposContext \<Rightarrow> address \<Rightarrow> address \<Rightarrow> dposContext \<times> dposError option" where
  "UnDelegate d delegator candidate =
     (case TryGet (dc_candidate d) candidate of
        Inl e \<Rightarrow> (d, Some (TrieErr e))
      | Inr (candidateInTrie, t) \<Rightarrow>
          (let d = d\<lparr>dc_candidate := t\<rparr> in
           if candidateInTrie = None then (d, Some InvalidCandidateToUndelegate)
           else
             (case TryGet (dc_vote d) delegator of
                Inl e \<Rightarrow> (d, Some (TrieErr e))
              | Inr (oldCandidate, t) \<Rightarrow>
                  (let d = d\<lparr>dc_vote := t\<rparr> in
                   if candidate \<noteq> opt_bytes oldCandidate then (d, Some MismatchCandidateToUndelegate)
                   else
                     (case TryDelete (dc_delegate d) (candidate @ delegator) of
                        Inl e \<Rightarrow> (d, Some (TrieErr e))
                      | Inr t \<Rightarrow>
                          (let d = d\<lparr>dc_delegate := t\<rparr> in
                           case TryDelete (dc_vote d) delegator of
                             Inl e \<Rightarrow> (d, Some (TrieErr e))
                           | Inr t \<Rightarrow> (d\<lparr>dc_vote := t\<rparr>, None)))))))"

section \<open>Validators\<close>

definition validator_key :: bytes where
  "validator_key = [0x76, 0x61, 0x6C, 0x69, 0x64, 0x61, 0x74, 0x6F, 0x72]"

definition addresses_type :: rtype where
  "addresses_type = TSlice (TByteArray 20)"

definition GetValidators :: "dposContext \<Rightarrow> (dposError + address list) \<times> dposContext" where
  "GetValidators d =
     (case Get (dc_epoch d) validator_key of
        Inl e \<Rightarrow> (Inl (TrieErr e), d)
      | Inr (validatorsRLP, t) \<Rightarrow>
          (let d = d\<lparr>dc_epoch := t\<rparr>; b = opt_bytes validatorsRLP in
           case DecodeBytes (Suc (length b)) addresses_type b of
             Inl e \<Rightarrow> (Inl (DecodeValidatorsErr e), d)
           | Inr v \<Rightarrow> (Inr (map un_bytes (un_slice v)), d)))"

definition SetValidators :: "dposContext \<Rightarrow> address list \<Rightarrow> dposContext \<times> dposError option" where
  "SetValidators d validators =
     (case encode_typed addresses_type (VSlice (map VByteArray validators)) of
        Inl e \<Rightarrow> (d, Some (EncodeValidatorsErr e))
      | Inr validatorsRLP \<Rightarrow>
          (case Update (dc_epoch d) validator_key validatorsRLP of
             Inl e \<Rightarrow> (d, Some (TrieErr e))
           | Inr t \<Rightarrow> (d\<lparr>dc_epoch := t\<rparr>, None)))"

definition SetEpoch :: "dposContext \<Rightarrow> trie \<Rightarrow> dposContext" where
  "SetEpoch d epoch = d\<lparr>dc_epoch := epoch\<rparr>"

definition SetDelegate :: "dposContext \<Rightarrow> trie \<Rightarrow> dposContext" where
  "SetDelegate d t = d\<lparr>dc_delegate := t\<rparr>"

definition SetVote :: "dposContext \<Rightarrow> trie \<Rightarrow> dposContext" where
  "SetVote d t = d\<lparr>dc_vote := t\<rparr>"

definition SetCandidate :: "dposContext \<Rightarrow> trie \<Rightarrow> dposContext" where
  "SetCandidate d t = d\<lparr>dc_candidate := t\<rparr>"

definition SetMintCnt :: "dposContext \<Rightarrow> trie \<Rightarrow> dposContext" where
  "SetMintCnt d t = d\<lparr>dc_mintCnt := t\<rparr>"

section \<open>Tables\<close>

lemma puthead_nonempty: "puthead a b sz \<noteq> []"
  by (simp add: puthead_def Let_def)

text \<open>A trie with a prefix that stands for a map; every operation keeps the prefix.\<close>

definition ptrie :: "keccak \<Rightarrow> bytes \<Rightarrow> trie \<Rightarrow> (bytes \<rightharpoonup> bytes) \<Rightarrow> bool" where
  "ptrie K pfx t m \<longleftrightarrow> trie_ok K t m \<and> t_prefix t = Some pfx"

interpretation dpos_kv: kv_store "ptrie K pfx" TryGet TryUpdate TryDelete "\<lambda>v. v \<noteq> []" for K pfx
proof
  show "m = m'" if "ptrie K pfx s m" "ptrie K pfx s m'" for s m m'
    using that merkle_kv.rep_functional unfolding ptrie_def by blast
  show "v \<noteq> []" if "ptrie K pfx s m" "m k = Some v" for s m k v
    using that merkle_kv.rep_storable unfolding ptrie_def by blast
  show "\<exists>s'. TryGet s k = Inr (m k, s') \<and> ptrie K pfx s' m" if "ptrie K pfx s m" for s m k
    using that TryGet_ok [of K s m k] unfolding ptrie_def by auto
  show "\<exists>s'. TryUpdate s k v = Inr s' \<and> ptrie K pfx s' (m(k \<mapsto> v))" if "ptrie K pfx s m" "v \<noteq> []" for s m k v
    using that TryUpdate_ok [of K s m k v] unfolding ptrie_def by auto
  show "\<exists>s'. TryDelete s k = Inr s' \<and> ptrie K pfx s' (m(k := None))" if "ptrie K pfx s m" for s m k
    using that TryUpdate_ok [of K s m k "[]"] unfolding ptrie_def by (auto simp: TryDelete_eq)
qed

lemma ptrie_Hash: "ptrie K pfx t m \<Longrightarrow> ptrie K pfx (snd (trie_Hash K t)) m"
  using trie_Hash_rep [of K t m] unfolding ptrie_def by auto

lemma ptrie_Delete: "ptrie K pfx t m \<Longrightarrow> \<exists>t'. Delete t k = Inr t' \<and> ptrie K pfx t' (m(k := None))"
  using dpos_kv.del_rep [of K pfx t m k] by (auto simp: Delete_def)

lemma ptrie_Update: "ptrie K pfx t m \<Longrightarrow> v \<noteq> [] \<Longrightarrow> \<exists>t'. Update t k v = Inr t' \<and> ptrie K pfx t' (m(k \<mapsto> v))"
  using dpos_kv.put_rep [of K pfx t m v k] by (auto simp: Update_def)

lemma ptrie_Get: "ptrie K pfx t m \<Longrightarrow> \<exists>t'. Get t k = Inr (m k, t') \<and> ptrie K pfx t' m"
  using dpos_kv.get_rep [of K pfx t m k] by (auto simp: Get_def)

lemma write_value_lheads:
  "length (eb_lheads w) \<le> length (eb_lheads (write_value v w))"
  "length (eb_lheads w) \<le> length (eb_lheads (write_values vs w))"
proof (induction v w and vs w rule: write_value_write_values.induct)
  case (2 vs w)
  then show ?case by (auto simp: eb_list_def listEnd_def Let_def split: prod.splits intro: Suc_leD)
qed (auto simp: encodeString_def encodeStringHeader_def eb_write_def Let_def)

lemma EncodeToBytes_list_nonempty: "EncodeToBytes (RList vs) \<noteq> []"
proof -
  have "1 \<le> length (eb_lheads (write_value (RList vs) eb_reset))"
    using write_value_lheads(2) [of "snd (eb_list eb_reset)" vs] by (auto simp: eb_list_def listEnd_def eb_reset_def Let_def)
  then show ?thesis
    by (cases "eb_lheads (write_value (RList vs) eb_reset)")
      (auto simp: EncodeToBytes_def toBytes_def lh_encode_def puthead_nonempty)
qed

text \<open>
  No string but the empty one has its hash, and the root of the empty trie differs from it: the
  iterators take a trie with that root hash for one that was never written.
\<close>

definition empty_free :: "keccak \<Rightarrow> bool" where
  "empty_free K \<longleftrightarrow> (\<forall>b. b \<noteq> [] \<longrightarrow> BytesToHash (K b) \<noteq> BytesToHash (K [])) \<and> BytesToHash emptyRoot \<noteq> BytesToHash (K [])"

lemma ptrie_root:
  assumes "empty_free K" "ptrie K pfx t m"
  shows "fst (trie_Hash K t) \<noteq> BytesToHash (K [])"
proof -
  obtain x where x: "expands (t_db t) (t_root t) x" "canon_root x" "hgood K (t_db t) False (t_root t)"
    using assms(2) by (auto simp: ptrie_def trie_ok_def trie_rep_def)
  have "\<exists>vs. xenc K x = RList vs" if "x \<noteq> XNil"
    using x(2) that by (cases x) (auto simp: canon_root_def xenc.simps)
  then have "\<exists>b. b \<noteq> [] \<and> xhash K x = K b" if "x \<noteq> XNil"
    using that EncodeToBytes_list_nonempty by (metis xhash_def)
  then show ?thesis
    using trie_Hash_ok [OF x] assms(1) by (cases "x = XNil") (auto simp: empty_free_def)
qed

section \<open>The vote book\<close>

text \<open>
  What the candidate, vote and delegate tries stand for: the registered candidates and the vote
  of each delegator. The delegate trie is an index of the votes by candidate.
\<close>

record voteBook =
  vb_candidates :: "address set"
  vb_votes :: "address \<rightharpoonup> address"

definition cand_map :: "address set \<Rightarrow> bytes \<rightharpoonup> bytes" where
  "cand_map C k = (if k \<in> C then Some k else None)"

definition deleg_map :: "(address \<rightharpoonup> address) \<Rightarrow> bytes \<rightharpoonup> bytes" where
  "deleg_map V k = (if length k = 40 \<and> V (drop 20 k) = Some (take 20 k) then Some (drop 20 k) else None)"

definition book_wf :: "voteBook \<Rightarrow> bool" where
  "book_wf b \<longleftrightarrow> (\<forall>c \<in> vb_candidates b. is_addr c) \<and> (\<forall>d c. vb_votes b d = Some c \<longrightarrow> is_addr d \<and> is_addr c)"

definition dpos_rep :: "keccak \<Rightarrow> dposContext \<Rightarrow> voteBook \<Rightarrow> bool" where
  "dpos_rep K d b \<longleftrightarrow> book_wf b
     \<and> ptrie K candidatePrefix (dc_candidate d) (cand_map (vb_candidates b))
     \<and> ptrie K votePrefix (dc_vote d) (vb_votes b)
     \<and> ptrie K delegatePrefix (dc_delegate d) (deleg_map (vb_votes b))"

definition book_become :: "address \<Rightarrow> voteBook \<Rightarrow> voteBook \<times> dposError option" where
  "book_become c b = (b\<lparr>vb_candidates := insert c (vb_candidates b)\<rparr>, None)"

definition book_delegate :: "address \<Rightarrow> address \<Rightarrow> voteBook \<Rightarrow> voteBook \<times> dposError option" where
  "book_delegate d c b =
     (if c \<notin> vb_candidates b then (b, Some InvalidCandidateToDelegate)
      else (b\<lparr>vb_votes := (vb_votes b)(d \<mapsto> c)\<rparr>, None))"

definition book_undelegate :: "address \<Rightarrow> address \<Rightarrow> voteBook \<Rightarrow> voteBook \<times> dposError option" where
  "book_undelegate d c b =
     (if c \<notin> vb_candidates b then (b, Some InvalidCandidateToUndelegate)
      else if vb_votes b d \<noteq> Some c then (b, Some MismatchCandidateToUndelegate)
      else (b\<lparr>vb_votes := (vb_votes b)(d := None)\<rparr>, None))"

lemma is_addr_not_Nil: "is_addr a \<Longrightarrow> a \<noteq> []"
  by (auto simp: is_addr_def AddressLength_def)

lemma is_addr_length: "is_addr a \<longleftrightarrow> length a = 20"
  by (simp add: is_addr_def AddressLength_def)

lemma cand_map_insert: "cand_map (insert c C) = (cand_map C)(c \<mapsto> c)"
  by (auto simp: cand_map_def fun_eq_iff)

lemma cand_map_remove: "cand_map (C - {c}) = (cand_map C)(c := None)"
  by (auto simp: cand_map_def fun_eq_iff)

lemma split40: "length k = 40 \<Longrightarrow> k = c @ d \<longleftrightarrow> take 20 k = c \<and> drop 20 k = d" if "length c = 20"
  using that by (metis append_eq_conv_conj append_take_drop_id)

lemma deleg_map_unset:
  assumes "V d = Some c" "length c = 20" "length d = 20"
  shows "deleg_map (V(d := None)) = (deleg_map V)(c @ d := None)"
proof
  fix k
  show "deleg_map (V(d := None)) k = ((deleg_map V)(c @ d := None)) k"
    using split40 [of c k d] assms by (auto simp: deleg_map_def)
qed

lemma deleg_map_set:
  assumes "V d = None" "length c = 20" "length d = 20"
  shows "deleg_map (V(d \<mapsto> c)) = (deleg_map V)(c @ d \<mapsto> d)"
proof
  fix k
  show "deleg_map (V(d \<mapsto> c)) k = ((deleg_map V)(c @ d \<mapsto> d)) k"
    using split40 [of c k d] assms by (auto simp: deleg_map_def)
qed

lemma deleg_map_vote:
  assumes "V d = Some old" "length old = 20" "length c = 20" "length d = 20"
  shows "deleg_map (V(d \<mapsto> c)) = ((deleg_map V)(old @ d := None))(c @ d \<mapsto> d)"
  using deleg_map_unset [of V d old] deleg_map_set [of "V(d := None)" d c] assms by simp

lemma BecomeCandidate_rep:
  assumes "dpos_rep K x b" "is_addr c"
  shows "\<exists>x'. BecomeCandidate x c = (x', snd (book_become c b)) \<and> dpos_rep K x' (fst (book_become c b))"
proof -
  obtain t where "TryUpdate (dc_candidate x) c c = Inr t"
      "ptrie K candidatePrefix t ((cand_map (vb_candidates b))(c \<mapsto> c))"
    using dpos_kv.put_rep [of K candidatePrefix "dc_candidate x" _ c c] assms is_addr_not_Nil
    unfolding dpos_rep_def by blast
  then show ?thesis
    using assms by (auto simp: BecomeCandidate_def book_become_def dpos_rep_def book_wf_def cand_map_insert)
qed

lemma delegate_to_rep:
  assumes "dpos_rep K x b" "is_addr c" "is_addr d"
  shows "\<exists>x'. delegate_to d c (vb_votes b d) x = (x', None) \<and> dpos_rep K x' (b\<lparr>vb_votes := (vb_votes b)(d \<mapsto> c)\<rparr>)"
proof -
  let ?V = "vb_votes b"
  have r: "ptrie K votePrefix (dc_vote x) ?V" "ptrie K delegatePrefix (dc_delegate x) (deleg_map ?V)" "book_wf b"
    using assms(1) by (simp_all add: dpos_rep_def)
  have "\<exists>x1. (case ?V d of None \<Rightarrow> Inr x | Some old \<Rightarrow>
        (case Delete (dc_delegate x) (old @ d) of Inl e \<Rightarrow> Inl e | Inr t \<Rightarrow> Inr (x\<lparr>dc_delegate := t\<rparr>))) = (Inr x1 :: trieError + dposContext)
      \<and> ptrie K delegatePrefix (dc_delegate x1) (case ?V d of None \<Rightarrow> deleg_map ?V | Some old \<Rightarrow> (deleg_map ?V)(old @ d := None))
      \<and> dc_vote x1 = dc_vote x \<and> dc_candidate x1 = dc_candidate x"
  proof (cases "?V d")
    case None
    then show ?thesis using r(2) by simp
  next
    case (Some old)
    then show ?thesis using ptrie_Delete [OF r(2), of "old @ d"] by auto
  qed
  then obtain x1 where x1: "(case ?V d of None \<Rightarrow> Inr x | Some old \<Rightarrow>
        (case Delete (dc_delegate x) (old @ d) of Inl e \<Rightarrow> Inl e | Inr t \<Rightarrow> Inr (x\<lparr>dc_delegate := t\<rparr>))) = (Inr x1 :: trieError + dposContext)"
      "ptrie K delegatePrefix (dc_delegate x1) (case ?V d of None \<Rightarrow> deleg_map ?V | Some old \<Rightarrow> (deleg_map ?V)(old @ d := None))"
      "dc_vote x1 = dc_vote x" "dc_candidate x1 = dc_candidate x"
    by blast
  obtain t where t: "TryUpdate (dc_delegate x1) (c @ d) d = Inr t" "ptrie K delegatePrefix t (deleg_map (?V(d \<mapsto> c)))"
  proof -
    have "(case ?V d of None \<Rightarrow> deleg_map ?V | Some old \<Rightarrow> (deleg_map ?V)(old @ d := None))(c @ d \<mapsto> d) = deleg_map (?V(d \<mapsto> c))"
      using deleg_map_set [of ?V d c] deleg_map_vote [of ?V d _ c] assms(2,3) r(3)
      by (auto simp: is_addr_length book_wf_def split: option.splits)
    then show ?thesis
      using that dpos_kv.put_rep [OF x1(2), of d "c @ d"] is_addr_not_Nil [OF assms(3)] by auto
  qed
  obtain u where u: "TryUpdate (dc_vote x) d c = Inr u" "ptrie K votePrefix u (?V(d \<mapsto> c))"
    using dpos_kv.put_rep [OF r(1), of c d] is_addr_not_Nil [OF assms(2)] by auto
  have "delegate_to d c (?V d) x = (x1\<lparr>dc_delegate := t, dc_vote := u\<rparr>, None)"
    unfolding delegate_to_def x1(1) using t(1) u(1) x1(3) by simp
  then show ?thesis
    using t(2) u(2) x1(4) assms r(3) by (auto simp: dpos_rep_def book_wf_def)
qed

lemma Delegate_rep:
  assumes "dpos_rep K x b" "is_addr c" "is_addr d"
  shows "\<exists>x'. Delegate x d c = (x', snd (book_delegate d c b)) \<and> dpos_rep K x' (fst (book_delegate d c b))"
proof -
  obtain t where t: "TryGet (dc_candidate x) c = Inr (cand_map (vb_candidates b) c, t)"
      "ptrie K candidatePrefix t (cand_map (vb_candidates b))"
    using dpos_kv.get_rep assms(1) unfolding dpos_rep_def by blast
  let ?x = "x\<lparr>dc_candidate := t\<rparr>"
  have x1: "dpos_rep K ?x b" using assms(1) t(2) by (simp add: dpos_rep_def)
  obtain u where u: "TryGet (dc_vote x) d = Inr (vb_votes b d, u)" "ptrie K votePrefix u (vb_votes b)"
    using dpos_kv.get_rep assms(1) unfolding dpos_rep_def by blast
  let ?x2 = "?x\<lparr>dc_vote := u\<rparr>"
  have x2: "dpos_rep K ?x2 b" using x1 u(2) by (simp add: dpos_rep_def)
  show ?thesis
  proof (cases "c \<in> vb_candidates b")
    case True
    then have "Delegate x d c = delegate_to d c (vb_votes b d) ?x2"
      using t(1) u(1) by (simp add: Delegate_def cand_map_def)
    then show ?thesis using delegate_to_rep [OF x2 assms(2,3)] True by (simp add: book_delegate_def)
  next
    case False
    then have "Delegate x d c = (?x, Some InvalidCandidateToDelegate)"
      using t(1) by (simp add: Delegate_def cand_map_def)
    then show ?thesis using x1 False by (simp add: book_delegate_def)
  qed
qed


lemma UnDelegate_rep:
  assumes "dpos_rep K x b" "is_addr c" "is_addr d"
  shows "\<exists>x'. UnDelegate x d c = (x', snd (book_undelegate d c b)) \<and> dpos_rep K x' (fst (book_undelegate d c b))"
proof -
  obtain t where t: "TryGet (dc_candidate x) c = Inr (cand_map (vb_candidates b) c, t)"
      "ptrie K candidatePrefix t (cand_map (vb_candidates b))"
    using dpos_kv.get_rep assms(1) unfolding dpos_rep_def by blast
  let ?x = "x\<lparr>dc_candidate := t\<rparr>"
  have x1: "dpos_rep K ?x b" using assms(1) t(2) by (simp add: dpos_rep_def)
  obtain u where u: "TryGet (dc_vote x) d = Inr (vb_votes b d, u)" "ptrie K votePrefix u (vb_votes b)"
    using dpos_kv.get_rep assms(1) unfolding dpos_rep_def by blast
  let ?x2 = "?x\<lparr>dc_vote := u\<rparr>"
  have x2: "dpos_rep K ?x2 b" using x1 u(2) by (simp add: dpos_rep_def)
  obtain v where v: "TryDelete (dc_delegate x) (c @ d) = Inr v" "ptrie K delegatePrefix v ((deleg_map (vb_votes b))(c @ d := None))"
    using dpos_kv.del_rep assms(1) unfolding dpos_rep_def by blast
  obtain w where w: "TryDelete u d = Inr w" "ptrie K votePrefix w ((vb_votes b)(d := None))"
    using dpos_kv.del_rep [OF u(2)] by blast
  have eq: "c \<noteq> opt_bytes (vb_votes b d) \<longleftrightarrow> vb_votes b d \<noteq> Some c"
    using is_addr_not_Nil [OF assms(2)] by (auto simp: opt_bytes_def split: option.splits)
  show ?thesis
  proof (cases "c \<in> vb_candidates b \<and> vb_votes b d = Some c")
    case True
    then have "UnDelegate x d c = (?x2\<lparr>dc_delegate := v, dc_vote := w\<rparr>, None)"
      using t(1) u(1) v(1) w(1) by (simp add: UnDelegate_def cand_map_def opt_bytes_def)
    moreover have "dpos_rep K (?x2\<lparr>dc_delegate := v, dc_vote := w\<rparr>) (b\<lparr>vb_votes := (vb_votes b)(d := None)\<rparr>)"
      using True x2 v(2) w(2) deleg_map_unset [of "vb_votes b" d c] assms(2,3)
      by (auto simp: dpos_rep_def is_addr_length book_wf_def)
    ultimately show ?thesis using True by (simp add: book_undelegate_def)
  next
    case False
    then show ?thesis
      using t(1) u(1) eq x1 x2
      by (cases "c \<in> vb_candidates b") (auto simp: UnDelegate_def cand_map_def book_undelegate_def Let_def)
  qed
qed

text \<open>Sequences of registrations and votes.\<close>

datatype voteOp = OBecome address | ODelegate address address | OUnDelegate address address

fun vote_step :: "voteOp \<Rightarrow> dposContext \<Rightarrow> dposContext \<times> dposError option" where
  "vote_step (OBecome c) x = BecomeCandidate x c"
| "vote_step (ODelegate d c) x = Delegate x d c"
| "vote_step (OUnDelegate d c) x = UnDelegate x d c"

fun book_step :: "voteOp \<Rightarrow> voteBook \<Rightarrow> voteBook \<times> dposError option" where
  "book_step (OBecome c) b = book_become c b"
| "book_step (ODelegate d c) b = book_delegate d c b"
| "book_step (OUnDelegate d c) b = book_undelegate d c b"

fun vote_addrs :: "voteOp \<Rightarrow> address list" where
  "vote_addrs (OBecome c) = [c]"
| "vote_addrs (ODelegate d c) = [d, c]"
| "vote_addrs (OUnDelegate d c) = [d, c]"

fun run_votes :: "('s \<Rightarrow> 's \<times> dposError option) list \<Rightarrow> 's \<Rightarrow> 's \<times> dposError option list" where
  "run_votes [] s = (s, [])"
| "run_votes (f # fs) s = (case f s of (s, e) \<Rightarrow> (case run_votes fs s of (s, es) \<Rightarrow> (s, e # es)))"

lemma vote_step_rep:
  assumes "dpos_rep K x b" "list_all is_addr (vote_addrs a)"
  shows "\<exists>x'. vote_step a x = (x', snd (book_step a b)) \<and> dpos_rep K x' (fst (book_step a b))"
  using assms BecomeCandidate_rep Delegate_rep UnDelegate_rep by (cases a) auto

text \<open>
  C2: Registrations, votes and withdrawn votes act on the tries of a DPoS context as on a book of
  candidates and votes: the same operations succeed, the same errors are returned, and the index
  of votes by candidate stays in step with the votes.
\<close>

theorem vote_ops_refine:
  assumes "dpos_rep K x b" "list_all (\<lambda>a. list_all is_addr (vote_addrs a)) ops"
  shows "\<exists>x'. run_votes (map vote_step ops) x = (x', snd (run_votes (map book_step ops) b))
    \<and> dpos_rep K x' (fst (run_votes (map book_step ops) b))"
  using assms
proof (induction ops arbitrary: x b)
  case Nil
  then show ?case by simp
next
  case (Cons a ops)
  obtain x' where x': "vote_step a x = (x', snd (book_step a b))" "dpos_rep K x' (fst (book_step a b))"
    using vote_step_rep [OF Cons.prems(1), of a] Cons.prems(2) by auto
  obtain x'' where "run_votes (map vote_step ops) x' = (x'', snd (run_votes (map book_step ops) (fst (book_step a b))))"
      "dpos_rep K x'' (fst (run_votes (map book_step ops) (fst (book_step a b))))"
    using Cons.IH [OF x'(2)] Cons.prems(2) by auto
  then show ?case using x'(1) by (simp add: split_beta)
qed

section \<open>Removing a candidate\<close>

lemma prefix_delegate_none:
  assumes "\<forall>d c. V d = Some c \<longrightarrow> \<not> prefix delegatePrefix c"
  shows "{(k, v). deleg_map V k = Some v \<and> prefix (delegatePrefix @ c) k} = {}"
proof -
  have "\<not> prefix (delegatePrefix @ c) k" if "deleg_map V k = Some v" for k v
  proof
    assume "prefix (delegatePrefix @ c) k"
    then have "prefix delegatePrefix k" by (rule append_prefixD)
    moreover have "length delegatePrefix \<le> 20" by (simp add: delegatePrefix_def)
    ultimately have "prefix delegatePrefix (take 20 k)" by (auto simp: prefix_def)
    then show False using assms that by (auto simp: deleg_map_def split: if_splits)
  qed
  then show ?thesis by blast
qed


lemma prefix_leaves_nil:
  assumes "ptrie K delegatePrefix t (deleg_map V)" "empty_free K"
    "\<forall>d c. V d = Some c \<longrightarrow> \<not> prefix delegatePrefix c"
  shows "prefix_leaves K t c = Some (Inr [])"
proof -
  have "trie_ok K t (deleg_map V)" "t_prefix t = Some delegatePrefix" using assms(1) by (simp_all add: ptrie_def)
  then obtain l where "prefix_leaves K t c = Some (Inr l)"
      "set l = {(k, v). deleg_map V k = Some v \<and> prefix (delegatePrefix @ c) k}"
    using prefix_leaves_ok [OF _ ptrie_root [OF assms(2,1)], of "deleg_map V" c] by auto
  then show ?thesis using prefix_delegate_none [OF assms(3)] by simp
qed

lemma KickoutCandidate_rep:
  assumes "dpos_rep K x b" "empty_free K"
    "\<forall>d c. vb_votes b d = Some c \<longrightarrow> \<not> prefix delegatePrefix c"
  shows "\<exists>x'. KickoutCandidate K x c = (x', None) \<and> dpos_rep K x' (b\<lparr>vb_candidates := vb_candidates b - {c}\<rparr>)"
proof -
  have r: "ptrie K delegatePrefix (dc_delegate x) (deleg_map (vb_votes b))" using assms(1) by (simp add: dpos_rep_def)
  obtain t where t: "TryDelete (dc_candidate x) c = Inr t"
      "ptrie K candidatePrefix t ((cand_map (vb_candidates b))(c := None))"
    using dpos_kv.del_rep assms(1) unfolding dpos_rep_def by blast
  let ?x = "x\<lparr>dc_candidate := t, dc_delegate := snd (trie_Hash K (dc_delegate x))\<rparr>"
  have "KickoutCandidate K x c = (?x, None)"
    using t(1) prefix_leaves_nil [OF r assms(2,3)] by (simp add: KickoutCandidate_def kickout_delegates_def)
  moreover have "dpos_rep K ?x (b\<lparr>vb_candidates := vb_candidates b - {c}\<rparr>)"
    using assms(1) t(2) ptrie_Hash [OF r] by (simp add: dpos_rep_def cand_map_remove book_wf_def)
  ultimately show ?thesis by blast
qed

text \<open>
  C30: Removing a candidate removes none of its votes. The loop of \<open>KickoutCandidate\<close> asks the
  prefix iterator for the entries below the candidate; the iterator puts the name of the table in
  front, which the keys of the table do not have. The delegators keep their vote for an account
  that is no candidate any more, and cannot withdraw it.
\<close>

theorem kickout_keeps_votes:
  assumes "dpos_rep K x b" "is_addr c" "is_addr d" "vb_votes b d = Some c"
    "empty_free K"
    "\<forall>d c. vb_votes b d = Some c \<longrightarrow> \<not> prefix delegatePrefix c"
  shows "\<exists>x'. KickoutCandidate K x c = (x', None)
    \<and> (\<exists>t. TryGet (dc_candidate x') c = Inr (None, t)) \<and> (\<exists>t. TryGet (dc_vote x') d = Inr (Some c, t))
    \<and> snd (UnDelegate x' d c) = Some InvalidCandidateToUndelegate"
proof -
  obtain x' where x': "KickoutCandidate K x c = (x', None)"
      "dpos_rep K x' (b\<lparr>vb_candidates := vb_candidates b - {c}\<rparr>)"
    using KickoutCandidate_rep [OF assms(1,5,6)] by blast
  have p: "ptrie K candidatePrefix (dc_candidate x') (cand_map (vb_candidates b - {c}))"
      "ptrie K votePrefix (dc_vote x') (vb_votes b)"
    using x'(2) by (simp_all add: dpos_rep_def)
  have "\<exists>t. TryGet (dc_candidate x') c = Inr (None, t)" "\<exists>t. TryGet (dc_vote x') d = Inr (Some c, t)"
    using dpos_kv.get_rep [OF p(1), of c] dpos_kv.get_rep [OF p(2), of d] assms(4) by (auto simp: cand_map_def)
  moreover have "snd (UnDelegate x' d c) = Some InvalidCandidateToUndelegate"
    using UnDelegate_rep [OF x'(2) assms(2,3)] by (auto simp: book_undelegate_def)
  ultimately show ?thesis using x'(1) by blast
qed

section \<open>Validators\<close>

lemma enc_as_addresses:
  assumes "list_all is_addr vs"
  shows "enc_as addresses_type NoTag (VSlice (map VByteArray vs)) (item List (concat (map (\<lambda>a. rlp_enc (RStr a)) vs)))"
  unfolding addresses_type_def
  using assms by (intro slice enc_elems_map enc_as_array) (auto simp: list_all_iff is_addr_length)

lemma addresses_bytes_le:
  assumes "list_all is_addr vs" "length vs < 2 ^ 32"
  shows "length (item List (concat (map (\<lambda>a. rlp_enc (RStr a)) vs))) < 2 ^ 63"
proof -
  have "sum_list (map length vs) = 20 * length vs"
    using assms(1) by (induction vs) (auto simp: is_addr_length)
  then show ?thesis
    using item_List_le [of "concat (map (\<lambda>a. rlp_enc (RStr a)) vs)"] rlp_strs_le [of vs] assms(2) by simp
qed

text \<open>The epoch trie holds a list of validators.\<close>

definition validators_rep :: "keccak \<Rightarrow> dposContext \<Rightarrow> address list \<Rightarrow> bool" where
  "validators_rep K d vs \<longleftrightarrow> list_all is_addr vs \<and> length vs < 2 ^ 32 \<and>
     (\<exists>m. ptrie K epochPrefix (dc_epoch d) m
        \<and> m validator_key = Some (item List (concat (map (\<lambda>a. rlp_enc (RStr a)) vs))))"

lemma SetValidators_rep:
  assumes "ptrie K epochPrefix (dc_epoch d) m" "list_all is_addr vs" "length vs < 2 ^ 32"
  shows "\<exists>t. SetValidators d vs = (d\<lparr>dc_epoch := t\<rparr>, None) \<and> validators_rep K (d\<lparr>dc_epoch := t\<rparr>) vs"
proof -
  let ?e = "item List (concat (map (\<lambda>a. rlp_enc (RStr a)) vs))"
  have ne: "?e \<noteq> []" using puthead_nonempty by (simp add: item_def)
  obtain t where t: "Update (dc_epoch d) validator_key ?e = Inr t" "ptrie K epochPrefix t (m(validator_key \<mapsto> ?e))"
    using ptrie_Update [OF assms(1) ne] by blast
  have "SetValidators d vs = (d\<lparr>dc_epoch := t\<rparr>, None)"
    using encode_typed_enc [OF enc_as_addresses [OF assms(2)] addresses_bytes_le [OF assms(2,3)]] t(1)
    by (simp add: SetValidators_def)
  moreover have "validators_rep K (d\<lparr>dc_epoch := t\<rparr>) vs"
    unfolding validators_rep_def using t(2) assms(2,3) by (intro conjI exI [of _ "m(validator_key \<mapsto> ?e)"]) simp_all
  ultimately show ?thesis by blast
qed

lemma GetValidators_rep:
  assumes "validators_rep K d vs"
  shows "\<exists>t. GetValidators d = (Inr vs, d\<lparr>dc_epoch := t\<rparr>) \<and> validators_rep K (d\<lparr>dc_epoch := t\<rparr>) vs"
proof -
  let ?e = "item List (concat (map (\<lambda>a. rlp_enc (RStr a)) vs))"
  obtain m where m: "ptrie K epochPrefix (dc_epoch d) m" "m validator_key = Some ?e" "list_all is_addr vs" "length vs < 2 ^ 32"
    using assms by (auto simp: validators_rep_def)
  obtain u where u: "Get (dc_epoch d) validator_key = Inr (Some ?e, u)" "ptrie K epochPrefix u m"
    using ptrie_Get [OF m(1), of validator_key] m(2) by auto
  have "DecodeBytes (Suc (length ?e)) addresses_type ?e = Inr (VSlice (map VByteArray vs))"
    by (rule DecodeBytes_enc [OF enc_as_addresses [OF m(3)] addresses_bytes_le [OF m(3,4)]]) simp
  then have "GetValidators d = (Inr vs, d\<lparr>dc_epoch := u\<rparr>)"
    using u(1) by (simp add: GetValidators_def opt_bytes_def un_defs comp_def)
  moreover have "validators_rep K (d\<lparr>dc_epoch := u\<rparr>) vs"
    unfolding validators_rep_def using u(2) m by (intro conjI exI [of _ m]) simp_all
  ultimately show ?thesis by blast
qed

text \<open>
  C29: The validators stored in the epoch trie are the ones read back, whatever the trie held before.
\<close>

theorem validators_round_trip:
  assumes "ptrie K epochPrefix (dc_epoch d) m" "list_all is_addr vs" "length vs < 2 ^ 32"
  shows "\<exists>d'. SetValidators d vs = (d', None) \<and> fst (GetValidators d') = Inr vs"
  using SetValidators_rep [OF assms] GetValidators_rep by fastforce

section \<open>Examples\<close>

text \<open>A function that tells the empty string from all others.\<close>

definition ne_hash :: keccak where
  "ne_hash b = replicate 32 (if b = [] then 2 else 1)"

lemma ne_hash_empty_free: "empty_free ne_hash"
  by (simp add: empty_free_def ne_hash_def BytesToHash_def HashLength_def emptyRoot_def numeral_eq_Suc)

definition sample_ctx :: dposContext where
  "sample_ctx = (let t = (\<lambda>p. \<lparr>t_db = Database_node (NewDatabase (\<lambda>h. None)), t_root = NilN,
       t_originalRoot = zeroHash, t_prefix = Some p, t_cachegen = 0, t_cachelimit = 0\<rparr>)
     in \<lparr>dc_epoch = t epochPrefix, dc_delegate = t delegatePrefix, dc_vote = t votePrefix,
         dc_candidate = t candidatePrefix, dc_mintCnt = t mintCntPrefix,
         dc_db = Some (NewDatabase (\<lambda>h. None))\<rparr>)"

definition empty_book :: voteBook where
  "empty_book = \<lparr>vb_candidates = {}, vb_votes = Map.empty\<rparr>"

lemma NewDposContext_sample: "NewDposContext (NewDatabase (\<lambda>h. None)) = Inr sample_ctx"
  by (simp add: NewDposContext_def NewDposContextFromProto_def NewEpochTrie_def NewDelegateTrie_def NewVoteTrie_def
      NewCandidateTrie_def NewMintCntTrie_def NewTrieWithPrefix_def trie_New_def zeroProto_def sample_ctx_def Let_def)

lemma sample_ctx_rep: "dpos_rep K sample_ctx empty_book"
proof -
  have "cand_map {} = Map.empty" "deleg_map Map.empty = Map.empty"
    by (simp_all add: cand_map_def deleg_map_def fun_eq_iff)
  then show ?thesis
    using nil_trie_ok by (auto simp: dpos_rep_def empty_book_def book_wf_def ptrie_def sample_ctx_def Let_def)
qed


abbreviation "addr n \<equiv> replicate 20 n :: address"

theorem vote_ops_refine_witness:
  "\<exists>x'. run_votes (map vote_step [OBecome (addr 1), ODelegate (addr 2) (addr 1), ODelegate (addr 2) (addr 3),
      OUnDelegate (addr 4) (addr 1)]) sample_ctx =
    (x', [None, None, Some InvalidCandidateToDelegate, Some MismatchCandidateToUndelegate])"
proof -
  have "addr 1 \<noteq> addr 3" "addr 2 \<noteq> addr 4" by (simp_all add: numeral_eq_Suc)
  then show ?thesis
    using vote_ops_refine [OF sample_ctx_rep, of "[OBecome (addr 1), ODelegate (addr 2) (addr 1),
        ODelegate (addr 2) (addr 3), OUnDelegate (addr 4) (addr 1)]"]
    by (auto simp: is_addr_length book_become_def book_delegate_def book_undelegate_def empty_book_def)
qed

lemma sample_vote:
  "\<exists>x. run_votes (map vote_step [OBecome (addr 1), ODelegate (addr 2) (addr 1)]) sample_ctx = (x, [None, None])
    \<and> dpos_rep K x \<lparr>vb_candidates = {addr 1}, vb_votes = [addr 2 \<mapsto> addr 1]\<rparr>"
proof -
  obtain x where x: "BecomeCandidate sample_ctx (addr 1) = (x, None)"
      "dpos_rep K x \<lparr>vb_candidates = {addr 1}, vb_votes = Map.empty\<rparr>"
    using BecomeCandidate_rep [OF sample_ctx_rep, of "addr 1"] by (auto simp: is_addr_length book_become_def empty_book_def)
  obtain x' where "Delegate x (addr 2) (addr 1) = (x', None)"
      "dpos_rep K x' \<lparr>vb_candidates = {addr 1}, vb_votes = [addr 2 \<mapsto> addr 1]\<rparr>"
    using Delegate_rep [OF x(2), of "addr 1" "addr 2"] by (auto simp: is_addr_length book_delegate_def)
  then show ?thesis using x(1) by simp
qed

theorem kickout_keeps_votes_witness:
  "\<exists>x x'. run_votes (map vote_step [OBecome (addr 1), ODelegate (addr 2) (addr 1)]) sample_ctx = (x, [None, None])
    \<and> KickoutCandidate ne_hash x (addr 1) = (x', None) \<and> (\<exists>t. TryGet (dc_vote x') (addr 2) = Inr (Some (addr 1), t))"
proof -
  obtain x where x: "run_votes (map vote_step [OBecome (addr 1), ODelegate (addr 2) (addr 1)]) sample_ctx = (x, [None, None])"
      "dpos_rep ne_hash x \<lparr>vb_candidates = {addr 1}, vb_votes = [addr 2 \<mapsto> addr 1]\<rparr>"
    using sample_vote by blast
  have "\<not> prefix delegatePrefix (addr 1)"
  proof
    assume "prefix delegatePrefix (addr 1)"
    then obtain z where "addr 1 = delegatePrefix @ z" by (auto elim: prefixE)
    from arg_cong [OF this, of hd] show False by (simp add: delegatePrefix_def)
  qed
  then have "\<forall>d c. [addr 2 \<mapsto> addr 1] d = Some c \<longrightarrow> \<not> prefix delegatePrefix c"
    by (simp split: if_splits)
  then obtain x' where "KickoutCandidate ne_hash x (addr 1) = (x', None)"
      "\<exists>t. TryGet (dc_vote x') (addr 2) = Inr (Some (addr 1), t)"
    using kickout_keeps_votes [OF x(2), of "addr 1" "addr 2"] ne_hash_empty_free by (auto simp: is_addr_length)
  then show ?thesis using x(1) by blast
qed

theorem validators_round_trip_witness:
  "\<exists>d'. SetValidators sample_ctx [addr 1, addr 2] = (d', None) \<and> fst (GetValidators d') = Inr [addr 1, addr 2]"
proof -
  have "ptrie ne_hash epochPrefix (dc_epoch sample_ctx) Map.empty"
    using nil_trie_ok by (simp add: ptrie_def sample_ctx_def Let_def)
  then show ?thesis
    by (rule validators_round_trip) (simp_all add: is_addr_length)
qed

end
