(* ===== verification/Epoch_Context.thy ===== *)
theory Epoch_Context
  imports Dpos_Context "HOL-Library.AList"
begin

text \<open>
  The election of \<open>consensus/dpos/epoch_context.go\<close> and \<open>consensus/dpos/api.go\<close>: counting
  the votes of every candidate, removing inactive validators, electing and shuffling the
  validators of the next epochs, and looking up the validator of a time slot.

  Parameters of the model: the hash functions, the balance the state database holds for an
  account, and the generator of \<open>math/rand\<close>, as its \<open>NewSource\<close> and \<open>Int31n\<close>. An operation
  returns the DPoS context as it leaves it, also after an error. \<open>DposPanic\<close> is a run-time panic.
\<close>

section \<open>Numbers\<close>

text \<open>\<open>big.Int.Int64\<close>.\<close>

definition big_Int64 :: "int \<Rightarrow> int64" where
  "big_Int64 x = word_of_int x"

definition epochInterval :: int64 where
  "epochInterval = 60"

text \<open>\<open>binary.LittleEndian.Uint32\<close>; \<open>None\<close> is the panic on a short slice.\<close>

definition leUint32 :: "bytes \<Rightarrow> uint32 option" where
  "leUint32 b = (if length b < 4 then None else Some (word_of_nat (be_val (rev (take 4 b)))))"

section \<open>Sorting addresses\<close>

type_synonym sortableAddress = "address \<times> int"

definition hexDigit :: "byte \<Rightarrow> byte" where
  "hexDigit n = (if n < 10 then n + 0x30 else n + 0x57)"

definition hex_EncodeToString :: "bytes \<Rightarrow> bytes" where
  "hex_EncodeToString b = concat (map (\<lambda>x. [hexDigit (x div 16), hexDigit (x mod 16)]) b)"

text \<open>\<open>Address.Hex\<close>: the digit at index \<open>i\<close> is put in upper case by the hash of all digits.\<close>

definition checksum_digit :: "bytes \<Rightarrow> nat \<Rightarrow> byte \<Rightarrow> byte" where
  "checksum_digit hash i c =
     (let hashByte = hash ! (i div 2);
          hashByte = (if even i then drop_bit 4 hashByte else hashByte AND 0xF)
      in if c > 0x39 \<and> hashByte > 7 then c - 32 else c)"

definition Address_Hex :: "keccak \<Rightarrow> address \<Rightarrow> bytes" where
  "Address_Hex K a =
     (let unchecksummed = hex_EncodeToString a; hash = K unchecksummed
      in [0x30, 0x78] @ map (\<lambda>i. checksum_digit hash i (unchecksummed ! i)) [0..<length unchecksummed])"

definition Less :: "keccak \<Rightarrow> sortableAddress \<Rightarrow> sortableAddress \<Rightarrow> bool" where
  "Less K p q =
     (if snd p < snd q then False
      else if snd p > snd q then True
      else \<not> bytes_le (Address_Hex K (fst q)) (Address_Hex K (fst p)))"

text \<open>
  \<open>sort.Sort\<close>, as insertion sort, and \<open>sort.Reverse\<close>. The order is total up to equality, so
  every sorting algorithm gives this result.
\<close>

fun insort_less :: "('a \<Rightarrow> 'a \<Rightarrow> bool) \<Rightarrow> 'a \<Rightarrow> 'a list \<Rightarrow> 'a list" where
  "insort_less lt x [] = [x]"
| "insort_less lt x (y # ys) = (if lt y x then y # insort_less lt x ys else x # y # ys)"

definition sort_Sort :: "('a \<Rightarrow> 'a \<Rightarrow> bool) \<Rightarrow> 'a list \<Rightarrow> 'a list" where
  "sort_Sort lt xs = foldr (insort_less lt) xs []"

definition sort_Reverse :: "('a \<Rightarrow> 'a \<Rightarrow> bool) \<Rightarrow> 'a \<Rightarrow> 'a \<Rightarrow> bool" where
  "sort_Reverse lt x y = lt y x"

section \<open>Counting votes\<close>

record epochContext =
  ec_TimeStamp :: int64
  ec_DposContext :: dposContext
  ec_balance :: "address \<Rightarrow> int"

text \<open>
  The map from candidates to scores is an association list; \<open>tryElect\<close> sorts what it reads
  from it, so the order does not matter.
\<close>

fun count_delegators :: "(address \<Rightarrow> int) \<Rightarrow> address \<Rightarrow> bytes list \<Rightarrow> (address \<times> int) list \<Rightarrow> (address \<times> int) list" where
  "count_delegators bal candidateAddr [] votes = votes"
| "count_delegators bal candidateAddr (delegator # rest) votes =
     (let score = (case map_of votes candidateAddr of None \<Rightarrow> 0 | Some s \<Rightarrow> s)
      in count_delegators bal candidateAddr rest
           (AList.update candidateAddr (score + bal (BytesToAddress delegator)) votes))"

fun count_candidates :: "keccak \<Rightarrow> (address \<Rightarrow> int) \<Rightarrow> bytes list \<Rightarrow> (address \<times> int) list \<Rightarrow> dposContext \<Rightarrow>
    (dposError + (address \<times> int) list) \<times> dposContext" where
  "count_candidates K bal [] votes d = (Inr votes, d)"
| "count_candidates K bal (candidate # rest) votes d =
     (let candidateAddr = BytesToAddress candidate;
          d' = d\<lparr>dc_delegate := snd (trie_Hash K (dc_delegate d))\<rparr>
      in case prefix_leaves K (dc_delegate d) candidate of
           None \<Rightarrow> (Inl IterDiverges, d')
         | Some (Inl u) \<Rightarrow> (Inl IterPanic, d')
         | Some (Inr []) \<Rightarrow> count_candidates K bal rest (AList.update candidateAddr 0 votes) d'
         | Some (Inr kvs) \<Rightarrow> count_candidates K bal rest (count_delegators bal candidateAddr (map snd kvs) votes) d')"

definition countVotes :: "keccak \<Rightarrow> epochContext \<Rightarrow> (dposError + (address \<times> int) list) \<times> epochContext" where
  "countVotes K ec =
     (let d = ec_DposContext ec; d' = d\<lparr>dc_candidate := snd (trie_Hash K (dc_candidate d))\<rparr>
      in case trie_leaves K (dc_candidate d) [] of
           None \<Rightarrow> (Inl IterDiverges, ec\<lparr>ec_DposContext := d'\<rparr>)
         | Some (Inl u) \<Rightarrow> (Inl IterPanic, ec\<lparr>ec_DposContext := d'\<rparr>)
         | Some (Inr kvs) \<Rightarrow>
             if kvs = [] then (Inl NoCandidates, ec\<lparr>ec_DposContext := d'\<rparr>)
             else (case count_candidates K (ec_balance ec) (map snd kvs) [] d' of
                     (r, d'') \<Rightarrow> (r, ec\<lparr>ec_DposContext := d''\<rparr>)))"

section \<open>Removing inactive validators\<close>

text \<open>The validators that minted less than half of their share in an epoch, with their counts.\<close>

fun inactive_validators :: "int64 \<Rightarrow> int64 \<Rightarrow> uint64 \<Rightarrow> uint64 \<Rightarrow> address list \<Rightarrow> trie \<Rightarrow>
    dposError + (sortableAddress list \<times> trie)" where
  "inactive_validators epoch duration blockInterval maxValidatorSize [] t = Inr ([], t)"
| "inactive_validators epoch duration blockInterval maxValidatorSize (validator # rest) t =
     (case Get t (putUint64 epoch @ validator) of
        Inl e \<Rightarrow> Inl (TrieErr e)
      | Inr (cntBytes, t) \<Rightarrow>
          (case (case cntBytes of None \<Rightarrow> Some 0 | Some b \<Rightarrow> getUint64 b) of
             None \<Rightarrow> Inl DposPanic
           | Some cnt \<Rightarrow>
               if blockInterval = 0 \<or> maxValidatorSize = 0 then Inl DposPanic
               else
                 (case inactive_validators epoch duration blockInterval maxValidatorSize rest t of
                    Inl e \<Rightarrow> Inl e
                  | Inr (vs, t) \<Rightarrow>
                      Inr (if sint cnt < sint (quot64 (quot64 (quot64 duration blockInterval) maxValidatorSize) 2)
                           then (validator, sint cnt) # vs else vs, t))))"

fun count_up_to :: "int \<Rightarrow> int \<Rightarrow> 'a list \<Rightarrow> int" where
  "count_up_to limit cnt [] = cnt"
| "count_up_to limit cnt (x # xs) = (if limit \<le> cnt + 1 then cnt + 1 else count_up_to limit (cnt + 1) xs)"

fun kickout_all :: "keccak \<Rightarrow> int \<Rightarrow> int \<Rightarrow> sortableAddress list \<Rightarrow> dposContext \<Rightarrow> dposContext \<times> dposError option" where
  "kickout_all K safeSize candidateCount [] d = (d, None)"
| "kickout_all K safeSize candidateCount (validator # rest) d =
     (if candidateCount \<le> safeSize then (d, None)
      else
        (case KickoutCandidate K d (fst validator) of
           (d, Some e) \<Rightarrow> (d, Some e)
         | (d, None) \<Rightarrow> kickout_all K safeSize (candidateCount - 1) rest d))"

text \<open>What \<open>kickoutValidator\<close> does once the inactive validators are known.\<close>

definition kickout_inactive :: "keccak \<Rightarrow> int64 \<Rightarrow> sortableAddress list \<Rightarrow> dposContext \<Rightarrow> dposContext \<times> dposError option" where
  "kickout_inactive K safeSize needKickoutValidators d =
     (if needKickoutValidators = [] then (d, None)
      else
        (let needs = sort_Sort (sort_Reverse (Less K)) needKickoutValidators;
             limit = sint (word_of_nat (length needs) + safeSize);
             d' = d\<lparr>dc_candidate := snd (trie_Hash K (dc_candidate d))\<rparr>
         in case trie_leaves K (dc_candidate d) [] of
              None \<Rightarrow> (d', Some IterDiverges)
            | Some (Inl u) \<Rightarrow> (d', Some IterPanic)
            | Some (Inr kvs) \<Rightarrow> kickout_all K (sint safeSize) (count_up_to limit 0 kvs) needs d'))"

definition kickoutValidator :: "keccak \<Rightarrow> int64 \<Rightarrow> epochContext \<Rightarrow> int64 \<Rightarrow> header \<Rightarrow> epochContext \<times> dposError option" where
  "kickoutValidator K timeOfFirstBlock ec epoch genesis =
     (case GetValidators (ec_DposContext ec) of
        (Inl e, d) \<Rightarrow> (ec\<lparr>ec_DposContext := d\<rparr>, Some (GetValidatorErr e))
      | (Inr validators, d) \<Rightarrow>
          if validators = [] then (ec\<lparr>ec_DposContext := d\<rparr>, Some NoValidatorToKickout)
          else
            (let maxValidatorSize = hd_MaxValidatorSize genesis;
                 safeSize = maxValidatorSize * 2 div 3 + 1;
                 sinceFirst = ec_TimeStamp ec - timeOfFirstBlock;
                 epochDuration = (if sint sinceFirst < sint epochInterval then sinceFirst else epochInterval)
             in case inactive_validators epoch epochDuration (hd_BlockInterval genesis) maxValidatorSize validators (dc_mintCnt d) of
                  Inl e \<Rightarrow> (ec\<lparr>ec_DposContext := d\<rparr>, Some e)
                | Inr (needKickoutValidators, t) \<Rightarrow>
                    (case kickout_inactive K safeSize needKickoutValidators (d\<lparr>dc_mintCnt := t\<rparr>) of
                       (d, e) \<Rightarrow> (ec\<lparr>ec_DposContext := d\<rparr>, e))))"

section \<open>The validator of a time slot\<close>

definition lookupValidator :: "epochContext \<Rightarrow> int64 \<Rightarrow> uint64 \<Rightarrow> (dposError + address) \<times> epochContext" where
  "lookupValidator ec now blockInterval =
     (let offset = rem64 now epochInterval in
      if blockInterval = 0 then (Inl DposPanic, ec)
      else if rem64 offset blockInterval \<noteq> 0 then (Inl ErrInvalidMintBlockTime, ec)
      else
        (let offset = quot64 offset blockInterval in
         case GetValidators (ec_DposContext ec) of
           (Inl e, d) \<Rightarrow> (Inl e, ec\<lparr>ec_DposContext := d\<rparr>)
         | (Inr validators, d) \<Rightarrow>
             (let ec = ec\<lparr>ec_DposContext := d\<rparr> in
              if validators = [] then (Inl FailedToLookupValidator, ec)
              else
                (let offset = rem64 offset (word_of_nat (length validators)) in
                 if sint offset < 0 \<or> int (length validators) \<le> sint offset then (Inl DposPanic, ec)
                 else (Inr (validators ! nat (sint offset)), ec)))))"

section \<open>The election\<close>

text \<open>\<open>candidates[i], candidates[j] = candidates[j], candidates[i]\<close>, with the bounds checked.\<close>

definition swap_at :: "nat \<Rightarrow> nat \<Rightarrow> 'a list \<Rightarrow> 'a list option" where
  "swap_at i j xs =
     (if i < length xs \<and> j < length xs then Some (xs[i := xs ! j, j := xs ! i]) else None)"

text \<open>The shuffle, from index \<open>i\<close> down to 1. \<open>Int31n\<close> panics on a bound that is not positive.\<close>

fun shuffle :: "('g \<Rightarrow> uint32 \<Rightarrow> uint32 \<times> 'g) \<Rightarrow> nat \<Rightarrow> 'g \<Rightarrow> 'a list \<Rightarrow> 'a list option" where
  "shuffle int31n 0 r xs = Some xs"
| "shuffle int31n (Suc i) r xs =
     (let n = word_of_nat (Suc i + 1) in
      if sint n \<le> 0 then None
      else
        (case int31n r n of
           (j, r) \<Rightarrow> (case swap_at (Suc i) (unat j) xs of None \<Rightarrow> None | Some xs \<Rightarrow> shuffle int31n i r xs)))"

text \<open>The candidates that a count of votes elects for the epoch after \<open>i\<close>.\<close>

definition elect :: "keccak \<Rightarrow> keccak \<Rightarrow> (int64 \<Rightarrow> 'g) \<Rightarrow> ('g \<Rightarrow> uint32 \<Rightarrow> uint32 \<times> 'g) \<Rightarrow>
    header \<Rightarrow> header \<Rightarrow> int64 \<Rightarrow> (address \<times> int) list \<Rightarrow> dposError + address list" where
  "elect K K512 newSource int31n genesis parent i votes =
     (let maxValidatorSize = hd_MaxValidatorSize genesis;
          safeSize = quot64 (maxValidatorSize * 2) 3 + 1
      in if int (length votes) < sint safeSize then Inl TooFewCandidates
         else
           (let candidates = sort_Sort (Less K) votes in
            if sint maxValidatorSize < int (length candidates) \<and> sint maxValidatorSize < 0 then Inl DposPanic
            else
              (let candidates = (if sint maxValidatorSize < int (length candidates)
                                 then take (nat (sint maxValidatorSize)) candidates else candidates)
               in case leUint32 (K512 (header_Hash K parent)) of
                    None \<Rightarrow> Inl DposPanic
                  | Some s \<Rightarrow>
                      (case shuffle int31n (length candidates - 1) (newSource (ucast s + i)) candidates of
                         None \<Rightarrow> Inl DposPanic
                       | Some candidates \<Rightarrow> Inr (map fst candidates)))))"

text \<open>Replacing the epoch trie by one that holds the validators.\<close>

definition install :: "dposContext \<Rightarrow> address list \<Rightarrow> dposContext \<times> dposError option" where
  "install d validators =
     (case dc_db d of
        None \<Rightarrow> (d, Some DposPanic)
      | Some db \<Rightarrow>
          (case NewEpochTrie zeroHash (Database_node db) of
             Inl e \<Rightarrow> (d, Some DposPanic)
           | Inr epochTrie \<Rightarrow>
               (case SetValidators (SetEpoch d epochTrie) validators of
                  (d, Some (TrieErr e)) \<Rightarrow> (d, Some (TrieErr e))
                | (d, _) \<Rightarrow> (d, None))))"

text \<open>
  One pass of the loop of \<open>tryElect\<close>, after the removal of inactive validators, and the loop.
  \<open>iter\<close> is the state of the one iterator that all passes share.
\<close>

definition elect_epoch :: "keccak \<Rightarrow> keccak \<Rightarrow> (int64 \<Rightarrow> 'g) \<Rightarrow> ('g \<Rightarrow> uint32 \<Rightarrow> uint32 \<times> 'g) \<Rightarrow>
    header \<Rightarrow> header \<Rightarrow> int64 \<Rightarrow> epochContext \<Rightarrow> epochContext \<times> dposError option" where
  "elect_epoch K K512 newSource int31n genesis parent i ec =
     (case countVotes K ec of
        (Inl e, ec) \<Rightarrow> (ec, Some e)
      | (Inr votes, ec) \<Rightarrow>
          (case elect K K512 newSource int31n genesis parent i votes of
             Inl e \<Rightarrow> (ec, Some e)
           | Inr sortedValidators \<Rightarrow>
               (case install (ec_DposContext ec) sortedValidators of
                  (d, e) \<Rightarrow> (ec\<lparr>ec_DposContext := d\<rparr>, e))))"

definition iter_Next :: "(unit + 'a list) option \<Rightarrow> dposError + (bool \<times> (unit + 'a list) option)" where
  "iter_Next iter =
     (case iter of
        None \<Rightarrow> Inl IterDiverges
      | Some (Inl u) \<Rightarrow> Inl IterPanic
      | Some (Inr []) \<Rightarrow> Inr (False, iter)
      | Some (Inr (x # xs)) \<Rightarrow> Inr (True, Some (Inr xs)))"

fun elect_loop :: "keccak \<Rightarrow> keccak \<Rightarrow> (int64 \<Rightarrow> 'g) \<Rightarrow> ('g \<Rightarrow> uint32 \<Rightarrow> uint32 \<times> 'g) \<Rightarrow> int64 \<Rightarrow>
    header \<Rightarrow> header \<Rightarrow> bool \<Rightarrow> int64 \<Rightarrow> int list \<Rightarrow> (unit + (bytes \<times> bytes) list) option \<Rightarrow>
    epochContext \<Rightarrow> epochContext \<times> dposError option" where
  "elect_loop K K512 newSource int31n first genesis parent isGenesis prevEpoch [] iter ec = (ec, None)"
| "elect_loop K K512 newSource int31n first genesis parent isGenesis prevEpoch (i # is) iter ec =
     (case (if isGenesis then Inr (False, iter) else iter_Next iter) of
        Inl e \<Rightarrow> (ec, Some e)
      | Inr (b, iter) \<Rightarrow>
          (case (if b then kickoutValidator K first ec prevEpoch genesis else (ec, None)) of
             (ec, Some e) \<Rightarrow> (ec, Some e)
           | (ec, None) \<Rightarrow>
               (case elect_epoch K K512 newSource int31n genesis parent (word_of_int i) ec of
                  (ec, Some e) \<Rightarrow> (ec, Some e)
                | (ec, None) \<Rightarrow>
                    elect_loop K K512 newSource int31n first genesis parent isGenesis prevEpoch is iter ec)))"

definition tryElect :: "keccak \<Rightarrow> keccak \<Rightarrow> (int64 \<Rightarrow> 'g) \<Rightarrow> ('g \<Rightarrow> uint32 \<Rightarrow> uint32 \<times> 'g) \<Rightarrow> int64 \<Rightarrow>
    header \<Rightarrow> header \<Rightarrow> epochContext \<Rightarrow> epochContext \<times> dposError option" where
  "tryElect K K512 newSource int31n first genesis parent ec =
     (case (hd_Time genesis, hd_Time parent) of
        (Some gt, Some pt) \<Rightarrow>
          (let genesisEpoch = quot64 (big_Int64 gt) epochInterval;
               prevEpoch = quot64 (big_Int64 pt) epochInterval;
               currentEpoch = quot64 (ec_TimeStamp ec) epochInterval;
               isGenesis = (prevEpoch = genesisEpoch);
               prevEpoch = (if isGenesis \<and> sint prevEpoch < sint currentEpoch then currentEpoch - 1 else prevEpoch);
               d = ec_DposContext ec;
               iter = prefix_leaves K (dc_mintCnt d) (putUint64 prevEpoch);
               ec = ec\<lparr>ec_DposContext := d\<lparr>dc_mintCnt := snd (trie_Hash K (dc_mintCnt d))\<rparr>\<rparr>
           in elect_loop K K512 newSource int31n first genesis parent isGenesis prevEpoch
                [sint prevEpoch..sint currentEpoch - 1] iter ec)
      | _ \<Rightarrow> (ec, Some DposPanic))"

section \<open>Sorting\<close>

text \<open>What \<open>sort.Interface\<close> asks of \<open>Less\<close> for the result to be unique: a strict total order.\<close>

locale sort_order =
  fixes lt :: "'a \<Rightarrow> 'a \<Rightarrow> bool"
  assumes irrefl: "\<not> lt x x"
    and trans: "lt x y \<Longrightarrow> lt y z \<Longrightarrow> lt x z"
    and total: "x \<noteq> y \<Longrightarrow> lt x y \<or> lt y x"
begin

lemma mset_insort_less: "mset (insort_less lt x xs) = add_mset x (mset xs)"
  by (induction xs) auto

lemma mset_sort_Sort: "mset (sort_Sort lt xs) = mset xs"
  by (induction xs) (simp_all add: sort_Sort_def mset_insort_less)

lemma insort_less_sorted:
  assumes "sorted_wrt (\<lambda>x y. \<not> lt y x) xs"
  shows "sorted_wrt (\<lambda>x y. \<not> lt y x) (insort_less lt x xs)"
  using assms
proof (induction xs)
  case (Cons y ys)
  have "set (insort_less lt x ys) = insert x (set ys)"
    using mset_insort_less [of x ys] by (metis set_mset_add_mset_insert set_mset_mset)
  moreover have "\<not> lt z x" if "\<not> lt y x" "z \<in> set ys" for z
  proof
    assume "lt z x"
    then have "lt z y" using that(1) total [of x y] trans [of z x y] by auto
    then show False using Cons.prems that(2) by auto
  qed
  moreover have "\<not> lt x y" if "lt y x"
    using that trans irrefl by blast
  ultimately show ?case
    using Cons by auto
qed simp

lemma sort_Sort_sorted: "sorted_wrt (\<lambda>x y. \<not> lt y x) (sort_Sort lt xs)"
  by (induction xs) (simp_all add: sort_Sort_def insort_less_sorted)

lemma sorted_unique:
  assumes "mset xs = mset ys" "sorted_wrt (\<lambda>x y. \<not> lt y x) xs" "sorted_wrt (\<lambda>x y. \<not> lt y x) ys"
  shows "xs = ys"
  using assms
proof (induction xs arbitrary: ys)
  case (Cons x xs)
  then obtain y ys' where ys: "ys = y # ys'" by (cases ys) auto
  have "x = y"
  proof (rule ccontr)
    assume "x \<noteq> y"
    then have "y \<in> set xs" "x \<in> set ys'"
      using mset_eq_setD [OF Cons.prems(1)] ys by auto
    then show False using Cons.prems(2,3) ys total [OF \<open>x \<noteq> y\<close>] by auto
  qed
  then show ?case using Cons ys by auto
qed simp

lemma sort_Sort_unique:
  "mset xs = mset ys \<Longrightarrow> sorted_wrt (\<lambda>x y. \<not> lt y x) ys \<Longrightarrow> sort_Sort lt xs = ys"
  using sorted_unique mset_sort_Sort sort_Sort_sorted by metis

lemma sort_Sort_mset: "mset xs = mset ys \<Longrightarrow> sort_Sort lt xs = sort_Sort lt ys"
  using sort_Sort_unique mset_sort_Sort sort_Sort_sorted by metis

end

text \<open>Hexadecimal strings of different byte strings differ, whatever the checksum.\<close>

definition lower :: "byte \<Rightarrow> byte" where
  "lower c = (if 0x41 \<le> c \<and> c \<le> 0x46 then c + 32 else c)"

lemma nibble_cases:
  assumes "(n :: byte) < 16"
  shows "n \<in> {0,1,2,3,4,5,6,7,8,9,10,11,12,13,14,15}"
proof -
  have "unat n < 16" using assms by (simp add: word_less_nat_alt)
  then have "unat n \<in> {0,1,2,3,4,5,6,7,8,9,10,11,12,13,14,15}" by (simp add: less_Suc_eq numeral_eq_Suc)
  then have "word_of_nat (unat n) \<in> (word_of_nat :: nat \<Rightarrow> byte) ` {0,1,2,3,4,5,6,7,8,9,10,11,12,13,14,15}" by blast
  then show ?thesis by simp
qed

lemma lower_checksum_digit: "n < 16 \<Longrightarrow> lower (checksum_digit h i (hexDigit n)) = hexDigit n"
  by (drule nibble_cases, elim insertE emptyE; simp add: lower_def checksum_digit_def hexDigit_def Let_def)

definition lookup16 :: "byte \<Rightarrow> byte" where
  "lookup16 c = (if c < 0x40 then c - 0x30 else c - 0x57)"

lemma lookup16_hexDigit: "n < 16 \<Longrightarrow> lookup16 (hexDigit n) = n"
  by (drule nibble_cases, elim insertE emptyE; simp add: lookup16_def hexDigit_def)

lemma hexDigit_inject: "m < 16 \<Longrightarrow> n < 16 \<Longrightarrow> hexDigit m = hexDigit n \<longleftrightarrow> m = n"
  using lookup16_hexDigit by metis

lemma byte_nibbles: "(x :: byte) div 16 < 16" "x mod 16 < 16" "x div 16 * 16 + x mod 16 = x"
  by (simp_all add: word_less_nat_alt unat_div unat_mod unat_byte_lt less_mult_imp_div_less div_mult_mod_eq)

lemma hex_EncodeToString_inject: "hex_EncodeToString a = hex_EncodeToString b \<longleftrightarrow> a = b"
proof
  assume "hex_EncodeToString a = hex_EncodeToString b"
  then show "a = b"
  proof (induction a arbitrary: b)
    case Nil
    then show ?case by (cases b) (auto simp: hex_EncodeToString_def)
  next
    case (Cons x a)
    then obtain y b' where b: "b = y # b'" by (cases b) (auto simp: hex_EncodeToString_def)
    then have "x div 16 = y div 16" "x mod 16 = y mod 16" "a = b'"
      using Cons byte_nibbles by (auto simp: hex_EncodeToString_def hexDigit_inject)
    then show ?case using b byte_nibbles(3) by metis
  qed
qed simp

lemma hex_digits: "c \<in> set (hex_EncodeToString a) \<Longrightarrow> \<exists>n < 16. c = hexDigit n"
  using byte_nibbles(1,2) by (auto simp: hex_EncodeToString_def) (blast intro: byte_nibbles)+

lemma lower_Hex: "map lower (drop 2 (Address_Hex K a)) = hex_EncodeToString a"
proof (rule nth_equalityI)
  fix i assume "i < length (map lower (drop 2 (Address_Hex K a)))"
  then have i: "i < length (hex_EncodeToString a)" by (simp add: Address_Hex_def Let_def)
  then obtain n where "n < 16" "hex_EncodeToString a ! i = hexDigit n"
    using hex_digits nth_mem by metis
  then show "map lower (drop 2 (Address_Hex K a)) ! i = hex_EncodeToString a ! i"
    using i lower_checksum_digit by (simp add: Address_Hex_def Let_def)
qed (simp add: Address_Hex_def Let_def)

lemma Address_Hex_inject: "Address_Hex K a = Address_Hex K b \<longleftrightarrow> a = b"
  using lower_Hex hex_EncodeToString_inject by metis

lemma bytes_lt_trans: "\<not> bytes_le b a \<Longrightarrow> \<not> bytes_le c b \<Longrightarrow> \<not> bytes_le c a"
  by (metis bytes_le_trans bytes_le_linear)

interpretation less_order: sort_order "Less K" for K
proof
  show "\<not> Less K x x" for x by (simp add: Less_def)
  show "Less K x z" if "Less K x y" "Less K y z" for x y z
    using that bytes_lt_trans by (auto simp: Less_def split: if_splits)
  show "Less K x y \<or> Less K y x" if "x \<noteq> y" for x y
    using that bytes_le_antisym [of "Address_Hex K (fst x)" "Address_Hex K (fst y)"] Address_Hex_inject
    by (cases x; cases y) (auto simp: Less_def split: if_splits)
qed

interpretation reverse_order: sort_order "sort_Reverse (Less K)" for K
  using less_order.irrefl less_order.trans less_order.total
  by unfold_locales (auto simp: sort_Reverse_def)

section \<open>Counting votes\<close>

text \<open>No delegator has voted for an account whose address starts with the name of the vote table.\<close>

definition plain_votes :: "voteBook \<Rightarrow> bool" where
  "plain_votes b \<longleftrightarrow> (\<forall>d c. vb_votes b d = Some c \<longrightarrow> \<not> prefix delegatePrefix c)"

lemma map_of_zero_votes:
  "map_of (fold (\<lambda>c. AList.update c 0) cs votes) = (\<lambda>k. if k \<in> set cs then Some 0 else map_of votes k)"
  by (induction cs arbitrary: votes) (auto simp: update_conv' fun_eq_iff)

lemma distinct_zero_votes:
  "distinct (map fst votes) \<Longrightarrow> distinct (map fst (fold (\<lambda>c. AList.update c 0) cs votes))"
  by (induction cs arbitrary: votes) (auto simp: distinct_update)

lemma set_zero_votes: "set (fold (\<lambda>c. AList.update c 0) cs []) = (\<lambda>c. (c, 0)) ` set cs"
proof -
  have "(k, v) \<in> set (fold (\<lambda>c. AList.update c 0) cs []) \<longleftrightarrow> k \<in> set cs \<and> v = 0" for k v
    using map_of_eq_Some_iff [OF distinct_zero_votes [of "[]" cs], of k v] by (auto simp: map_of_zero_votes split: if_splits)
  then show ?thesis by auto
qed

lemma count_candidates_zero:
  assumes "dpos_rep K d b" "empty_free K" "plain_votes b" "list_all is_addr cs"
  shows "\<exists>t. count_candidates K bal cs votes d = (Inr (fold (\<lambda>c. AList.update c 0) cs votes), d\<lparr>dc_delegate := t\<rparr>)
    \<and> ptrie K delegatePrefix t (deleg_map (vb_votes b))"
  using assms(1,4)
proof (induction cs arbitrary: votes d)
  case Nil
  then show ?case by (auto simp: dpos_rep_def intro!: exI [of _ "dc_delegate d"])
next
  case (Cons c cs)
  let ?t = "snd (trie_Hash K (dc_delegate d))"
  have p: "ptrie K delegatePrefix (dc_delegate d) (deleg_map (vb_votes b))"
    using Cons.prems by (simp add: dpos_rep_def)
  have "dpos_rep K (d\<lparr>dc_delegate := ?t\<rparr>) b"
    using Cons.prems ptrie_Hash [OF p] by (simp add: dpos_rep_def)
  then have "\<exists>t. count_candidates K bal cs (AList.update c 0 votes) (d\<lparr>dc_delegate := ?t\<rparr>)
      = (Inr (fold (\<lambda>c. AList.update c 0) cs (AList.update c 0 votes)), d\<lparr>dc_delegate := t\<rparr>)
      \<and> ptrie K delegatePrefix t (deleg_map (vb_votes b))"
    using Cons.IH [of "d\<lparr>dc_delegate := ?t\<rparr>"] Cons.prems(2) by simp
  moreover have "prefix_leaves K (dc_delegate d) c = Some (Inr [])"
    using prefix_leaves_nil [OF p assms(2)] assms(3) by (simp add: plain_votes_def)
  ultimately show ?case
    using Cons.prems(2) by (simp add: Let_def BytesToAddress_id)
qed

lemma path_lt_distinct: "sorted_wrt path_lt xs \<Longrightarrow> distinct xs"
  by (induction xs) (auto simp: path_lt_def)

lemma candidate_leaves:
  assumes "dpos_rep K d b" "empty_free K"
  shows "\<exists>kvs. trie_leaves K (dc_candidate d) [] = Some (Inr kvs) \<and> set kvs = (\<lambda>c. (c, c)) ` vb_candidates b
    \<and> distinct kvs"
proof -
  have p: "ptrie K candidatePrefix (dc_candidate d) (cand_map (vb_candidates b))"
    using assms(1) by (simp add: dpos_rep_def)
  then have "trie_ok K (dc_candidate d) (cand_map (vb_candidates b))" by (simp add: ptrie_def)
  then obtain l where l: "trie_leaves K (dc_candidate d) [] = Some (Inr l)"
      "sorted_wrt path_lt (map (keybytesToHex \<circ> fst) l)"
      "set l = {(k, v). cand_map (vb_candidates b) k = Some v \<and> bytes_le (butlast (keybytesToHex [])) (keybytesToHex k)}"
    using trie_leaves_ok [OF _ ptrie_root [OF assms(2) p], of _ "[]"] by blast
  have "distinct l"
    using l(2) path_lt_distinct distinct_map by blast
  moreover have "set l = (\<lambda>c. (c, c)) ` vb_candidates b"
    using l(3) by (auto simp: cand_map_def keybytesToHex_def split: if_splits)
  ultimately show ?thesis using l(1) by blast
qed


lemma countVotes_rep:
  assumes "dpos_rep K (ec_DposContext ec) b" "empty_free K" "plain_votes b" "vb_candidates b \<noteq> {}"
  shows "\<exists>votes ct dt. countVotes K ec =
      (Inr votes, ec\<lparr>ec_DposContext := (ec_DposContext ec)\<lparr>dc_candidate := ct, dc_delegate := dt\<rparr>\<rparr>)
    \<and> distinct (map fst votes) \<and> set votes = (\<lambda>c. (c, 0)) ` vb_candidates b
    \<and> dpos_rep K ((ec_DposContext ec)\<lparr>dc_candidate := ct, dc_delegate := dt\<rparr>) b"
proof -
  let ?d = "ec_DposContext ec"
  let ?ct = "snd (trie_Hash K (dc_candidate ?d))"
  obtain kvs where kvs: "trie_leaves K (dc_candidate ?d) [] = Some (Inr kvs)" "set kvs = (\<lambda>c. (c, c)) ` vb_candidates b"
    using candidate_leaves [OF assms(1,2)] by blast
  have d: "dpos_rep K (?d\<lparr>dc_candidate := ?ct\<rparr>) b"
    using assms(1) ptrie_Hash by (auto simp: dpos_rep_def)
  have snd: "set (map snd kvs) = vb_candidates b" by (simp add: kvs(2) image_image)
  have "list_all is_addr (map snd kvs)"
    using assms(1) snd by (simp add: list_all_iff dpos_rep_def book_wf_def)
  from count_candidates_zero [OF d assms(2,3) this, of "ec_balance ec" "[]"]
  obtain t where t: "count_candidates K (ec_balance ec) (map snd kvs) [] (?d\<lparr>dc_candidate := ?ct\<rparr>) =
      (Inr (fold (\<lambda>c. AList.update c 0) (map snd kvs) []), ?d\<lparr>dc_candidate := ?ct, dc_delegate := t\<rparr>)"
    "ptrie K delegatePrefix t (deleg_map (vb_votes b))"
    by auto
  have "dpos_rep K (?d\<lparr>dc_candidate := ?ct, dc_delegate := t\<rparr>) b"
    using d t(2) by (simp add: dpos_rep_def)
  moreover have "kvs \<noteq> []" using kvs(2) assms(4) by auto
  then have "countVotes K ec = (Inr (fold (\<lambda>c. AList.update c 0) (map snd kvs) []),
      ec\<lparr>ec_DposContext := ?d\<lparr>dc_candidate := ?ct, dc_delegate := t\<rparr>\<rparr>)"
    using kvs(1) t(1) by (simp add: countVotes_def Let_def)
  moreover have "distinct (map fst (fold (\<lambda>c. AList.update c 0) (map snd kvs) []))"
    by (rule distinct_zero_votes) simp
  moreover have "set (fold (\<lambda>c. AList.update c 0) (map snd kvs) []) = (\<lambda>c. (c, 0)) ` vb_candidates b"
    using set_zero_votes [of "map snd kvs"] snd by simp
  ultimately show ?thesis by blast
qed

section \<open>The election\<close>

text \<open>What the code relies on of the generator: a number below the bound.\<close>

definition int31n_ok :: "('g \<Rightarrow> uint32 \<Rightarrow> uint32 \<times> 'g) \<Rightarrow> bool" where
  "int31n_ok int31n \<longleftrightarrow> (\<forall>r n. 0 < sint n \<longrightarrow> fst (int31n r n) < n)"

lemma mset_swap_at:
  assumes "i < length xs" "j < length xs"
  shows "\<exists>ys. swap_at i j xs = Some ys \<and> mset ys = mset xs"
  using assms by (simp add: swap_at_def mset_swap)

lemma sint32_of_nat: "n < 2 ^ 31 \<Longrightarrow> sint (word_of_nat n :: uint32) = int n"
  using sint_sbintrunc' [of "int n", where ?'a = 32] by (simp add: signed_take_bit_int_eq_self)

lemma unat32_of_nat: "n < 2 ^ 31 \<Longrightarrow> unat (word_of_nat n :: uint32) = n"
  by (simp add: unat_of_nat)

lemma shuffle_mset:
  assumes "int31n_ok int31n" "i < length xs \<or> i = 0" "length xs < 2 ^ 31"
  shows "\<exists>ys. shuffle int31n i r xs = Some ys \<and> mset ys = mset xs"
  using assms(2,3)
proof (induction i arbitrary: r xs)
  case (Suc i)
  let ?n = "word_of_nat (Suc i + 1) :: uint32"
  have b: "Suc i + 1 < 2 ^ 31" using Suc.prems by simp
  have u: "unat ?n = Suc i + 1" by (rule unat32_of_nat [OF b])
  have n: "0 < sint ?n" unfolding sint32_of_nat [OF b] by simp
  obtain j r' where j: "int31n r ?n = (j, r')" by fastforce
  then have "j < ?n" using assms(1) n by (metis fst_conv int31n_ok_def)
  then have "unat j < length xs" using u Suc.prems by (simp add: word_less_nat_alt)
  then obtain ys where ys: "swap_at (Suc i) (unat j) xs = Some ys" "mset ys = mset xs"
    using mset_swap_at Suc.prems by blast
  then have "length ys = length xs" by (metis size_mset)
  then obtain zs where "shuffle int31n i r' ys = Some zs" "mset zs = mset ys"
    using Suc.IH [of ys r'] Suc.prems by auto
  then show ?case using n j ys by (simp add: Let_def del: of_nat_add of_nat_Suc)
qed simp

text \<open>The first \<open>n\<close> accounts in the order of their addresses, in some order.\<close>

definition first_by_address :: "keccak \<Rightarrow> nat \<Rightarrow> address set \<Rightarrow> address list \<Rightarrow> bool" where
  "first_by_address K n C vs \<longleftrightarrow>
     (\<exists>l. distinct l \<and> set l = C \<and> sorted_wrt (\<lambda>a b. bytes_le (Address_Hex K a) (Address_Hex K b)) l
        \<and> mset vs = mset (take n l))"

text \<open>The validator size of the genesis block is a non-negative \<open>int\<close>, and \<open>n\<close> candidates suffice.\<close>

definition enough_candidates :: "header \<Rightarrow> nat \<Rightarrow> bool" where
  "enough_candidates genesis n \<longleftrightarrow> 0 \<le> sint (hd_MaxValidatorSize genesis)
     \<and> sint (quot64 (hd_MaxValidatorSize genesis * 2) 3 + 1) \<le> int n"

lemma ballot_order:
  assumes "distinct (map fst votes)" "set votes = (\<lambda>c. (c, 0)) ` C"
  shows "distinct (map fst (sort_Sort (Less K) votes))" "set (map fst (sort_Sort (Less K) votes)) = C"
    "sorted_wrt (\<lambda>a b. bytes_le (Address_Hex K a) (Address_Hex K b)) (map fst (sort_Sort (Less K) votes))"
    "length (sort_Sort (Less K) votes) = card C" "length votes = card C"
proof -
  have m: "mset (sort_Sort (Less K) votes) = mset votes" by (rule less_order.mset_sort_Sort)
  then have "mset (map fst (sort_Sort (Less K) votes)) = mset (map fst votes)" by simp
  then show d: "distinct (map fst (sort_Sort (Less K) votes))"
    using assms(1) mset_eq_imp_distinct_iff by blast
  have s: "set (sort_Sort (Less K) votes) = (\<lambda>c. (c, 0)) ` C" using mset_eq_setD [OF m] assms(2) by simp
  then show c: "set (map fst (sort_Sort (Less K) votes)) = C" by (simp add: image_image)
  have "sorted_wrt (\<lambda>x y. bytes_le (Address_Hex K (fst x)) (Address_Hex K (fst y))) (sort_Sort (Less K) votes)"
    using s by (intro sorted_wrt_mono_rel [OF _ less_order.sort_Sort_sorted [of K votes]]) (auto simp: Less_def)
  then show "sorted_wrt (\<lambda>a b. bytes_le (Address_Hex K a) (Address_Hex K b)) (map fst (sort_Sort (Less K) votes))"
    by (simp add: sorted_wrt_map)
  show l: "length (sort_Sort (Less K) votes) = card C" using distinct_card [OF d] c by simp
  show "length votes = card C" using l size_mset m by metis
qed

lemma elect_zero:
  assumes "int31n_ok int31n" "\<forall>b. 4 \<le> length (K512 b)" "distinct (map fst votes)" "set votes = (\<lambda>c. (c, 0)) ` C"
    "enough_candidates genesis (card C)" "card C < 2 ^ 31"
  shows "\<exists>vs. elect K K512 newSource int31n genesis parent i votes = Inr vs
    \<and> first_by_address K (nat (sint (hd_MaxValidatorSize genesis))) C vs"
proof -
  let ?m = "nat (sint (hd_MaxValidatorSize genesis))" and ?S = "sort_Sort (Less K) votes"
  note b = ballot_order(1-4) [OF assms(3,4), of K] ballot_order(5) [OF assms(3,4)]
  have take: "(if sint (hd_MaxValidatorSize genesis) < int (length ?S) then take ?m ?S else ?S) = take ?m ?S"
    using assms(5) by (auto simp: enough_candidates_def)
  have l: "length (take ?m ?S) - 1 < length (take ?m ?S) \<or> length (take ?m ?S) - 1 = 0" by auto
  have l2: "length (take ?m ?S) < 2 ^ 31" using b(4) assms(6) by simp
  obtain s where s: "leUint32 (K512 (header_Hash K parent)) = Some s"
    using assms(2) by (auto simp: leUint32_def not_less)
  obtain ys where ys: "shuffle int31n (length (take ?m ?S) - 1) (newSource (ucast s + i)) (take ?m ?S) = Some ys"
      "mset ys = mset (take ?m ?S)" using shuffle_mset [OF assms(1) l l2] by blast
  have "elect K K512 newSource int31n genesis parent i votes = Inr (map fst ys)"
    unfolding elect_def Let_def take s
    using ys(1) assms(5) b(5) by (simp add: enough_candidates_def)
  moreover have "mset (map fst ys) = mset (take ?m (map fst ?S))"
    using ys(2) by (metis mset_map take_map)
  ultimately show ?thesis
    using b(1-3) unfolding first_by_address_def by blast
qed

lemma NewEpochTrie_zero: "\<exists>t. NewEpochTrie zeroHash db = Inr t \<and> ptrie K epochPrefix t Map.empty"
  using nil_trie_ok by (auto simp: NewEpochTrie_def NewTrieWithPrefix_def trie_New_def zeroHash_def ptrie_def)

lemma install_rep:
  assumes "dc_db d = Some db" "list_all is_addr vs" "length vs < 2 ^ 32"
  shows "\<exists>t. install d vs = (d\<lparr>dc_epoch := t\<rparr>, None) \<and> validators_rep K (d\<lparr>dc_epoch := t\<rparr>) vs"
proof -
  obtain t where t: "NewEpochTrie zeroHash (Database_node db) = Inr t" "ptrie K epochPrefix t Map.empty"
    using NewEpochTrie_zero by blast
  then show ?thesis
    using SetValidators_rep [of K "SetEpoch d t" Map.empty vs] assms by (auto simp: install_def SetEpoch_def)
qed

text \<open>What the election reads and leaves alone.\<close>

definition elect_pre :: "keccak \<Rightarrow> voteBook \<Rightarrow> (bytes \<rightharpoonup> bytes) \<Rightarrow> dposContext \<Rightarrow> bool" where
  "elect_pre K b M d \<longleftrightarrow> dpos_rep K d b \<and> ptrie K mintCntPrefix (dc_mintCnt d) M \<and> dc_db d \<noteq> None"

lemma first_by_address_props:
  assumes "first_by_address K n C vs"
  shows "set vs \<subseteq> C" "length vs \<le> card C"
proof -
  obtain l where l: "distinct l" "set l = C" "mset vs = mset (take n l)"
    using assms by (auto simp: first_by_address_def)
  show "set vs \<subseteq> C" using mset_eq_setD [OF l(3)] set_take_subset [of n l] l(2) by simp
  have "length vs = length (take n l)" using l(3) size_mset by metis
  then show "length vs \<le> card C" using distinct_card [OF l(1)] l(2) by simp
qed

lemma elect_epoch_rep:
  assumes "elect_pre K b M (ec_DposContext ec)" "empty_free K" "plain_votes b" "int31n_ok int31n"
    "\<forall>b. 4 \<le> length (K512 b)" "enough_candidates genesis (card (vb_candidates b))" "card (vb_candidates b) < 2 ^ 31"
    "vb_candidates b \<noteq> {}"
  shows "\<exists>d vs. elect_epoch K K512 newSource int31n genesis parent i ec = (ec\<lparr>ec_DposContext := d\<rparr>, None)
    \<and> elect_pre K b M d \<and> validators_rep K d vs
    \<and> first_by_address K (nat (sint (hd_MaxValidatorSize genesis))) (vb_candidates b) vs"
proof -
  let ?n = "nat (sint (hd_MaxValidatorSize genesis))" and ?d = "ec_DposContext ec"
  have d: "dpos_rep K ?d b" and db: "dc_db ?d \<noteq> None" using assms(1) by (simp_all add: elect_pre_def)
  obtain votes ct dt where v: "countVotes K ec =
        (Inr votes, ec\<lparr>ec_DposContext := ?d\<lparr>dc_candidate := ct, dc_delegate := dt\<rparr>\<rparr>)"
      "distinct (map fst votes)" "set votes = (\<lambda>c. (c, 0)) ` vb_candidates b"
      "dpos_rep K (?d\<lparr>dc_candidate := ct, dc_delegate := dt\<rparr>) b"
    using countVotes_rep [OF d assms(2,3,8)] by blast
  obtain vs where vs: "elect K K512 newSource int31n genesis parent i votes = Inr vs" "first_by_address K ?n (vb_candidates b) vs"
    using elect_zero [OF assms(4,5) v(2,3) assms(6,7)] by blast
  have "list_all is_addr vs" "length vs < 2 ^ 32"
    using first_by_address_props [OF vs(2)] d assms(7) by (auto simp: list_all_iff dpos_rep_def book_wf_def)
  then obtain t where t: "install (?d\<lparr>dc_candidate := ct, dc_delegate := dt\<rparr>) vs =
        (?d\<lparr>dc_candidate := ct, dc_delegate := dt, dc_epoch := t\<rparr>, None)"
      "validators_rep K (?d\<lparr>dc_candidate := ct, dc_delegate := dt, dc_epoch := t\<rparr>) vs"
    using install_rep [of "?d\<lparr>dc_candidate := ct, dc_delegate := dt\<rparr>" _ vs] db by auto
  let ?e = "?d\<lparr>dc_candidate := ct, dc_delegate := dt, dc_epoch := t\<rparr>"
  have "elect_epoch K K512 newSource int31n genesis parent i ec = (ec\<lparr>ec_DposContext := ?e\<rparr>, None)"
    using v(1) vs(1) t(1) by (simp add: elect_epoch_def)
  moreover have "elect_pre K b M ?e"
    using assms(1) v(4) by (simp add: elect_pre_def dpos_rep_def)
  ultimately show ?thesis using t(2) vs(2) by blast
qed

lemma elect_loop_rep:
  assumes "elect_pre K b M (ec_DposContext ec)" "empty_free K" "plain_votes b" "int31n_ok int31n"
    "\<forall>b. 4 \<le> length (K512 b)" "enough_candidates genesis (card (vb_candidates b))" "card (vb_candidates b) < 2 ^ 31"
    "vb_candidates b \<noteq> {}" "is \<noteq> []"
  shows "\<exists>d vs. elect_loop K K512 newSource int31n first genesis parent isGenesis prev is (Some (Inr [])) ec
      = (ec\<lparr>ec_DposContext := d\<rparr>, None)
    \<and> elect_pre K b M d \<and> validators_rep K d vs
    \<and> first_by_address K (nat (sint (hd_MaxValidatorSize genesis))) (vb_candidates b) vs"
  using assms(1,9)
proof (induction "is" arbitrary: ec)
  case (Cons i "is")
  obtain d vs where d: "elect_epoch K K512 newSource int31n genesis parent (word_of_int i) ec = (ec\<lparr>ec_DposContext := d\<rparr>, None)"
    "elect_pre K b M d" "validators_rep K d vs"
    "first_by_address K (nat (sint (hd_MaxValidatorSize genesis))) (vb_candidates b) vs"
    using elect_epoch_rep [OF Cons.prems(1) assms(2-8)] by blast
  then show ?case
    using Cons.IH [of "ec\<lparr>ec_DposContext := d\<rparr>"] by (cases "is = []") (auto simp: iter_Next_def)
qed simp

section \<open>Epochs\<close>

lemma mint_leaves_nil:
  assumes "ptrie K mintCntPrefix t M" "empty_free K" "\<forall>k \<in> dom M. \<not> prefix mintCntPrefix k"
  shows "prefix_leaves K t p = Some (Inr [])"
proof -
  have "trie_ok K t M" "t_prefix t = Some mintCntPrefix" using assms(1) by (simp_all add: ptrie_def)
  then obtain l where l: "prefix_leaves K t p = Some (Inr l)"
      "set l = {(k, v). M k = Some v \<and> prefix (mintCntPrefix @ p) k}"
    using prefix_leaves_ok [OF _ ptrie_root [OF assms(2,1)], of M p] by auto
  have "\<not> prefix (mintCntPrefix @ p) k" if "M k = Some v" for k v
    using assms(3) that append_prefixD by blast
  then have "set l = {}" using l(2) by auto
  then show ?thesis using l(1) by simp
qed

text \<open>\<open>prev_epoch\<close> and \<open>cur_epoch\<close>: the epoch of the parent and of the block.\<close>

abbreviation epoch_of :: "int64 \<Rightarrow> int64" where
  "epoch_of t \<equiv> quot64 t epochInterval"

lemma epochs_nonempty:
  assumes "sint p < sint (c :: int64)"
  shows "[sint (if g then c - 1 else p)..sint c - 1] \<noteq> []"
proof -
  have "sint (c - 1) = sint c - 1"
    using assms sint64_bounds [of c] sint64_bounds(1) [of p] sint64_eq [of "sint c - 1"] by simp
  then show ?thesis using assms by simp
qed


lemma tryElect_start:
  assumes "hd_Time genesis = Some gt" "hd_Time parent = Some pt"
    "sint (epoch_of (big_Int64 pt)) < sint (epoch_of (ec_TimeStamp ec))"
    "ptrie K mintCntPrefix (dc_mintCnt (ec_DposContext ec)) M" "empty_free K" "\<forall>k \<in> dom M. \<not> prefix mintCntPrefix k"
  shows "\<exists>isGenesis prev is t. is \<noteq> [] \<and> ptrie K mintCntPrefix t M
    \<and> tryElect K K512 newSource int31n first genesis parent ec =
        elect_loop K K512 newSource int31n first genesis parent isGenesis prev is (Some (Inr []))
          (ec\<lparr>ec_DposContext := (ec_DposContext ec)\<lparr>dc_mintCnt := t\<rparr>\<rparr>)"
proof -
  let ?c = "epoch_of (ec_TimeStamp ec)" and ?p = "epoch_of (big_Int64 pt)" and ?t = "dc_mintCnt (ec_DposContext ec)"
  define g where "g \<longleftrightarrow> ?p = epoch_of (big_Int64 gt)"
  let ?prev = "if g then ?c - 1 else ?p"
  have "tryElect K K512 newSource int31n first genesis parent ec =
      elect_loop K K512 newSource int31n first genesis parent g ?prev [sint ?prev..sint ?c - 1] (Some (Inr []))
        (ec\<lparr>ec_DposContext := (ec_DposContext ec)\<lparr>dc_mintCnt := snd (trie_Hash K ?t)\<rparr>\<rparr>)"
    using assms(1-3) mint_leaves_nil [OF assms(4-6)] by (simp add: tryElect_def Let_def g_def)
  then show ?thesis using epochs_nonempty [OF assms(3), of g] ptrie_Hash [OF assms(4)] by blast
qed

text \<open>
  C1: Elections ignore the votes. Whenever a block opens a new epoch, its election succeeds, removes
  no candidate, and takes the candidates whose addresses come first in the order of their
  checksummed hexadecimal strings, shuffled: neither the votes nor the balances of the voters
  have any effect. Both the count of the votes and the test for a mint record of the previous
  epoch go through the prefix iterator, which never finds an entry.
\<close>

theorem election_by_address:
  assumes "dpos_rep K (ec_DposContext ec) b" "dc_db (ec_DposContext ec) \<noteq> None"
    "ptrie K mintCntPrefix (dc_mintCnt (ec_DposContext ec)) M" "\<forall>k \<in> dom M. \<not> prefix mintCntPrefix k"
    "plain_votes b" "empty_free K" "int31n_ok int31n" "\<forall>b. 4 \<le> length (K512 b)"
    "vb_candidates b \<noteq> {}" "card (vb_candidates b) < 2 ^ 31"
    "enough_candidates genesis (card (vb_candidates b))"
    "hd_Time genesis = Some gt" "hd_Time parent = Some pt"
    "sint (epoch_of (big_Int64 pt)) < sint (epoch_of (ec_TimeStamp ec))"
  shows "\<exists>ec' vs. tryElect K K512 newSource int31n first genesis parent ec = (ec', None)
    \<and> dpos_rep K (ec_DposContext ec') b \<and> fst (GetValidators (ec_DposContext ec')) = Inr vs
    \<and> first_by_address K (nat (sint (hd_MaxValidatorSize genesis))) (vb_candidates b) vs"
proof -
  obtain isGenesis prev is' t where s: "is' \<noteq> []" "ptrie K mintCntPrefix t M"
      "tryElect K K512 newSource int31n first genesis parent ec =
        elect_loop K K512 newSource int31n first genesis parent isGenesis prev is' (Some (Inr []))
          (ec\<lparr>ec_DposContext := (ec_DposContext ec)\<lparr>dc_mintCnt := t\<rparr>\<rparr>)"
    using tryElect_start [OF assms(12-14,3,6,4)] by blast
  let ?ec = "ec\<lparr>ec_DposContext := (ec_DposContext ec)\<lparr>dc_mintCnt := t\<rparr>\<rparr>"
  have "elect_pre K b M (ec_DposContext ?ec)"
    using assms(1,2) s(2) by (simp add: elect_pre_def dpos_rep_def)
  from elect_loop_rep [OF this assms(6,5,7,8,11,10,9) s(1)]
  obtain d vs where "tryElect K K512 newSource int31n first genesis parent ec = (?ec\<lparr>ec_DposContext := d\<rparr>, None)"
      "elect_pre K b M d" "validators_rep K d vs"
      "first_by_address K (nat (sint (hd_MaxValidatorSize genesis))) (vb_candidates b) vs"
    unfolding s(3) by blast
  moreover from this have "fst (GetValidators d) = Inr vs" using GetValidators_rep by fastforce
  ultimately show ?thesis by (intro exI [of _ "?ec\<lparr>ec_DposContext := d\<rparr>"] exI [of _ vs]) (simp add: elect_pre_def)
qed

lemma tryElect_same_epoch:
  assumes "hd_Time genesis = Some gt" "hd_Time parent = Some pt"
    "sint (epoch_of (ec_TimeStamp ec)) \<le> sint (epoch_of (big_Int64 pt))"
  shows "tryElect K K512 newSource int31n first genesis parent ec =
    (ec\<lparr>ec_DposContext := (ec_DposContext ec)\<lparr>dc_mintCnt := snd (trie_Hash K (dc_mintCnt (ec_DposContext ec)))\<rparr>\<rparr>, None)"
  using assms by (simp add: tryElect_def Let_def)

lemma elect_epoch_few:
  assumes "dpos_rep K (ec_DposContext ec) b" "empty_free K" "plain_votes b"
    "int (card (vb_candidates b)) < sint (quot64 (hd_MaxValidatorSize genesis * 2) 3 + 1)"
  shows "\<exists>ec'. elect_epoch K K512 newSource int31n genesis parent i ec =
      (ec', Some (if vb_candidates b = {} then NoCandidates else TooFewCandidates))
    \<and> dc_epoch (ec_DposContext ec') = dc_epoch (ec_DposContext ec)"
proof (cases "vb_candidates b = {}")
  case True
  then have "trie_leaves K (dc_candidate (ec_DposContext ec)) [] = Some (Inr [])"
    using candidate_leaves [OF assms(1,2)] by auto
  then show ?thesis using True by (simp add: elect_epoch_def countVotes_def Let_def)
next
  case False
  obtain votes ct dt where v: "countVotes K ec =
        (Inr votes, ec\<lparr>ec_DposContext := (ec_DposContext ec)\<lparr>dc_candidate := ct, dc_delegate := dt\<rparr>\<rparr>)"
      "distinct (map fst votes)" "set votes = (\<lambda>c. (c, 0)) ` vb_candidates b"
    using countVotes_rep [OF assms(1-3) False] by blast
  then have "elect K K512 newSource int31n genesis parent i votes = Inl TooFewCandidates"
    using ballot_order(5) [OF v(2,3)] assms(4) by (simp add: elect_def Let_def)
  then show ?thesis using v(1) False by (simp add: elect_epoch_def)
qed

text \<open>
  C35: With fewer candidates than two thirds of the validator size plus one, the election of a new
  epoch fails and the validators stay in place.
\<close>

theorem election_too_few:
  assumes "dpos_rep K (ec_DposContext ec) b" "plain_votes b" "empty_free K"
    "ptrie K mintCntPrefix (dc_mintCnt (ec_DposContext ec)) M" "\<forall>k \<in> dom M. \<not> prefix mintCntPrefix k"
    "int (card (vb_candidates b)) < sint (quot64 (hd_MaxValidatorSize genesis * 2) 3 + 1)"
    "hd_Time genesis = Some gt" "hd_Time parent = Some pt"
    "sint (epoch_of (big_Int64 pt)) < sint (epoch_of (ec_TimeStamp ec))"
  shows "\<exists>ec'. tryElect K K512 newSource int31n first genesis parent ec =
      (ec', Some (if vb_candidates b = {} then NoCandidates else TooFewCandidates))
    \<and> dc_epoch (ec_DposContext ec') = dc_epoch (ec_DposContext ec)"
proof -
  obtain isGenesis prev is' t where s: "is' \<noteq> []" "ptrie K mintCntPrefix t M"
      "tryElect K K512 newSource int31n first genesis parent ec =
        elect_loop K K512 newSource int31n first genesis parent isGenesis prev is' (Some (Inr []))
          (ec\<lparr>ec_DposContext := (ec_DposContext ec)\<lparr>dc_mintCnt := t\<rparr>\<rparr>)"
    using tryElect_start [OF assms(7-9,4,3,5)] by blast
  let ?ec = "ec\<lparr>ec_DposContext := (ec_DposContext ec)\<lparr>dc_mintCnt := t\<rparr>\<rparr>"
  have "dpos_rep K (ec_DposContext ?ec) b" using assms(1) by (simp add: dpos_rep_def)
  from elect_epoch_few [OF this assms(3,2,6)]
  obtain ec' where "elect_epoch K K512 newSource int31n genesis parent (word_of_int (hd is')) ?ec =
        (ec', Some (if vb_candidates b = {} then NoCandidates else TooFewCandidates))"
      "dc_epoch (ec_DposContext ec') = dc_epoch (ec_DposContext ec)"
    by fastforce
  then show ?thesis using s(1) unfolding s(3) by (cases is') (simp_all add: iter_Next_def)
qed


section \<open>Removing inactive validators\<close>

text \<open>The number of blocks the mint table records for a validator in an epoch.\<close>

definition mint_count :: "(bytes \<rightharpoonup> bytes) \<Rightarrow> int64 \<Rightarrow> address \<Rightarrow> int" where
  "mint_count M epoch v =
     (case M (putUint64 epoch @ v) of None \<Rightarrow> 0 | Some b \<Rightarrow> sint (the (getUint64 b)))"

lemma inactive_validators_rep:
  assumes "ptrie K mintCntPrefix t M" "\<forall>k v. M k = Some v \<longrightarrow> 8 \<le> length v" "bi \<noteq> 0" "mx \<noteq> 0"
  shows "\<exists>t'. inactive_validators epoch dur bi mx vs t =
      Inr (map (\<lambda>v. (v, mint_count M epoch v))
            (filter (\<lambda>v. mint_count M epoch v < sint (quot64 (quot64 (quot64 dur bi) mx) 2)) vs), t')
    \<and> ptrie K mintCntPrefix t' M"
  using assms(1)
proof (induction vs arbitrary: t)
  case (Cons v vs)
  obtain t1 where t1: "Get t (putUint64 epoch @ v) = Inr (M (putUint64 epoch @ v), t1)" "ptrie K mintCntPrefix t1 M"
    using ptrie_Get [OF Cons.prems] by blast
  have "(case M (putUint64 epoch @ v) of None \<Rightarrow> Some 0 | Some b \<Rightarrow> getUint64 b) \<noteq> None"
    using assms(2) [rule_format, of "putUint64 epoch @ v"]
    by (cases "M (putUint64 epoch @ v)") (auto simp: getUint64_def)
  then obtain cnt where cnt: "(case M (putUint64 epoch @ v) of None \<Rightarrow> Some 0 | Some b \<Rightarrow> getUint64 b) = Some cnt" by blast
  then have "sint cnt = mint_count M epoch v" by (auto simp: mint_count_def split: option.splits)
  then show ?case using Cons.IH [OF t1(2)] t1(1) cnt assms(3,4) by auto
qed simp

lemma count_up_to_eq:
  "cnt < limit \<Longrightarrow> count_up_to limit cnt xs = min limit (cnt + int (length xs))"
  by (induction limit cnt xs rule: count_up_to.induct) auto

lemma kickout_all_rep:
  assumes "dpos_rep K d b" "empty_free K" "plain_votes b"
  shows "\<exists>d'. kickout_all K safe cnt needs d = (d', None)
    \<and> dpos_rep K d' (b\<lparr>vb_candidates := vb_candidates b - set (map fst (take (nat (cnt - safe)) needs))\<rparr>)"
  using assms(1,3)
proof (induction needs arbitrary: cnt d b)
  case (Cons v vs)
  show ?case
  proof (cases "cnt \<le> safe")
    case False
    let ?b = "b\<lparr>vb_candidates := vb_candidates b - {fst v}\<rparr>"
    obtain d1 where d1: "KickoutCandidate K d (fst v) = (d1, None)" "dpos_rep K d1 ?b"
      using KickoutCandidate_rep [OF Cons.prems(1) assms(2), of "fst v"] Cons.prems(2) unfolding plain_votes_def by blast
    have p: "plain_votes ?b" using Cons.prems(2) by (simp add: plain_votes_def)
    have n: "nat (cnt - safe) = Suc (nat (cnt - 1 - safe))" using False by simp
    have "vb_candidates b - {fst v} - S = vb_candidates b - insert (fst v) S" for S by blast
    then show ?thesis using Cons.IH [OF d1(2) p, of "cnt - 1"] d1(1) False by (simp add: n)
  qed (use Cons.prems in simp)
qed simp


lemma take_least:
  assumes "sorted_wrt (\<lambda>x y. snd x \<le> (snd y :: int)) xs" "\<forall>x \<in> set xs. snd x = f (fst x)"
    "v \<in> set (map fst (take n xs))" "w \<in> set (map fst xs) - set (map fst (take n xs))"
  shows "f v \<le> f w"
proof -
  obtain x where x: "x \<in> set (take n xs)" "fst x = v" using assms(3) by auto
  obtain y where y: "y \<in> set xs" "fst y = w" "y \<notin> set (take n xs)" using assms(4) by auto
  have "y \<in> set (drop n xs)" using y(1,3) set_append [of "take n xs" "drop n xs"] by simp
  moreover have "sorted_wrt (\<lambda>x y. snd x \<le> snd y) (take n xs @ drop n xs)" using assms(1) by simp
  ultimately have "snd x \<le> snd y" using x(1) by (simp only: sorted_wrt_append)
  moreover have "x \<in> set xs" using x(1) in_set_takeD by metis
  ultimately show ?thesis using assms(2) x(2) y(1,2) by metis
qed

lemma kickout_inactive_rep:
  assumes "dpos_rep K d b" "empty_free K" "plain_votes b"
    "0 < sint safe" "int (length needs) + sint safe < 2 ^ 63"
  shows "\<exists>d' n. kickout_inactive K safe needs d = (d', None)
    \<and> int n \<le> max 0 (int (card (vb_candidates b)) - sint safe)
    \<and> dpos_rep K d' (b\<lparr>vb_candidates := vb_candidates b -
          set (map fst (take n (sort_Sort (sort_Reverse (Less K)) needs)))\<rparr>)"
proof (cases "needs = []")
  case True
  then show ?thesis using assms(1) by (auto simp: kickout_inactive_def sort_Sort_def intro!: exI [of _ 0])
next
  case False
  let ?S = "sort_Sort (sort_Reverse (Less K)) needs" and ?C = "vb_candidates b"
  obtain kvs where kvs: "trie_leaves K (dc_candidate d) [] = Some (Inr kvs)" "set kvs = (\<lambda>c. (c, c)) ` ?C" "distinct kvs"
    using candidate_leaves [OF assms(1,2)] by blast
  have card: "length kvs = card ?C"
    using distinct_card [OF kvs(3)] kvs(2) by (simp add: card_image inj_on_def)
  have len: "length ?S = length needs" using reverse_order.mset_sort_Sort [of K needs] size_mset by metis
  have "word_of_nat (length ?S) + safe = word_of_int (int (length needs) + sint safe)" using len by simp
  then have limit: "sint (word_of_nat (length ?S) + safe) = int (length needs) + sint safe"
    using assms(4,5) sint64_eq [of "int (length needs) + sint safe"] by simp
  let ?n = "nat (count_up_to (sint (word_of_nat (length ?S) + safe)) 0 kvs - sint safe)"
  have n: "int ?n \<le> max 0 (int (card ?C) - sint safe)"
    unfolding limit using assms(4) by (simp add: count_up_to_eq card)
  have "dpos_rep K (d\<lparr>dc_candidate := snd (trie_Hash K (dc_candidate d))\<rparr>) b"
    using assms(1) ptrie_Hash by (auto simp: dpos_rep_def)
  then show ?thesis
    using kickout_all_rep [OF _ assms(2,3)] kvs(1) False n unfolding kickout_inactive_def Let_def by fastforce
qed

text \<open>
  C9: \<open>kickoutValidator\<close> removes only validators that minted less than half of their share in the
  epoch, the least active first, and leaves at least a quorum of candidates, where a quorum is two
  thirds of the validator size plus one, or all candidates if they are fewer.
\<close>

theorem kickout_keeps_quorum:
  assumes "dpos_rep K (ec_DposContext ec) b" "validators_rep K (ec_DposContext ec) vs" "vs \<noteq> []"
    "ptrie K mintCntPrefix (dc_mintCnt (ec_DposContext ec)) M" "\<forall>k v. M k = Some v \<longrightarrow> 8 \<le> length v"
    "empty_free K" "plain_votes b" "hd_BlockInterval genesis \<noteq> 0" "hd_MaxValidatorSize genesis \<noteq> 0"
    "safe = hd_MaxValidatorSize genesis * 2 div 3 + 1" "0 < sint safe" "int (length vs) + sint safe < 2 ^ 63"
    "since = ec_TimeStamp ec - first" "dur = (if sint since < 60 then since else 60)"
    "share = quot64 (quot64 dur (hd_BlockInterval genesis)) (hd_MaxValidatorSize genesis)"
    "inactive = {v \<in> set vs. mint_count M epoch v < sint (quot64 share 2)}"
  shows "\<exists>ec' gone. kickoutValidator K first ec epoch genesis = (ec', None)
    \<and> dpos_rep K (ec_DposContext ec') (b\<lparr>vb_candidates := vb_candidates b - gone\<rparr>)
    \<and> gone \<subseteq> inactive \<and> (\<forall>v \<in> gone. \<forall>w \<in> inactive - gone. mint_count M epoch v \<le> mint_count M epoch w)
    \<and> min (int (card (vb_candidates b))) (sint safe) \<le> int (card (vb_candidates b - gone))"
proof -
  let ?f = "mint_count M epoch" and ?d = "ec_DposContext ec" and ?C = "vb_candidates b"
  let ?needs = "map (\<lambda>v. (v, ?f v)) (filter (\<lambda>v. ?f v < sint (quot64 share 2)) vs)"
  let ?S = "sort_Sort (sort_Reverse (Less K)) ?needs"
  obtain t where t: "GetValidators ?d = (Inr vs, ?d\<lparr>dc_epoch := t\<rparr>)" using GetValidators_rep [OF assms(2)] by blast
  obtain u where u: "inactive_validators epoch dur (hd_BlockInterval genesis) (hd_MaxValidatorSize genesis) vs (dc_mintCnt ?d)
      = Inr (?needs, u)"
    using inactive_validators_rep [OF assms(4,5,8,9)] assms(15) by blast
  have d: "dpos_rep K (?d\<lparr>dc_epoch := t, dc_mintCnt := u\<rparr>) b" using assms(1) by (simp add: dpos_rep_def)
  have "int (length ?needs) + sint safe < 2 ^ 63"
    using assms(12) length_filter_le [of "\<lambda>v. ?f v < sint (quot64 share 2)" vs] by (simp del: length_filter_le)
  from kickout_inactive_rep [OF d assms(6,7,11) this]
  obtain d' n where d': "kickout_inactive K safe ?needs (?d\<lparr>dc_epoch := t, dc_mintCnt := u\<rparr>) = (d', None)"
      "int n \<le> max 0 (int (card ?C) - sint safe)" "dpos_rep K d' (b\<lparr>vb_candidates := ?C - set (map fst (take n ?S))\<rparr>)"
    by blast
  have "dur = (if sint (ec_TimeStamp ec - first) < sint epochInterval then ec_TimeStamp ec - first else epochInterval)"
    using assms(13,14) by (simp add: epochInterval_def)
  then have "kickoutValidator K first ec epoch genesis = (ec\<lparr>ec_DposContext := d'\<rparr>, None)"
    using t u d'(1) assms(3) unfolding kickoutValidator_def Let_def assms(10) by simp
  moreover have S: "set ?S = set ?needs" using reverse_order.mset_sort_Sort [of K ?needs] by (rule mset_eq_setD)
  then have i: "set (map fst ?S) = inactive" using assms(16) by (auto simp: image_image)
  moreover have "sorted_wrt (\<lambda>x y. snd x \<le> snd y) ?S"
    by (rule sorted_wrt_mono_rel [OF _ reverse_order.sort_Sort_sorted]) (auto simp: sort_Reverse_def Less_def split: if_splits)
  then have "\<forall>v \<in> set (map fst (take n ?S)). \<forall>w \<in> inactive - set (map fst (take n ?S)). ?f v \<le> ?f w"
    using take_least [of ?S ?f _ n] S i by auto
  moreover have "set (map fst (take n ?S)) \<subseteq> inactive"
    unfolding i [symmetric] set_map by (intro image_mono set_take_subset)
  moreover have "card (set (map fst (take n ?S))) \<le> n"
    using card_length [of "map fst (take n ?S)"] by simp
  then have "int (card ?C) - int n \<le> int (card (?C - set (map fst (take n ?S))))"
    using diff_card_le_card_Diff [of "set (map fst (take n ?S))" ?C] by simp
  then have "min (int (card ?C)) (sint safe) \<le> int (card (?C - set (map fst (take n ?S))))"
    using d'(2) by linarith
  moreover have "dpos_rep K (ec_DposContext (ec\<lparr>ec_DposContext := d'\<rparr>)) (b\<lparr>vb_candidates := ?C - set (map fst (take n ?S))\<rparr>)"
    using d'(3) by simp
  ultimately show ?thesis by blast
qed

text \<open>
  C31: Nodes agree on an election although Go visits a map in no fixed order: the elected list depends
  only on the multiset of candidates and scores, and the sorted list is the same for every
  sorting algorithm.
\<close>

theorem election_order_independent:
  assumes "mset votes = mset votes'"
  shows "elect K K512 newSource int31n genesis parent i votes = elect K K512 newSource int31n genesis parent i votes'
    \<and> (\<forall>srt. mset srt = mset votes \<and> sorted_wrt (\<lambda>p q. \<not> Less K q p) srt \<longrightarrow> sort_Sort (Less K) votes' = srt)"
proof -
  have "length votes = length votes'" using assms size_mset by metis
  moreover have "sort_Sort (Less K) votes = sort_Sort (Less K) votes'" by (rule less_order.sort_Sort_mset [OF assms])
  moreover have "sort_Sort (Less K) votes' = srt" if "mset srt = mset votes" "sorted_wrt (\<lambda>p q. \<not> Less K q p) srt" for srt
    using less_order.sort_Sort_unique [of votes' srt K] assms that by simp
  ultimately show ?thesis by (simp add: elect_def Let_def)
qed

theorem election_order_independent_witness:
  "elect ne_hash (\<lambda>b. replicate 64 0) (\<lambda>s. ()) (\<lambda>g n. (0, g)) sample_header sample_header 0 [(addr 1, 2), (addr 2, 3)] =
   elect ne_hash (\<lambda>b. replicate 64 0) (\<lambda>s. ()) (\<lambda>g n. (0, g)) sample_header sample_header 0 [(addr 2, 3), (addr 1, 2)]"
proof -
  have "mset [(addr 1, 2 :: int), (addr 2, 3)] = mset [(addr 2, 3), (addr 1, 2)]" by simp
  from election_order_independent [OF this] show ?thesis by blast
qed

section \<open>Time slots\<close>

lemma sint64_of_nat: "n < 2 ^ 63 \<Longrightarrow> sint (word_of_nat n :: int64) = int n"
  using sint64_eq [of "int n"] by simp

lemma lookupValidator_eq:
  assumes "validators_rep K (ec_DposContext ec) vs" "vs \<noteq> []" "0 \<le> sint now" "0 < sint bi"
  shows "fst (lookupValidator ec now bi) =
    (if sint now mod 60 mod sint bi = 0
     then Inr (vs ! nat (sint now mod 60 div sint bi mod int (length vs)))
     else Inl ErrInvalidMintBlockTime)"
proof -
  let ?o = "rem64 now epochInterval"
  have o: "sint ?o = sint now mod 60" "0 \<le> sint ?o"
    using sint_rem64 [OF assms(3), of epochInterval] by (simp_all add: epochInterval_def)
  have r: "sint (rem64 ?o bi) = sint now mod 60 mod sint bi"
    using sint_rem64 [OF o(2) assms(4)] o(1) by simp
  have q: "sint (quot64 ?o bi) = sint now mod 60 div sint bi" "0 \<le> sint (quot64 ?o bi)"
    using sint_quot64 [OF o(2) assms(4)] o assms(4) by (simp_all add: pos_imp_zdiv_nonneg_iff)
  have l: "length vs < 2 ^ 32" using assms(1) by (simp add: validators_rep_def)
  then have n: "sint (word_of_nat (length vs) :: int64) = int (length vs)" by (intro sint64_of_nat) simp
  have i: "sint (rem64 (quot64 ?o bi) (word_of_nat (length vs))) = sint now mod 60 div sint bi mod int (length vs)"
    using sint_rem64 [OF q(2), of "word_of_nat (length vs)"] q(1) n assms(2) by simp
  have "rem64 ?o bi = 0 \<longleftrightarrow> sint now mod 60 mod sint bi = 0"
    using r by (metis signed_0 signed_eq_0_iff)
  moreover have "bi \<noteq> 0" using assms(4) by auto
  moreover obtain t where "GetValidators (ec_DposContext ec) = (Inr vs, (ec_DposContext ec)\<lparr>dc_epoch := t\<rparr>)"
    using GetValidators_rep [OF assms(1)] by blast
  moreover define j where "j = sint now mod 60 div sint bi mod int (length vs)"
  have "0 \<le> j" "j < int (length vs)" using assms(2) by (simp_all add: j_def)
  ultimately show ?thesis using i assms(2) by (simp add: lookupValidator_def Let_def flip: j_def)
qed


lemma card_residue:
  assumes "k < n"
  shows "s div n \<le> card {j. j < s \<and> j mod n = (k :: nat)}" "card {j. j < s \<and> j mod n = k} \<le> s div n + 1"
proof -
  let ?A = "{j. j < s \<and> j mod n = k}"
  have inj: "inj_on (\<lambda>q. q * n + k) A" for A using assms by (auto simp: inj_on_def)
  have "q * n + k < s" if "q < s div n" for q
  proof -
    have "q * n + k < (q + 1) * n" using assms by simp
    also have "\<dots> \<le> (s div n) * n" using that by (intro mult_le_mono1) simp
    finally show ?thesis using div_mult_mod_eq [of s n] by linarith
  qed
  then have "(\<lambda>q. q * n + k) ` {..<s div n} \<subseteq> ?A" using assms by auto
  from card_mono [OF _ this] show "s div n \<le> card ?A" by (simp add: card_image inj)
  have "?A \<subseteq> (\<lambda>q. q * n + k) ` {..s div n}"
  proof
    fix j assume j: "j \<in> ?A"
    then have "j = (j div n) * n + k" "j div n \<le> s div n" using div_mult_mod_eq [of j n] by (auto intro: div_le_mono)
    then show "j \<in> (\<lambda>q. q * n + k) ` {..s div n}" by blast
  qed
  from card_mono [OF _ this] show "card ?A \<le> s div n + 1" by (simp add: card_image inj)
qed

lemma slot_set:
  assumes "0 < (b :: nat)"
  shows "{x. x < 60 \<and> x mod b = 0 \<and> x div b mod n = k} = (\<lambda>j. j * b) ` {j. j < 59 div b + 1 \<and> j mod n = k}"
proof -
  have "x \<in> (\<lambda>j. j * b) ` {j. j < 59 div b + 1 \<and> j mod n = k}" if "x < 60" "x mod b = 0" "x div b mod n = k" for x
  proof
    show "x = x div b * b" using that(2) by auto
    show "x div b \<in> {j. j < 59 div b + 1 \<and> j mod n = k}" using that div_le_mono [of x 59 b] by auto
  qed
  moreover have "j * b < 60" if "j < 59 div b + 1" for j
    using that assms by (simp add: less_eq_div_iff_mult_less_eq less_Suc_eq_le)
  ultimately show ?thesis using assms by auto
qed

text \<open>
  C10: The validators take turns. In every epoch the slots are the seconds that are a multiple of the
  block interval after its start, each slot belongs to one validator, and any two validators own
  numbers of slots that differ by at most one; a validator is never without a slot when an epoch has
  as many slots as validators.
\<close>

theorem slots_round_robin:
  assumes "validators_rep K (ec_DposContext ec) vs" "distinct vs" "v \<in> set vs" "0 < sint bi"
    "60 * e + 59 < 2 ^ 63"
    "turns = card {x. x < 60 \<and> fst (lookupValidator ec (word_of_nat (60 * e + x)) bi) = Inr v}"
    "slots = 59 div nat (sint bi) + 1"
  shows "slots div length vs \<le> turns \<and> turns \<le> slots div length vs + 1"
proof -
  obtain nb where nb: "sint bi = int nb" "0 < nb" using assms(4) by (metis zero_less_imp_eq_int)
  obtain k where k: "k < length vs" "v = vs ! k" using assms(3) by (auto simp: in_set_conv_nth)
  have "fst (lookupValidator ec (word_of_nat (60 * e + x)) bi) = Inr v \<longleftrightarrow> x mod nb = 0 \<and> x div nb mod length vs = k"
    if "x < 60" for x
  proof -
    have ne: "vs \<noteq> []" using assms(3) by auto
    have now: "sint (word_of_nat (60 * e + x) :: int64) = int (60 * e + x)"
      using assms(5) that by (intro sint64_of_nat) simp
    moreover have "int (60 * e + x) mod 60 = int x" using that by (simp flip: zmod_int)
    ultimately have "fst (lookupValidator ec (word_of_nat (60 * e + x)) bi) =
        (if int x mod int nb = 0 then Inr (vs ! nat (int x div int nb mod int (length vs))) else Inl ErrInvalidMintBlockTime)"
      using lookupValidator_eq [OF assms(1) _ _ assms(4), of "word_of_nat (60 * e + x)"] ne nb(1) by simp
    moreover have "nat (int x div int nb mod int (length vs)) = x div nb mod length vs"
      by (simp add: nat_int flip: zdiv_int zmod_int)
    moreover have "int x mod int nb = 0 \<longleftrightarrow> x mod nb = 0" by (metis of_nat_0_eq_iff zmod_int)
    ultimately show ?thesis
      using ne k nth_eq_iff_index_eq [OF assms(2) mod_less_divisor k(1), of "x div nb"] by auto
  qed
  then have "turns = card ((\<lambda>j. j * nb) ` {j. j < slots \<and> j mod length vs = k})"
    using slot_set [of nb "length vs" k] nb assms(6,7) by (simp cong: conj_cong)
  then have "turns = card {j. j < slots \<and> j mod length vs = k}"
    using nb(2) by (simp add: card_image inj_on_def)
  then show ?thesis using card_residue [OF k(1), of slots] by simp
qed


section \<open>Examples\<close>

lemma vote_step_frame:
  "dc_db (fst (vote_step a d)) = dc_db d" "dc_mintCnt (fst (vote_step a d)) = dc_mintCnt d"
  "dc_epoch (fst (vote_step a d)) = dc_epoch d"
  by (cases a; auto simp: BecomeCandidate_def Delegate_def delegate_to_def UnDelegate_def Let_def
      split: sum.splits prod.splits option.splits if_splits)+

text \<open>A context with two candidates and one vote, its validators installed.\<close>

lemma sample_election_ctx:
  "\<exists>d. dpos_rep ne_hash d \<lparr>vb_candidates = {addr 1, addr 2}, vb_votes = [addr 3 \<mapsto> addr 2]\<rparr>
    \<and> validators_rep ne_hash d [addr 1, addr 2]
    \<and> ptrie ne_hash mintCntPrefix (dc_mintCnt d) Map.empty \<and> dc_db d \<noteq> None"
proof -
  let ?K = ne_hash
  define d1 where "d1 = fst (vote_step (OBecome (addr 1)) sample_ctx)"
  define d2 where "d2 = fst (vote_step (OBecome (addr 2)) d1)"
  define d3 where "d3 = fst (vote_step (ODelegate (addr 3) (addr 2)) d2)"
  have "dpos_rep ?K d1 \<lparr>vb_candidates = {addr 1}, vb_votes = Map.empty\<rparr>"
    using BecomeCandidate_rep [OF sample_ctx_rep, of "addr 1" ?K] unfolding d1_def
    by (auto simp: is_addr_length book_become_def empty_book_def)
  then have "dpos_rep ?K d2 \<lparr>vb_candidates = {addr 1, addr 2}, vb_votes = Map.empty\<rparr>"
    using BecomeCandidate_rep [of ?K d1 _ "addr 2"] unfolding d2_def
    by (fastforce simp: is_addr_length book_become_def insert_commute)
  then have d3: "dpos_rep ?K d3 \<lparr>vb_candidates = {addr 1, addr 2}, vb_votes = [addr 3 \<mapsto> addr 2]\<rparr>"
    using Delegate_rep [of ?K d2 _ "addr 2" "addr 3"] unfolding d3_def
    by (fastforce simp: is_addr_length book_delegate_def)
  have f: "dc_db d3 = dc_db sample_ctx" "dc_mintCnt d3 = dc_mintCnt sample_ctx" "dc_epoch d3 = dc_epoch sample_ctx"
    by (simp_all only: d3_def d2_def d1_def vote_step_frame)
  have p: "ptrie ?K mintCntPrefix (dc_mintCnt sample_ctx) Map.empty" "ptrie ?K epochPrefix (dc_epoch sample_ctx) Map.empty"
    using nil_trie_ok by (simp_all add: ptrie_def sample_ctx_def Let_def)
  obtain t where "validators_rep ?K (d3\<lparr>dc_epoch := t\<rparr>) [addr 1, addr 2]"
    using SetValidators_rep [of ?K d3 Map.empty "[addr 1, addr 2]"] p(2) f(3) by (auto simp: is_addr_length)
  moreover have "dc_db sample_ctx \<noteq> None" by (simp add: sample_ctx_def Let_def)
  ultimately show ?thesis
    using d3 p(1) f by (intro exI [of _ "d3\<lparr>dc_epoch := t\<rparr>"]) (simp add: dpos_rep_def)
qed

definition sample_genesis :: header where
  "sample_genesis = sample_header\<lparr>hd_Number := Some 0, hd_Time := Some 0, hd_MaxValidatorSize := 2\<rparr>"

lemma addr_neq: "addr 1 \<noteq> addr 2" "addr 2 \<noteq> addr 3" "addr 1 \<noteq> addr 3"
  by (simp_all add: numeral_eq_Suc)

lemma sample_plain: "plain_votes \<lparr>vb_candidates = C, vb_votes = [addr 3 \<mapsto> addr 2]\<rparr>"
proof -
  have "\<not> prefix delegatePrefix (addr 2)"
  proof
    assume "prefix delegatePrefix (addr 2)"
    then obtain z where "addr 2 = delegatePrefix @ z" by (auto elim: prefixE)
    from arg_cong [OF this, of hd] show False by (simp add: delegatePrefix_def)
  qed
  then show ?thesis by (simp add: plain_votes_def)
qed

theorem election_by_address_witness:
  "\<exists>ec ec' vs. tryElect ne_hash (\<lambda>b. replicate 64 0) (\<lambda>s. ()) (\<lambda>g n. (0, g)) 0 sample_genesis sample_header ec = (ec', None)
    \<and> fst (GetValidators (ec_DposContext ec')) = Inr vs
    \<and> first_by_address ne_hash 2 {addr 1, addr 2} vs"
proof -
  let ?b = "\<lparr>vb_candidates = {addr 1, addr 2}, vb_votes = [addr 3 \<mapsto> addr 2]\<rparr>"
  obtain d where d: "dpos_rep ne_hash d ?b" "ptrie ne_hash mintCntPrefix (dc_mintCnt d) Map.empty" "dc_db d \<noteq> None"
    using sample_election_ctx by blast
  let ?ec = "\<lparr>ec_TimeStamp = 61, ec_DposContext = d, ec_balance = (\<lambda>a. 5)\<rparr>"
  have c: "card (vb_candidates ?b) = 2" using addr_neq by simp
  have r: "int31n_ok (\<lambda>g n. (0 :: uint32, g))"
    by (auto simp: int31n_ok_def word_gt_0 intro: ccontr)
  have e: "enough_candidates sample_genesis (card (vb_candidates ?b))"
    unfolding c by (simp add: enough_candidates_def sample_genesis_def quot64_def signed_divide_int_def)
  have t: "sint (epoch_of (big_Int64 1)) < sint (epoch_of (ec_TimeStamp ?ec))"
    by (simp add: quot64_def big_Int64_def epochInterval_def signed_divide_int_def)
  show ?thesis
    using election_by_address [of ne_hash ?ec ?b Map.empty "\<lambda>g n. (0, g)" "\<lambda>b. replicate 64 0" sample_genesis 0
        sample_header 1 "\<lambda>s. ()" 0] d sample_plain ne_hash_empty_free r c e t
    by (fastforce simp: sample_genesis_def sample_header_def)
qed


theorem election_too_few_witness:
  "\<exists>ec'. tryElect ne_hash (\<lambda>b. replicate 64 0) (\<lambda>s. ()) (\<lambda>g n. (0, g)) 0 sample_genesis sample_header
      \<lparr>ec_TimeStamp = 61, ec_DposContext = sample_ctx, ec_balance = (\<lambda>a. 5)\<rparr> = (ec', Some NoCandidates)"
proof -
  let ?ec = "\<lparr>ec_TimeStamp = 61, ec_DposContext = sample_ctx, ec_balance = (\<lambda>a. 5)\<rparr>"
  have m: "ptrie ne_hash mintCntPrefix (dc_mintCnt sample_ctx) Map.empty"
    using nil_trie_ok by (simp add: ptrie_def sample_ctx_def Let_def)
  have t: "sint (epoch_of (big_Int64 1)) < sint (epoch_of (ec_TimeStamp ?ec))"
    by (simp add: quot64_def big_Int64_def epochInterval_def signed_divide_int_def)
  have e: "int (card (vb_candidates empty_book)) < sint (quot64 (hd_MaxValidatorSize sample_genesis * 2) 3 + 1)"
    by (simp add: empty_book_def sample_genesis_def quot64_def signed_divide_int_def)
  have "plain_votes empty_book" by (simp add: plain_votes_def empty_book_def)
  then show ?thesis
    using election_too_few [of ne_hash ?ec empty_book Map.empty sample_genesis 0 sample_header 1
        "\<lambda>b. replicate 64 0" "\<lambda>s. ()" "\<lambda>g n. (0, g)" 0] sample_ctx_rep [of ne_hash] ne_hash_empty_free m t e
    by (auto simp: sample_genesis_def sample_header_def empty_book_def)
qed

theorem kickout_keeps_quorum_witness:
  "\<exists>ec ec' gone. kickoutValidator ne_hash 0 ec 1 (sample_genesis\<lparr>hd_BlockInterval := 5\<rparr>) = (ec', None)
    \<and> gone \<subseteq> {addr 1, addr 2} \<and> 2 \<le> card ({addr 1, addr 2} - gone)"
proof -
  let ?b = "\<lparr>vb_candidates = {addr 1, addr 2}, vb_votes = [addr 3 \<mapsto> addr 2]\<rparr>"
  obtain d where d: "dpos_rep ne_hash d ?b" "validators_rep ne_hash d [addr 1, addr 2]"
      "ptrie ne_hash mintCntPrefix (dc_mintCnt d) Map.empty"
    using sample_election_ctx by blast
  let ?ec = "\<lparr>ec_TimeStamp = 121, ec_DposContext = d, ec_balance = (\<lambda>a. 5)\<rparr>" and ?g = "sample_genesis\<lparr>hd_BlockInterval := 5\<rparr>"
  have s: "hd_MaxValidatorSize ?g * 2 div 3 + 1 = 2" by (simp add: sample_genesis_def)
  have c: "card (vb_candidates ?b) = 2" using addr_neq by simp
  from kickout_keeps_quorum [of ne_hash ?ec ?b "[addr 1, addr 2]" Map.empty ?g 2 121 0 60 6 _ 1] d ne_hash_empty_free sample_plain
  obtain ec' gone where "kickoutValidator ne_hash 0 ?ec 1 ?g = (ec', None)"
      "gone \<subseteq> {v \<in> set [addr 1, addr 2]. mint_count Map.empty 1 v < sint (quot64 6 2)}"
      "min (int (card (vb_candidates ?b))) 2 \<le> int (card (vb_candidates ?b - gone))"
    using s by (fastforce simp: sample_genesis_def sample_header_def quot64_def signed_divide_int_def)
  then show ?thesis using c by fastforce
qed

theorem slots_round_robin_witness:
  "\<exists>ec. card {x. x < 60 \<and> fst (lookupValidator ec (word_of_nat (60 * 7 + x)) 10) = Inr (addr 2)} \<in> {3, 4}"
proof -
  obtain d where d: "validators_rep ne_hash d [addr 1, addr 2]" using sample_election_ctx by blast
  let ?ec = "\<lparr>ec_TimeStamp = 0, ec_DposContext = d, ec_balance = (\<lambda>a. 0)\<rparr>"
  have "3 \<le> card {x. x < 60 \<and> fst (lookupValidator ?ec (word_of_nat (60 * 7 + x)) 10) = Inr (addr 2)} \<and>
      card {x. x < 60 \<and> fst (lookupValidator ?ec (word_of_nat (60 * 7 + x)) 10) = Inr (addr 2)} \<le> 3 + 1"
    using slots_round_robin [of ne_hash ?ec "[addr 1, addr 2]" "addr 2" 10 7 _ 6] d addr_neq by (simp flip: numeral_2_eq_2)
  then have "card {x. x < 60 \<and> fst (lookupValidator ?ec (word_of_nat (60 * 7 + x)) 10) = Inr (addr 2)} \<in> {3, 4}" by auto
  then show ?thesis by blast
qed

end
