(* ===== verification/Chain_Config.thy ===== *)
theory Chain_Config
  imports Prelude
begin

text \<open>
  Chain configurations (\<open>params/config.go\<close>, \<open>params/gas_table.go\<close>): the blocks at which the rule
  changes (forks) start, the rules and gas prices of a block, and the comparison of the stored
  configuration of a chain with a new one.
\<close>

section \<open>Configurations\<close>

record dposConfig =
  dp_Validators :: "address list"
  dp_MaxValidatorSize :: uint64
  dp_BlockInterval :: uint64

record cliqueConfig =
  cl_Period :: uint64
  cl_Epoch :: uint64

record chainConfig =
  cc_ChainID :: "int option"
  cc_HomesteadBlock :: "int option"
  cc_DAOForkBlock :: "int option"
  cc_DAOForkSupport :: bool
  cc_EIP150Block :: "int option"
  cc_EIP150Hash :: hash
  cc_EIP155Block :: "int option"
  cc_EIP158Block :: "int option"
  cc_ByzantiumBlock :: "int option"
  cc_ConstantinopleBlock :: "int option"
  cc_Ethash :: "unit option"
  cc_Clique :: "cliqueConfig option"
  cc_Dpos :: "dposConfig option"

definition DposChainConfig :: chainConfig where
  "DposChainConfig = \<lparr>cc_ChainID = Some 5, cc_HomesteadBlock = Some 0, cc_DAOForkBlock = None,
     cc_DAOForkSupport = False, cc_EIP150Block = Some 0, cc_EIP150Hash = zeroHash, cc_EIP155Block = Some 0,
     cc_EIP158Block = Some 0, cc_ByzantiumBlock = Some 0, cc_ConstantinopleBlock = None, cc_Ethash = None,
     cc_Clique = None, cc_Dpos = Some \<lparr>dp_Validators = [], dp_MaxValidatorSize = 0, dp_BlockInterval = 0\<rparr>\<rparr>"

definition isForked :: "int option \<Rightarrow> int option \<Rightarrow> bool" where
  "isForked s head = (case (s, head) of (Some s, Some head) \<Rightarrow> s \<le> head | _ \<Rightarrow> False)"

definition IsHomestead :: "chainConfig \<Rightarrow> int option \<Rightarrow> bool" where
  "IsHomestead c num = isForked (cc_HomesteadBlock c) num"

definition IsDAOFork :: "chainConfig \<Rightarrow> int option \<Rightarrow> bool" where
  "IsDAOFork c num = isForked (cc_DAOForkBlock c) num"

definition IsEIP150 :: "chainConfig \<Rightarrow> int option \<Rightarrow> bool" where
  "IsEIP150 c num = isForked (cc_EIP150Block c) num"

definition IsEIP155 :: "chainConfig \<Rightarrow> int option \<Rightarrow> bool" where
  "IsEIP155 c num = isForked (cc_EIP155Block c) num"

definition IsEIP158 :: "chainConfig \<Rightarrow> int option \<Rightarrow> bool" where
  "IsEIP158 c num = isForked (cc_EIP158Block c) num"

definition IsByzantium :: "chainConfig \<Rightarrow> int option \<Rightarrow> bool" where
  "IsByzantium c num = isForked (cc_ByzantiumBlock c) num"

definition IsConstantinople :: "chainConfig \<Rightarrow> int option \<Rightarrow> bool" where
  "IsConstantinople c num = isForked (cc_ConstantinopleBlock c) num"

section \<open>Gas prices and rules\<close>

record gasTable =
  gt_ExtcodeSize :: uint64
  gt_ExtcodeCopy :: uint64
  gt_ExtcodeHash :: uint64
  gt_Balance :: uint64
  gt_SLoad :: uint64
  gt_Calls :: uint64
  gt_Suicide :: uint64
  gt_ExpByte :: uint64
  gt_CreateBySuicide :: uint64

definition GasTableHomestead :: gasTable where
  "GasTableHomestead = \<lparr>gt_ExtcodeSize = 20, gt_ExtcodeCopy = 20, gt_ExtcodeHash = 0, gt_Balance = 20,
     gt_SLoad = 50, gt_Calls = 40, gt_Suicide = 0, gt_ExpByte = 10, gt_CreateBySuicide = 0\<rparr>"

definition GasTableEIP150 :: gasTable where
  "GasTableEIP150 = \<lparr>gt_ExtcodeSize = 700, gt_ExtcodeCopy = 700, gt_ExtcodeHash = 0, gt_Balance = 400,
     gt_SLoad = 200, gt_Calls = 700, gt_Suicide = 5000, gt_ExpByte = 10, gt_CreateBySuicide = 25000\<rparr>"

definition GasTableEIP158 :: gasTable where
  "GasTableEIP158 = \<lparr>gt_ExtcodeSize = 700, gt_ExtcodeCopy = 700, gt_ExtcodeHash = 0, gt_Balance = 400,
     gt_SLoad = 200, gt_Calls = 700, gt_Suicide = 5000, gt_ExpByte = 50, gt_CreateBySuicide = 25000\<rparr>"

definition GasTableConstantinople :: gasTable where
  "GasTableConstantinople = \<lparr>gt_ExtcodeSize = 700, gt_ExtcodeCopy = 700, gt_ExtcodeHash = 400, gt_Balance = 400,
     gt_SLoad = 200, gt_Calls = 700, gt_Suicide = 5000, gt_ExpByte = 50, gt_CreateBySuicide = 25000\<rparr>"

definition config_GasTable :: "chainConfig \<Rightarrow> int option \<Rightarrow> gasTable" where
  "config_GasTable c num =
     (if num = None then GasTableHomestead
      else if IsConstantinople c num then GasTableConstantinople
      else if IsEIP158 c num then GasTableEIP158
      else if IsEIP150 c num then GasTableEIP150
      else GasTableHomestead)"

record rules =
  rl_ChainID :: int
  rl_IsHomestead :: bool
  rl_IsEIP150 :: bool
  rl_IsEIP155 :: bool
  rl_IsEIP158 :: bool
  rl_IsByzantium :: bool

definition config_Rules :: "chainConfig \<Rightarrow> int option \<Rightarrow> rules" where
  "config_Rules c num = \<lparr>rl_ChainID = (case cc_ChainID c of None \<Rightarrow> 0 | Some i \<Rightarrow> i),
     rl_IsHomestead = IsHomestead c num, rl_IsEIP150 = IsEIP150 c num, rl_IsEIP155 = IsEIP155 c num,
     rl_IsEIP158 = IsEIP158 c num, rl_IsByzantium = IsByzantium c num\<rparr>"

section \<open>Compatibility\<close>

record configCompatError =
  ce_What :: string
  ce_StoredConfig :: "int option"
  ce_NewConfig :: "int option"
  ce_RewindTo :: uint64

definition configNumEqual :: "int option \<Rightarrow> int option \<Rightarrow> bool" where
  "configNumEqual x y =
     (case x of None \<Rightarrow> y = None | Some a \<Rightarrow> (case y of None \<Rightarrow> False | Some b \<Rightarrow> a = b))"

definition isForkIncompatible :: "int option \<Rightarrow> int option \<Rightarrow> int option \<Rightarrow> bool" where
  "isForkIncompatible s1 s2 head \<longleftrightarrow> (isForked s1 head \<or> isForked s2 head) \<and> \<not> configNumEqual s1 s2"

definition newCompatError :: "string \<Rightarrow> int option \<Rightarrow> int option \<Rightarrow> configCompatError" where
  "newCompatError what storedblock newblock =
     (let rew = (case storedblock of
                   None \<Rightarrow> newblock
                 | Some s \<Rightarrow> (case newblock of None \<Rightarrow> storedblock | Some n \<Rightarrow> if s < n then storedblock else newblock))
      in \<lparr>ce_What = what, ce_StoredConfig = storedblock, ce_NewConfig = newblock,
          ce_RewindTo = (case rew of None \<Rightarrow> 0 | Some r \<Rightarrow> if 0 < r then word_of_int r - 1 else 0)\<rparr>)"

definition checkCompatible :: "chainConfig \<Rightarrow> chainConfig \<Rightarrow> int option \<Rightarrow> configCompatError option" where
  "checkCompatible c newcfg head =
     (if isForkIncompatible (cc_HomesteadBlock c) (cc_HomesteadBlock newcfg) head then
        Some (newCompatError ''Homestead fork block'' (cc_HomesteadBlock c) (cc_HomesteadBlock newcfg))
      else if isForkIncompatible (cc_DAOForkBlock c) (cc_DAOForkBlock newcfg) head then
        Some (newCompatError ''DAO fork block'' (cc_DAOForkBlock c) (cc_DAOForkBlock newcfg))
      else if IsDAOFork c head \<and> cc_DAOForkSupport c \<noteq> cc_DAOForkSupport newcfg then
        Some (newCompatError ''DAO fork support flag'' (cc_DAOForkBlock c) (cc_DAOForkBlock newcfg))
      else if isForkIncompatible (cc_EIP150Block c) (cc_EIP150Block newcfg) head then
        Some (newCompatError ''EIP150 fork block'' (cc_EIP150Block c) (cc_EIP150Block newcfg))
      else if isForkIncompatible (cc_EIP155Block c) (cc_EIP155Block newcfg) head then
        Some (newCompatError ''EIP155 fork block'' (cc_EIP155Block c) (cc_EIP155Block newcfg))
      else if isForkIncompatible (cc_EIP158Block c) (cc_EIP158Block newcfg) head then
        Some (newCompatError ''EIP158 fork block'' (cc_EIP158Block c) (cc_EIP158Block newcfg))
      else if IsEIP158 c head \<and> \<not> configNumEqual (cc_ChainID c) (cc_ChainID newcfg) then
        Some (newCompatError ''EIP158 chain ID'' (cc_EIP158Block c) (cc_EIP158Block newcfg))
      else if isForkIncompatible (cc_ByzantiumBlock c) (cc_ByzantiumBlock newcfg) head then
        Some (newCompatError ''Byzantium fork block'' (cc_ByzantiumBlock c) (cc_ByzantiumBlock newcfg))
      else if isForkIncompatible (cc_ConstantinopleBlock c) (cc_ConstantinopleBlock newcfg) head then
        Some (newCompatError ''Constantinople fork block'' (cc_ConstantinopleBlock c) (cc_ConstantinopleBlock newcfg))
      else None)"

text \<open>The loop that searches the lowest conflict; \<open>None\<close> would be a loop that does not end.\<close>

partial_function (option) compat_loop ::
  "chainConfig \<Rightarrow> chainConfig \<Rightarrow> uint64 \<Rightarrow> configCompatError option \<Rightarrow> configCompatError option option" where
  "compat_loop c newcfg bhead lasterr =
     (case checkCompatible c newcfg (Some (uint bhead)) of
        None \<Rightarrow> Some lasterr
      | Some err \<Rightarrow>
          if (case lasterr of None \<Rightarrow> False | Some e \<Rightarrow> ce_RewindTo err = ce_RewindTo e) then Some lasterr
          else compat_loop c newcfg (ce_RewindTo err) (Some err))"

definition CheckCompatible :: "chainConfig \<Rightarrow> chainConfig \<Rightarrow> uint64 \<Rightarrow> configCompatError option option" where
  "CheckCompatible c newcfg height = compat_loop c newcfg height None"

declare compat_loop.simps [code]

section \<open>Results\<close>

lemma if_SomeE:
  assumes "(if b then Some a else x) = Some e"
  obtains "b" "a = e" | "\<not> b" "x = Some e"
  using assms by (cases b) auto

text \<open>The conflicts that the comparison looks for, apart from their order.\<close>

definition conflict :: "chainConfig \<Rightarrow> chainConfig \<Rightarrow> int option \<Rightarrow> bool" where
  "conflict c n head \<longleftrightarrow>
     isForkIncompatible (cc_HomesteadBlock c) (cc_HomesteadBlock n) head \<or>
     isForkIncompatible (cc_DAOForkBlock c) (cc_DAOForkBlock n) head \<or>
     IsDAOFork c head \<and> cc_DAOForkSupport c \<noteq> cc_DAOForkSupport n \<or>
     isForkIncompatible (cc_EIP150Block c) (cc_EIP150Block n) head \<or>
     isForkIncompatible (cc_EIP155Block c) (cc_EIP155Block n) head \<or>
     isForkIncompatible (cc_EIP158Block c) (cc_EIP158Block n) head \<or>
     IsEIP158 c head \<and> \<not> configNumEqual (cc_ChainID c) (cc_ChainID n) \<or>
     isForkIncompatible (cc_ByzantiumBlock c) (cc_ByzantiumBlock n) head \<or>
     isForkIncompatible (cc_ConstantinopleBlock c) (cc_ConstantinopleBlock n) head"

lemma checkCompatible_None: "checkCompatible c n head = None \<longleftrightarrow> \<not> conflict c n head"
proof -
  have if_None: "(if b then Some a else x) = None \<longleftrightarrow> \<not> b \<and> x = None" for b and a :: configCompatError and x
    by simp
  show ?thesis unfolding checkCompatible_def if_None conflict_def by blast
qed

text \<open>
  An error names two fork blocks of which one has passed, and every head at which one of them has passed
  is in conflict.
\<close>

lemma fork_conflict: "isForkIncompatible s t h \<Longrightarrow> isForked s h' \<or> isForked t h' \<Longrightarrow> isForkIncompatible s t h'"
  by (simp add: isForkIncompatible_def)

lemma flag_conflict:
  "\<not> isForkIncompatible s t h \<Longrightarrow> isForked s h \<Longrightarrow> isForked s h' \<or> isForked t h' \<Longrightarrow> isForked s h'"
  by (auto simp: isForkIncompatible_def configNumEqual_def split: option.splits)

lemma checkCompatible_error:
  assumes "checkCompatible c n head = Some e"
  obtains w s t where "e = newCompatError w s t" "isForked s head \<or> isForked t head"
    "\<forall>h. isForked s h \<or> isForked t h \<longrightarrow> conflict c n h"
proof -
  note fork = fork_conflict [of _ _ head]
  show ?thesis
    using assms unfolding checkCompatible_def
  proof (elim if_SomeE)
    assume a: "\<not> isForkIncompatible (cc_DAOForkBlock c) (cc_DAOForkBlock n) head"
      "IsDAOFork c head \<and> cc_DAOForkSupport c \<noteq> cc_DAOForkSupport n"
      "newCompatError ''DAO fork support flag'' (cc_DAOForkBlock c) (cc_DAOForkBlock n) = e"
    show thesis
      by (rule that [OF a(3) [symmetric]])
        (use a flag_conflict [OF a(1)] in \<open>auto simp: conflict_def IsDAOFork_def\<close>)
  next
    assume a: "\<not> isForkIncompatible (cc_EIP158Block c) (cc_EIP158Block n) head"
      "IsEIP158 c head \<and> \<not> configNumEqual (cc_ChainID c) (cc_ChainID n)"
      "newCompatError ''EIP158 chain ID'' (cc_EIP158Block c) (cc_EIP158Block n) = e"
    show thesis
      by (rule that [OF a(3) [symmetric]])
        (use a flag_conflict [OF a(1)] in \<open>auto simp: conflict_def IsEIP158_def\<close>)
  qed ((erule that [OF sym], simp add: isForkIncompatible_def, use fork in \<open>simp add: conflict_def\<close>) | simp)+
qed

lemma RewindTo_bound:
  assumes "checkCompatible c n (Some (uint h)) = Some e"
  shows "ce_RewindTo e = 0 \<or> ce_RewindTo e < h"
    "\<And>h'. ce_RewindTo e < h' \<Longrightarrow> conflict c n (Some (uint h'))"
proof -
  obtain w s t where e: "e = newCompatError w s t" "isForked s (Some (uint h)) \<or> isForked t (Some (uint h))"
      "\<forall>h. isForked s h \<or> isForked t h \<longrightarrow> conflict c n h"
    using checkCompatible_error [OF assms] .
  have pred: "uint (word_of_int r - 1 :: uint64) = r - 1" if "0 < r" "r \<le> uint h" for r
  proof -
    have "uint (word_of_int r :: uint64) = r"
      using that uint_lt2p [of h] by (simp add: uint_word_of_int)
    then show ?thesis using that by (simp add: uint_sub_if')
  qed
  obtain r where r: "r \<le> uint h" "ce_RewindTo e = (if 0 < r then word_of_int r - 1 else 0)"
      "\<And>x. r \<le> x \<Longrightarrow> isForked s (Some x) \<or> isForked t (Some x)"
  proof (cases s; cases t)
    fix a assume "s = None" "t = Some a"
    then show thesis using that [of a] e(1,2) by (auto simp: newCompatError_def isForked_def)
  next
    fix a assume "s = Some a" "t = None"
    then show thesis using that [of a] e(1,2) by (auto simp: newCompatError_def isForked_def)
  next
    fix a b assume "s = Some a" "t = Some b"
    then show thesis
      using that [of "if a < b then a else b"] e(1,2) by (cases "a < b") (auto simp: newCompatError_def isForked_def)
  qed (use e(2) in \<open>simp add: isForked_def\<close>)
  show "ce_RewindTo e = 0 \<or> ce_RewindTo e < h"
    using r(1,2) pred [of r] by (auto simp: word_less_def)
  show "conflict c n (Some (uint h'))" if "ce_RewindTo e < h'" for h'
    using that r pred [of r] e(3) [rule_format, of "Some (uint h')"] uint_ge_0 [of h']
    by (cases "0 < r") (auto simp: word_less_def)
qed

lemma compat_loop_later:
  assumes "h = ce_RewindTo e" "\<And>h'. ce_RewindTo e < h' \<Longrightarrow> conflict c n (Some (uint h'))"
  shows "\<exists>e'. compat_loop c n h (Some e) = Some (Some e') \<and>
     (ce_RewindTo e' = 0 \<or> checkCompatible c n (Some (uint (ce_RewindTo e'))) = None) \<and>
     (\<forall>h'. ce_RewindTo e' < h' \<longrightarrow> conflict c n (Some (uint h')))"
  using assms
proof (induction "unat h" arbitrary: h e rule: less_induct)
  case less
  show ?case
  proof (cases "checkCompatible c n (Some (uint h))")
    case None
    then show ?thesis using less.prems by (subst compat_loop.simps) simp
  next
    case (Some e1)
    show ?thesis
    proof (cases "h = 0")
      case True
      then have "ce_RewindTo e1 = ce_RewindTo e" using RewindTo_bound(1) [OF Some] less.prems by simp
      then show ?thesis using Some less.prems True by (subst compat_loop.simps) simp
    next
      case False
      then have lt: "ce_RewindTo e1 < h" using RewindTo_bound(1) [OF Some] by (auto simp: word_neq_0_conv)
      then have "compat_loop c n h (Some e) = compat_loop c n (ce_RewindTo e1) (Some e1)"
        using Some less.prems by (subst compat_loop.simps) auto
      then show ?thesis
        using less.hyps [of "ce_RewindTo e1" e1] lt RewindTo_bound(2) [OF Some] by (simp add: word_less_nat_alt)
    qed
  qed
qed

lemma CheckCompatible_iff: "CheckCompatible c n h = Some None \<longleftrightarrow> \<not> conflict c n (Some (uint h))"
proof (cases "checkCompatible c n (Some (uint h))")
  case None
  then have "CheckCompatible c n h = Some None" unfolding CheckCompatible_def by (subst compat_loop.simps) simp
  then show ?thesis using None checkCompatible_None by blast
next
  case (Some e)
  then have "CheckCompatible c n h = compat_loop c n (ce_RewindTo e) (Some e)"
    unfolding CheckCompatible_def by (subst compat_loop.simps) simp
  then show ?thesis
    using compat_loop_later [OF refl, of e c n] RewindTo_bound(2) [OF Some] checkCompatible_None [of c n "Some (uint h)"] Some by auto
qed

lemma checkCompatible_rules:
  assumes "checkCompatible c n (Some h) = None" "num \<le> h"
  shows "config_GasTable c (Some num) = config_GasTable n (Some num)"
    "(config_Rules c (Some num))\<lparr>rl_ChainID := 0\<rparr> = (config_Rules n (Some num))\<lparr>rl_ChainID := 0\<rparr>"
    "IsEIP158 c (Some num) \<Longrightarrow> rl_ChainID (config_Rules c (Some num)) = rl_ChainID (config_Rules n (Some num))"
proof -
  have eq: "isForked s (Some num) = isForked t (Some num)" if "\<not> isForkIncompatible s t (Some h)" for s t
    using that assms(2) by (auto simp: isForkIncompatible_def isForked_def configNumEqual_def split: option.splits)
  have * : "\<not> conflict c n (Some h)" using assms(1) checkCompatible_None by blast
  have forks: "IsHomestead c (Some num) = IsHomestead n (Some num)" "IsEIP150 c (Some num) = IsEIP150 n (Some num)"
    "IsEIP155 c (Some num) = IsEIP155 n (Some num)" "IsEIP158 c (Some num) = IsEIP158 n (Some num)"
    "IsByzantium c (Some num) = IsByzantium n (Some num)" "IsConstantinople c (Some num) = IsConstantinople n (Some num)"
    unfolding IsHomestead_def IsEIP150_def IsEIP155_def IsEIP158_def IsByzantium_def IsConstantinople_def
    using * unfolding conflict_def by (simp_all add: eq)
  show "config_GasTable c (Some num) = config_GasTable n (Some num)"
    by (simp add: config_GasTable_def forks)
  show "(config_Rules c (Some num))\<lparr>rl_ChainID := 0\<rparr> = (config_Rules n (Some num))\<lparr>rl_ChainID := 0\<rparr>"
    by (simp add: config_Rules_def forks)
  assume "IsEIP158 c (Some num)"
  then have "IsEIP158 c (Some h)" using assms(2) by (auto simp: IsEIP158_def isForked_def split: option.splits)
  then have "configNumEqual (cc_ChainID c) (cc_ChainID n)" using * unfolding conflict_def by simp
  then show "rl_ChainID (config_Rules c (Some num)) = rl_ChainID (config_Rules n (Some num))"
    by (auto simp: config_Rules_def configNumEqual_def split: option.splits)
qed


abbreviation byzantium_at :: "int \<Rightarrow> chainConfig" where
  "byzantium_at b \<equiv> DposChainConfig\<lparr>cc_ByzantiumBlock := Some b\<rparr>"

lemma byzantium_check:
  "checkCompatible (byzantium_at 5) (byzantium_at 8) (Some x) =
     (if 5 \<le> x then Some \<lparr>ce_What = ''Byzantium fork block'', ce_StoredConfig = Some 5, ce_NewConfig = Some 8, ce_RewindTo = 4\<rparr>
      else None)"
  by (auto simp: checkCompatible_def DposChainConfig_def isForkIncompatible_def isForked_def configNumEqual_def
      IsDAOFork_def IsEIP158_def newCompatError_def)


end
