(* ===== verification/Dpos_Engine.thy ===== *)
theory Dpos_Engine
  imports Epoch_Context Chain_Config Ethdb
begin

text \<open>
  The consensus engine of \<open>consensus/dpos/dpos.go\<close>: verification of headers and seals, the
  confirmation of blocks by enough validators, sealing, time slots and the counts of minted blocks,
  and the two queries of \<open>consensus/dpos/api.go\<close>. \<open>Finalize\<close> is in \<open>Block_Processing\<close>.

  Parameters: the hash function, the recovery of public keys \<open>ecr\<close>, the cache of recovered
  signers (a third-party cache that may forget entries), the clock and the writes to disk, which may
  fail. The chain is a record of the functions of \<open>consensus.ChainReader\<close>. A nil pointer is
  \<open>None\<close>, and its dereference \<open>DposPanic\<close>.
\<close>

section \<open>The engine\<close>

record chainReader =
  cr_Config :: chainConfig
  cr_CurrentHeader :: "header option"
  cr_GetHeader :: "hash \<Rightarrow> uint64 \<Rightarrow> header option"
  cr_GetHeaderByNumber :: "uint64 \<Rightarrow> header option"
  cr_GetHeaderByHash :: "hash \<Rightarrow> header option"

record 'c sigCache =
  sc_Get :: "'c \<Rightarrow> hash \<Rightarrow> address option \<times> 'c"
  sc_Add :: "'c \<Rightarrow> hash \<Rightarrow> address \<Rightarrow> 'c"

record 'c dpos =
  en_config :: dposConfig
  en_db :: memDatabase
  en_signer :: address
  en_signFn :: "(address \<Rightarrow> bytes \<Rightarrow> bytes option) option"
  en_signatures :: 'c
  en_confirmedBlockHeader :: "header option"

definition extraVanity :: nat where
  "extraVanity = 32"

definition extraSeal :: nat where
  "extraSeal = 65"

definition confirmedBlockHead :: bytes where
  "confirmedBlockHead = [0x63, 0x6F, 0x6E, 0x66, 0x69, 0x72, 0x6D, 0x65, 0x64, 0x2D, 0x62, 0x6C, 0x6F, 0x63, 0x6B,
     0x2D, 0x68, 0x65, 0x61, 0x64]"

definition uncleHash :: "keccak \<Rightarrow> hash" where
  "uncleHash K = CalcUncleHash K []"

definition dpos_New :: "dposConfig \<Rightarrow> memDatabase \<Rightarrow> 'c \<Rightarrow> 'c dpos" where
  "dpos_New config db signatures = \<lparr>en_config = config, en_db = db, en_signer = zeroAddress, en_signFn = None,
     en_signatures = signatures, en_confirmedBlockHeader = None\<rparr>"

definition Author :: "header \<Rightarrow> address" where
  "Author h = hd_Validator h"

definition Authorize :: "'c dpos \<Rightarrow> address \<Rightarrow> (address \<Rightarrow> bytes \<Rightarrow> bytes option) \<Rightarrow> 'c dpos" where
  "Authorize d signer signFn = d\<lparr>en_signer := signer, en_signFn := Some signFn\<rparr>"

definition CalcDifficulty :: int where
  "CalcDifficulty = 1"

section \<open>Signatures\<close>

text \<open>The hash that a validator signs; \<open>None\<close> is a panic, on a short \<open>Extra\<close> or without a DPoS context.\<close>

definition sigHash :: "keccak \<Rightarrow> header \<Rightarrow> hash option" where
  "sigHash K h =
     (if length (hd_Extra h) < 65 then None
      else
        (case hd_DposContext h of
           None \<Rightarrow> None
         | Some p \<Rightarrow>
             Some (rlpHash K (TSlice TInterface) (VSlice
               [ifc (TByteArray 32) (VByteArray (hd_ParentHash h)), ifc (TByteArray 32) (VByteArray (hd_UncleHash h)),
                ifc (TByteArray 20) (VByteArray (hd_Validator h)), ifc (TByteArray 20) (VByteArray (hd_Coinbase h)),
                ifc (TByteArray 32) (VByteArray (hd_Root h)), ifc (TByteArray 32) (VByteArray (hd_TxHash h)),
                ifc (TByteArray 32) (VByteArray (hd_ReceiptHash h)), ifc (TByteArray 256) (VByteArray (hd_Bloom h)),
                ifc TBigIntPtr (VBigPtr (hd_Difficulty h)), ifc TBigIntPtr (VBigPtr (hd_Number h)),
                ifc (TUint 64) (VUint (unat (hd_GasLimit h))), ifc (TUint 64) (VUint (unat (hd_GasUsed h))),
                ifc TBigIntPtr (VBigPtr (hd_Time h)),
                ifc TBytes (VBytes (take (length (hd_Extra h) - 65) (hd_Extra h))),
                ifc (TByteArray 32) (VByteArray (hd_MixDigest h)), ifc (TByteArray 8) (VByteArray (hd_Nonce h)),
                ifc (TByteArray 32) (VByteArray (proto_Root K p)),
                ifc (TUint 64) (VUint (unat (hd_MaxValidatorSize h)))]))))"

definition ecrecover :: "keccak \<Rightarrow> recover \<Rightarrow> 'c sigCache \<Rightarrow> header \<Rightarrow> 'c \<Rightarrow> (dposError + address) \<times> 'c" where
  "ecrecover K ecr sc h c =
     (case sc_Get sc c (header_Hash K h) of
        (Some address, c) \<Rightarrow> (Inr address, c)
      | (None, c) \<Rightarrow>
          if length (hd_Extra h) < extraSeal then (Inl ErrMissingSignature, c)
          else
            (case sigHash K h of
               None \<Rightarrow> (Inl DposPanic, c)
             | Some s \<Rightarrow>
                 (case ecr s (drop (length (hd_Extra h) - extraSeal) (hd_Extra h)) of
                    None \<Rightarrow> (Inl ErrRecoverKey, c)
                  | Some pubkey \<Rightarrow>
                      if pubkey = [] then (Inl DposPanic, c)
                      else (Inr (pub_address K pubkey), sc_Add sc c (header_Hash K h) (pub_address K pubkey)))))"

definition verifyBlockSigner :: "keccak \<Rightarrow> recover \<Rightarrow> 'c sigCache \<Rightarrow> address \<Rightarrow> header \<Rightarrow> 'c dpos \<Rightarrow> 'c dpos \<times> dposError option" where
  "verifyBlockSigner K ecr sc validator h d =
     (case ecrecover K ecr sc h (en_signatures d) of
        (Inl e, c) \<Rightarrow> (d\<lparr>en_signatures := c\<rparr>, Some e)
      | (Inr signer, c) \<Rightarrow>
          (d\<lparr>en_signatures := c\<rparr>,
           if signer \<noteq> validator then Some ErrInvalidBlockValidator
           else if signer \<noteq> hd_Validator h then Some ErrMismatchSignerAndValidator
           else None))"

section \<open>Headers\<close>

definition VerifyForkHashes :: "keccak \<Rightarrow> chainConfig \<Rightarrow> header \<Rightarrow> bool \<Rightarrow> dposError option" where
  "VerifyForkHashes K config h uncle =
     (if uncle then None
      else if cc_EIP150Block config \<noteq> None \<and> hd_Number h = None then Some DposPanic
      else if cc_EIP150Block config \<noteq> None \<and> cc_EIP150Block config = hd_Number h then
        (if cc_EIP150Hash config \<noteq> zeroHash \<and> cc_EIP150Hash config \<noteq> header_Hash K h then Some ErrForkHash else None)
      else None)"

text \<open>\<open>now\<close> is the time of the clock in seconds.\<close>

definition verifyHeader :: "keccak \<Rightarrow> int64 \<Rightarrow> chainReader \<Rightarrow> header \<Rightarrow> header list \<Rightarrow> uint64 \<Rightarrow> dposError option" where
  "verifyHeader K now chain h parents blockInterval =
     (case hd_Number h of
        None \<Rightarrow> Some ErrUnknownBlock
      | Some num \<Rightarrow>
          (let number = big_Uint64 num in
           case (hd_Time h) of None \<Rightarrow> Some DposPanic | Some time \<Rightarrow>
           if time > sint now then Some ErrFutureBlock
           else if length (hd_Extra h) < extraVanity then Some ErrMissingVanity
           else if length (hd_Extra h) < extraVanity + extraSeal then Some ErrMissingSignature
           else if hd_MixDigest h \<noteq> zeroHash then Some ErrInvalidMixDigest
           else
             (case hd_Difficulty h of None \<Rightarrow> Some DposPanic | Some difficulty \<Rightarrow>
              if big_Uint64 difficulty \<noteq> 1 then Some ErrInvalidDifficulty
              else if hd_UncleHash h \<noteq> uncleHash K then Some ErrInvalidUncleHash
              else
                (case VerifyForkHashes K (cr_Config chain) h False of Some e \<Rightarrow> Some e | None \<Rightarrow>
                 (case (if parents \<noteq> [] then Some (last parents) else cr_GetHeader chain (hd_ParentHash h) (number - 1)) of
                    None \<Rightarrow> Some ErrUnknownAncestor
                  | Some parent \<Rightarrow>
                      (case hd_Number parent of None \<Rightarrow> Some DposPanic | Some pnum \<Rightarrow>
                       if big_Uint64 pnum \<noteq> number - 1 \<or> header_Hash K parent \<noteq> hd_ParentHash h then Some ErrUnknownAncestor
                       else
                         (case hd_Time parent of None \<Rightarrow> Some DposPanic | Some ptime \<Rightarrow>
                          if big_Uint64 ptime + blockInterval > big_Uint64 time then Some ErrInvalidTimestamp
                          else None)))))))"

definition VerifyHeader :: "keccak \<Rightarrow> int64 \<Rightarrow> chainReader \<Rightarrow> header \<Rightarrow> bool \<Rightarrow> uint64 \<Rightarrow> dposError option" where
  "VerifyHeader K now chain h seal blockInterval = verifyHeader K now chain h [] blockInterval"

text \<open>The results of a batch, without an abort; \<open>None\<close> is the panic without a genesis header.\<close>

definition VerifyHeaders :: "keccak \<Rightarrow> int64 \<Rightarrow> chainReader \<Rightarrow> header list \<Rightarrow> dposError option list option" where
  "VerifyHeaders K now chain headers =
     (case cr_GetHeaderByNumber chain 0 of
        None \<Rightarrow> None
      | Some genesis \<Rightarrow>
          Some (map (\<lambda>i. verifyHeader K now chain (headers ! i) (take i headers) (hd_BlockInterval genesis)) [0..<length headers]))"

definition VerifyUncles :: "block \<Rightarrow> dposError option" where
  "VerifyUncles b = (if length (bk_uncles b) > 0 then Some ErrUncles else None)"

section \<open>Confirmed blocks\<close>

definition loadConfirmedBlockHeader :: "chainReader \<Rightarrow> 'c dpos \<Rightarrow> dposError + header" where
  "loadConfirmedBlockHeader chain d =
     (case mem_Get confirmedBlockHead (en_db d) of
        None \<Rightarrow> Inl ErrDbGet
      | Some key \<Rightarrow>
          (case cr_GetHeaderByHash chain (BytesToHash key) of None \<Rightarrow> Inl ErrNilBlockHeader | Some h \<Rightarrow> Inr h))"

text \<open>\<open>put\<close> is the write to disk, \<open>None\<close> its failure.\<close>

type_synonym diskPut = "bytes \<Rightarrow> bytes \<Rightarrow> memDatabase \<Rightarrow> memDatabase option"

definition storeConfirmedBlockHeader :: "keccak \<Rightarrow> diskPut \<Rightarrow> 'c dpos \<Rightarrow> 'c dpos \<times> dposError option" where
  "storeConfirmedBlockHeader K put d =
     (case en_confirmedBlockHeader d of
        None \<Rightarrow> (d, Some DposPanic)
      | Some h \<Rightarrow>
          (case put confirmedBlockHead (header_Hash K h) (en_db d) of
             None \<Rightarrow> (d, Some ErrDbPut)
           | Some db \<Rightarrow> (d\<lparr>en_db := db\<rparr>, None)))"

definition consensusSize :: "header \<Rightarrow> int64" where
  "consensusSize genesis = hd_MaxValidatorSize genesis * 2 div 3 + 1"

text \<open>
  The loop walks from the current header towards the confirmed one. \<open>Inr None\<close> confirms nothing,
  \<open>Inr (Some h)\<close> confirms \<open>h\<close>. The set of validators is a list without repetitions.
\<close>

datatype walk = WalkOn "int64" "address list" | WalkDone "dposError + header option"

definition confirm_step :: "keccak \<Rightarrow> header \<Rightarrow> header option \<Rightarrow> int64 \<Rightarrow> address list \<Rightarrow> header \<Rightarrow> walk" where
  "confirm_step K confirmed genesis epoch validatorMap cur =
     (if header_Hash K confirmed = header_Hash K cur then WalkDone (Inr None)
      else
        (case (hd_Number confirmed, hd_Number cur) of
           (Some cnum, Some num) \<Rightarrow>
             if \<not> big_Uint64 cnum < big_Uint64 num then WalkDone (Inr None)
             else
               (case (hd_Time cur, genesis) of
                  (Some time, Some genesis) \<Rightarrow>
                    (let curEpoch = quot64 (big_Int64 time) epochInterval;
                         validatorMap = (if curEpoch \<noteq> epoch then [] else validatorMap)
                     in if sint (big_Int64 num - big_Int64 cnum) < sint (consensusSize genesis - word_of_nat (length validatorMap))
                        then WalkDone (Inr None)
                        else
                          (let validatorMap = List.insert (hd_Validator cur) validatorMap
                           in if int (length validatorMap) \<ge> sint (consensusSize genesis) then WalkDone (Inr (Some cur))
                              else WalkOn curEpoch validatorMap))
                | _ \<Rightarrow> WalkDone (Inl DposPanic))
         | _ \<Rightarrow> WalkDone (Inl DposPanic)))"

partial_function (option) confirm_walk :: "keccak \<Rightarrow> chainReader \<Rightarrow> header \<Rightarrow> header option \<Rightarrow> int64 \<Rightarrow> address list \<Rightarrow>
    header \<Rightarrow> (dposError + header option) option" where
  "confirm_walk K chain confirmed genesis epoch validatorMap cur =
     (case confirm_step K confirmed genesis epoch validatorMap cur of
        WalkDone r \<Rightarrow> Some r
      | WalkOn epoch' validatorMap' \<Rightarrow>
          (case cr_GetHeaderByHash chain (hd_ParentHash cur) of
             None \<Rightarrow> Some (Inl ErrNilBlockHeader)
           | Some parent \<Rightarrow> confirm_walk K chain confirmed genesis epoch' validatorMap' parent))"

definition start_header :: "chainReader \<Rightarrow> 'c dpos \<Rightarrow> dposError + header" where
  "start_header chain d =
     (case en_confirmedBlockHeader d of
        Some h \<Rightarrow> Inr h
      | None \<Rightarrow>
          (case loadConfirmedBlockHeader chain d of
             Inr h \<Rightarrow> Inr h
           | Inl e \<Rightarrow> (case cr_GetHeaderByNumber chain 0 of None \<Rightarrow> Inl e | Some h \<Rightarrow> Inr h)))"

definition updateConfirmedBlockHeader :: "keccak \<Rightarrow> diskPut \<Rightarrow> chainReader \<Rightarrow> 'c dpos \<Rightarrow> ('c dpos \<times> dposError option) option" where
  "updateConfirmedBlockHeader K put chain d =
     (case start_header chain d of
        Inl e \<Rightarrow> Some (d, Some e)
      | Inr confirmed \<Rightarrow>
          (let d = d\<lparr>en_confirmedBlockHeader := Some confirmed\<rparr> in
           case cr_CurrentHeader chain of
             None \<Rightarrow> Some (d, Some DposPanic)
           | Some cur \<Rightarrow>
               (case confirm_walk K chain confirmed (cr_GetHeaderByNumber chain 0) (- 1) [] cur of
                  None \<Rightarrow> None
                | Some (Inl e) \<Rightarrow> Some (d, Some e)
                | Some (Inr None) \<Rightarrow> Some (d, None)
                | Some (Inr (Some h)) \<Rightarrow> Some (storeConfirmedBlockHeader K put (d\<lparr>en_confirmedBlockHeader := Some h\<rparr>)))))"

section \<open>Verifying seals\<close>

definition epoch_context :: "dposContext \<Rightarrow> epochContext" where
  "epoch_context dc = \<lparr>ec_TimeStamp = 0, ec_DposContext = dc, ec_balance = (\<lambda>a. 0)\<rparr>"

definition verifySeal :: "keccak \<Rightarrow> recover \<Rightarrow> 'c sigCache \<Rightarrow> diskPut \<Rightarrow> chainReader \<Rightarrow> header \<Rightarrow> header \<Rightarrow> header list \<Rightarrow>
    'c dpos \<Rightarrow> ('c dpos \<times> dposError option) option" where
  "verifySeal K ecr sc put chain currentheader genesisheader parents d =
     (case hd_Number currentheader of
        None \<Rightarrow> Some (d, Some DposPanic)
      | Some num \<Rightarrow>
          (let number = big_Uint64 num in
           if number = 0 then Some (d, Some ErrUnknownBlock)
           else
             (case (if parents \<noteq> [] then Some (last parents)
                    else cr_GetHeader chain (hd_ParentHash currentheader) (number - 1)) of
                None \<Rightarrow> Some (d, Some DposPanic)
              | Some parent \<Rightarrow>
                  (case hd_DposContext parent of
                     None \<Rightarrow> Some (d, Some DposPanic)
                   | Some proto \<Rightarrow>
                       (case NewDposContextFromProto (NewDatabase (en_db d)) proto of
                          Inl e \<Rightarrow> Some (d, Some (TrieErr e))
                        | Inr dposContext \<Rightarrow>
                            (case hd_Time currentheader of
                               None \<Rightarrow> Some (d, Some DposPanic)
                             | Some time \<Rightarrow>
                                 (case lookupValidator (epoch_context dposContext) (big_Int64 time)
                                         (hd_BlockInterval genesisheader) of
                                    (Inl e, _) \<Rightarrow> Some (d, Some e)
                                  | (Inr validator, _) \<Rightarrow>
                                      (case verifyBlockSigner K ecr sc validator currentheader d of
                                         (d, Some e) \<Rightarrow> Some (d, Some e)
                                       | (d, None) \<Rightarrow> updateConfirmedBlockHeader K put chain d))))))))"

definition VerifySeal :: "keccak \<Rightarrow> recover \<Rightarrow> 'c sigCache \<Rightarrow> diskPut \<Rightarrow> chainReader \<Rightarrow> header \<Rightarrow> header \<Rightarrow>
    'c dpos \<Rightarrow> ('c dpos \<times> dposError option) option" where
  "VerifySeal K ecr sc put chain currentheader genesisheader d =
     verifySeal K ecr sc put chain currentheader genesisheader [] d"

section \<open>Minting\<close>

text \<open>The header is mutated also when an error is returned.\<close>

definition Prepare :: "chainReader \<Rightarrow> 'c dpos \<Rightarrow> header \<Rightarrow> header \<times> dposError option" where
  "Prepare chain d h =
     (let h = h\<lparr>hd_Nonce := replicate 8 0\<rparr> in
      case hd_Number h of
        None \<Rightarrow> (h, Some DposPanic)
      | Some num \<Rightarrow>
          (let number = big_Uint64 num;
               h = (if length (hd_Extra h) < extraVanity
                    then h\<lparr>hd_Extra := hd_Extra h @ replicate (extraVanity - length (hd_Extra h)) 0\<rparr> else h);
               h = h\<lparr>hd_Extra := take extraVanity (hd_Extra h)\<rparr>;
               h = h\<lparr>hd_Extra := hd_Extra h @ replicate extraSeal 0\<rparr>
           in case cr_GetHeader chain (hd_ParentHash h) (number - 1) of
                None \<Rightarrow> (h, Some ErrUnknownAncestor)
              | Some parent \<Rightarrow>
                  if hd_Time h = None then (h, Some DposPanic)
                  else (h\<lparr>hd_Difficulty := Some CalcDifficulty, hd_Validator := en_signer d\<rparr>, None)))"

text \<open>The slots around a time; \<open>None\<close> is the division by zero.\<close>

definition PrevSlot :: "int64 \<Rightarrow> uint64 \<Rightarrow> int64 option" where
  "PrevSlot now blockInterval =
     (if blockInterval = 0 then None else Some (quot64 (now - 1) blockInterval * blockInterval))"

definition NextSlot :: "int64 \<Rightarrow> uint64 \<Rightarrow> int64 option" where
  "NextSlot now blockInterval =
     (if blockInterval = 0 then None else Some (quot64 (now + blockInterval - 1) blockInterval * blockInterval))"

definition checkDeadline :: "block \<Rightarrow> int64 \<Rightarrow> uint64 \<Rightarrow> dposError option" where
  "checkDeadline lastBlock now blockInterval =
     (case (PrevSlot now blockInterval, NextSlot now blockInterval, hd_Time (bk_header lastBlock)) of
        (Some prevSlot, Some nextSlot, Some time) \<Rightarrow>
          if sint (big_Int64 time) \<ge> sint nextSlot then Some ErrMintFutureBlock
          else if big_Int64 time = prevSlot \<or> sint (nextSlot - now) \<le> 1 then None
          else Some ErrWaitForPrevBlock
      | _ \<Rightarrow> Some DposPanic)"

definition CheckValidator :: "'c dpos \<Rightarrow> block \<Rightarrow> int64 \<Rightarrow> uint64 \<Rightarrow> dposError option" where
  "CheckValidator d lastBlock now blockInterval =
     (case checkDeadline lastBlock now blockInterval of
        Some e \<Rightarrow> Some e
      | None \<Rightarrow>
          (case hd_DposContext (block_Header lastBlock) of
             None \<Rightarrow> Some DposPanic
           | Some proto \<Rightarrow>
               (case NewDposContextFromProto (NewDatabase (en_db d)) proto of
                  Inl e \<Rightarrow> Some (TrieErr e)
                | Inr dposContext \<Rightarrow>
                    (case lookupValidator (epoch_context dposContext) now blockInterval of
                       (Inl e, _) \<Rightarrow> Some e
                     | (Inr validator, _) \<Rightarrow>
                         if validator = zeroAddress \<or> validator \<noteq> en_signer d then Some ErrInvalidBlockValidator
                         else None))))"

text \<open>
  \<open>stopped\<close> says whether the wait for the slot is interrupted, in which case no block is returned.
  Setting the time on a copy of the header of the block has no effect on the header that is signed.
\<close>

definition Seal :: "keccak \<Rightarrow> chainReader \<Rightarrow> int64 \<Rightarrow> bool \<Rightarrow> block \<Rightarrow> 'c dpos \<Rightarrow> dposError + block option" where
  "Seal K chain now stopped b d =
     (let h = block_Header b in
      case hd_Number h of
        None \<Rightarrow> Inl DposPanic
      | Some num \<Rightarrow>
          if big_Uint64 num = 0 then Inl ErrUnknownBlock
          else
            (case cr_GetHeaderByNumber chain 0 of
               None \<Rightarrow> Inl DposPanic
             | Some genesis \<Rightarrow>
                 (case NextSlot now (hd_BlockInterval genesis) of
                    None \<Rightarrow> Inl DposPanic
                  | Some next \<Rightarrow>
                      if sint (next - now) > 0 \<and> stopped then Inr None
                      else
                        (case (sigHash K h, en_signFn d) of
                           (Some s, Some signFn) \<Rightarrow>
                             (case signFn (en_signer d) s of
                                None \<Rightarrow> Inl ErrSign
                              | Some sighash \<Rightarrow>
                                  (let n = length (hd_Extra h) - extraSeal;
                                       seal = take extraSeal sighash @ drop (length sighash) (drop n (hd_Extra h))
                                   in Inr (Some (WithSeal b (h\<lparr>hd_Extra := take n (hd_Extra h) @ seal\<rparr>)))))
                         | _ \<Rightarrow> Inl DposPanic))))"

text \<open>Errors of the trie when the count is stored are ignored; what is left is a panic.\<close>

definition updateMintCnt :: "keccak \<Rightarrow> int64 \<Rightarrow> int64 \<Rightarrow> address \<Rightarrow> dposContext \<Rightarrow> dposContext \<times> dposError option" where
  "updateMintCnt K parentBlockTime currentBlockTime validator d =
     (let currentEpoch = quot64 parentBlockTime epochInterval;
          newEpoch = quot64 currentBlockTime epochInterval;
          count = (if currentEpoch \<noteq> newEpoch then (Inr 1, d)
                   else
                     (let d' = d\<lparr>dc_mintCnt := snd (trie_Hash K (dc_mintCnt d))\<rparr>
                      in case iter_Next (trie_leaves K (dc_mintCnt d) (putUint64 currentEpoch)) of
                           Inl e \<Rightarrow> (Inl e, d')
                         | Inr (False, _) \<Rightarrow> (Inr 1, d')
                         | Inr (True, _) \<Rightarrow>
                             (case Get (dc_mintCnt d') (putUint64 currentEpoch @ validator) of
                                Inl e \<Rightarrow> (Inl (TrieErr e), d')
                              | Inr (cntBytes, t) \<Rightarrow>
                                  (case (case cntBytes of None \<Rightarrow> Some 0 | Some b \<Rightarrow> getUint64 b) of
                                     None \<Rightarrow> (Inl DposPanic, d'\<lparr>dc_mintCnt := t\<rparr>)
                                   | Some cnt \<Rightarrow> (Inr (cnt + 1), d'\<lparr>dc_mintCnt := t\<rparr>)))))
      in case count of
           (Inl e, d) \<Rightarrow> (d, Some e)
         | (Inr cnt, d) \<Rightarrow>
             (case TryUpdate (dc_mintCnt d) (putUint64 newEpoch @ validator) (putUint64 cnt) of
                Inl (MissingNodeError h p) \<Rightarrow> (d, None)
              | Inl e \<Rightarrow> (d, Some (TrieErr e))
              | Inr t \<Rightarrow> (d\<lparr>dc_mintCnt := t\<rparr>, None)))"

section \<open>Queries\<close>

text \<open>A block number of \<open>None\<close> stands for nil and for the latest block. Only the epoch trie of the context is read.\<close>

definition api_GetValidators :: "chainReader \<Rightarrow> 'c dpos \<Rightarrow> uint64 option \<Rightarrow> dposError + address list" where
  "api_GetValidators chain d number =
     (case (case number of None \<Rightarrow> cr_CurrentHeader chain | Some n \<Rightarrow> cr_GetHeaderByNumber chain n) of
        None \<Rightarrow> Inl ErrUnknownBlock
      | Some h \<Rightarrow>
          (case hd_DposContext h of
             None \<Rightarrow> Inl DposPanic
           | Some proto \<Rightarrow>
               (case NewEpochTrie (px_EpochHash proto) (Database_node (NewDatabase (en_db d))) of
                  Inl e \<Rightarrow> Inl (TrieErr e)
                | Inr t \<Rightarrow>
                    fst (GetValidators \<lparr>dc_epoch = t, dc_delegate = t, dc_vote = t, dc_candidate = t, dc_mintCnt = t, dc_db = None\<rparr>))))"

definition api_GetConfirmedBlockNumber :: "chainReader \<Rightarrow> 'c dpos \<Rightarrow> dposError + int option" where
  "api_GetConfirmedBlockNumber chain d =
     (case en_confirmedBlockHeader d of
        Some h \<Rightarrow> Inr (hd_Number h)
      | None \<Rightarrow> (case loadConfirmedBlockHeader chain d of Inl e \<Rightarrow> Inl e | Inr h \<Rightarrow> Inr (hd_Number h)))"

end
