(* ===== verification/Dpos_Consensus.thy ===== *)
theory Dpos_Consensus
  imports Dpos_Engine
begin

text \<open>
  What the consensus engine guarantees: blocks are confirmed by a quorum of validators and only then,
  accepted seals are signatures of the validator of the slot, batches of headers form a chain, the
  counts of minted blocks are right, and a validator mints only in its own slots.
\<close>

section \<open>Confirmation by a quorum\<close>

text \<open>The headers on the way from \<open>cur\<close> down the chain.\<close>

inductive ancestor :: "chainReader \<Rightarrow> header \<Rightarrow> header \<Rightarrow> bool" for chain cur where
  self: "ancestor chain cur cur"
| parent: "ancestor chain cur h \<Longrightarrow> cr_GetHeaderByHash chain (hd_ParentHash h) = Some p \<Longrightarrow> ancestor chain cur p"

definition chain_path :: "chainReader \<Rightarrow> header list \<Rightarrow> bool" where
  "chain_path chain hs \<longleftrightarrow> successively (\<lambda>h p. cr_GetHeaderByHash chain (hd_ParentHash h) = Some p) hs"

text \<open>The headers of the chain have times, and a parent has the number before.\<close>

definition numbered :: "chainReader \<Rightarrow> header \<Rightarrow> bool" where
  "numbered chain cur \<longleftrightarrow> (\<forall>h. ancestor chain cur h \<longrightarrow> hd_Time h \<noteq> None
     \<and> (\<exists>n. hd_Number h = Some n \<and> 0 \<le> n \<and> n < 2 ^ 63
          \<and> (\<forall>p. cr_GetHeaderByHash chain (hd_ParentHash h) = Some p \<longrightarrow> hd_Number p = Some (n - 1))))"

definition header_epoch :: "header \<Rightarrow> int64" where
  "header_epoch h = quot64 (big_Int64 (the (hd_Time h))) epochInterval"

text \<open>
  A quorum for a header: headers of one epoch that follow each other down the chain and end in it,
  minted by enough validators.
\<close>

definition quorum :: "chainReader \<Rightarrow> header \<Rightarrow> header \<Rightarrow> header list \<Rightarrow> bool" where
  "quorum chain genesis h bs \<longleftrightarrow> bs \<noteq> [] \<and> last bs = h \<and> chain_path chain bs
     \<and> (\<forall>x \<in> set bs. header_epoch x = header_epoch h)
     \<and> sint (consensusSize genesis) \<le> int (card (hd_Validator ` set bs))"

lemma numberedD:
  assumes "numbered chain cur" "ancestor chain cur h"
  obtains n t where "hd_Number h = Some n" "hd_Time h = Some t" "0 \<le> n" "n < 2 ^ 63"
    "\<And>p. cr_GetHeaderByHash chain (hd_ParentHash h) = Some p \<Longrightarrow> hd_Number p = Some (n - 1)"
  using assms unfolding numbered_def by blast

lemma big_Uint64_less: "0 \<le> a \<Longrightarrow> a < 2 ^ 63 \<Longrightarrow> 0 \<le> b \<Longrightarrow> b < 2 ^ 63 \<Longrightarrow> big_Uint64 a < big_Uint64 b \<longleftrightarrow> a < b"
  by (simp add: big_Uint64_def word_less_def uint_word_of_int)

lemma confirm_step_on:
  assumes "confirm_step K confirmed (Some g) epoch vm cur = WalkOn epoch' vm'"
  shows "epoch' = header_epoch cur" "vm' = List.insert (hd_Validator cur) (if header_epoch cur \<noteq> epoch then [] else vm)"
    "int (length vm') < sint (consensusSize g)"
  using assms by (auto simp: confirm_step_def header_epoch_def Let_def split: if_splits option.splits)

lemma confirm_step_confirm:
  assumes "confirm_step K confirmed (Some g) epoch vm cur = WalkDone (Inr (Some h))"
  shows "h = cur"
    "sint (consensusSize g) \<le> int (length (List.insert (hd_Validator cur) (if header_epoch cur \<noteq> epoch then [] else vm)))"
    "\<exists>n c. hd_Number cur = Some n \<and> hd_Number confirmed = Some c \<and> big_Uint64 c < big_Uint64 n"
  using assms by (auto simp: confirm_step_def header_epoch_def Let_def split: if_splits option.splits)

lemma confirm_step_error:
  assumes "confirm_step K confirmed (Some g) epoch vm cur = WalkDone (Inl e)"
    "hd_Number cur \<noteq> None" "hd_Number confirmed \<noteq> None" "hd_Time cur \<noteq> None"
  shows False
  using assms by (auto simp: confirm_step_def Let_def split: if_splits option.splits)

text \<open>What the walk knows of the headers \<open>bs\<close> it has passed, when it reaches \<open>cur\<close>.\<close>

definition walked :: "chainReader \<Rightarrow> header list \<Rightarrow> int64 \<Rightarrow> address list \<Rightarrow> header \<Rightarrow> bool" where
  "walked chain bs epoch vm cur \<longleftrightarrow> chain_path chain (bs @ [cur]) \<and> (\<forall>x \<in> set bs. header_epoch x = epoch)
     \<and> distinct vm \<and> set vm = hd_Validator ` set bs"

lemma walked_next:
  assumes "walked chain bs epoch vm cur" "bs' = (if header_epoch cur \<noteq> epoch then [] else bs) @ [cur]"
    "vm' = List.insert (hd_Validator cur) (if header_epoch cur \<noteq> epoch then [] else vm)"
  shows "chain_path chain bs'" "\<forall>x \<in> set bs'. header_epoch x = header_epoch cur" "distinct vm'"
    "set vm' = hd_Validator ` set bs'"
    "cr_GetHeaderByHash chain (hd_ParentHash cur) = Some p \<Longrightarrow> walked chain bs' (header_epoch cur) vm' p"
proof -
  have w: "chain_path chain (bs @ [cur])" "\<forall>x \<in> set bs. header_epoch x = epoch" "distinct vm" "set vm = hd_Validator ` set bs"
    using assms(1) by (simp_all add: walked_def)
  show 1: "chain_path chain bs'"
    using w(1) by (cases "header_epoch cur = epoch") (simp_all add: assms(2) chain_path_def)
  show 2: "\<forall>x \<in> set bs'. header_epoch x = header_epoch cur"
    using w(2) by (cases "header_epoch cur = epoch") (simp_all add: assms(2))
  show 3: "distinct vm'" using w(3) by (simp add: assms(3))
  show 4: "set vm' = hd_Validator ` set bs'"
    using w(4) by (cases "header_epoch cur = epoch") (simp_all add: assms(2,3))
  have "last bs' = cur" by (simp add: assms(2))
  then show "walked chain bs' (header_epoch cur) vm' p" if "cr_GetHeaderByHash chain (hd_ParentHash cur) = Some p"
    using 1 2 3 4 that by (simp add: walked_def chain_path_def successively_append_iff)
qed

lemma confirm_walk_quorum:
  assumes "numbered chain head" "hd_Number confirmed = Some c" "0 \<le> c" "c < 2 ^ 63"
  shows "ancestor chain head cur \<Longrightarrow> hd_Number cur = Some (int n) \<Longrightarrow> walked chain bs epoch vm cur \<Longrightarrow>
    \<exists>r. confirm_walk K chain confirmed (Some g) epoch vm cur = Some r
      \<and> (case r of Inl e \<Rightarrow> e = ErrNilBlockHeader | Inr None \<Rightarrow> True
         | Inr (Some h) \<Rightarrow> ancestor chain head h \<and> c < the (hd_Number h) \<and> (\<exists>bs. quorum chain g h bs))"
proof (induction n arbitrary: cur bs epoch vm rule: less_induct)
  case (less n)
  obtain m t where m: "hd_Number cur = Some m" "hd_Time cur = Some t" "0 \<le> m" "m < 2 ^ 63"
      "\<And>p. cr_GetHeaderByHash chain (hd_ParentHash cur) = Some p \<Longrightarrow> hd_Number p = Some (m - 1)"
    using numberedD [OF assms(1) less.prems(1)] by blast
  note unf = confirm_walk.simps [of K chain confirmed "Some g" epoch vm cur]
  define bs' vm' where "bs' = (if header_epoch cur \<noteq> epoch then [] else bs) @ [cur]"
    and "vm' = List.insert (hd_Validator cur) (if header_epoch cur \<noteq> epoch then [] else vm)"
  note nx = walked_next [OF less.prems(3) bs'_def vm'_def]
  show ?case
  proof (cases "confirm_step K confirmed (Some g) epoch vm cur")
    case (WalkOn epoch' vm'')
    note on = confirm_step_on [OF WalkOn, folded vm'_def]
    show ?thesis
    proof (cases "cr_GetHeaderByHash chain (hd_ParentHash cur)")
      case None
      then show ?thesis using unf WalkOn by simp
    next
      case (Some p)
      have p: "ancestor chain head p" using less.prems(1) Some by (rule ancestor.parent)
      obtain m' where m': "hd_Number p = Some m'" "0 \<le> m'" using numberedD [OF assms(1) p] by blast
      then have "n \<noteq> 0" using m(1) m(5) [OF Some] less.prems(2) by auto
      then obtain k where k: "n = Suc k" by (cases n) auto
      have "hd_Number p = Some (int k)" using k m(1) m(5) [OF Some] less.prems(2) by simp
      from less.IH [OF _ p this nx(5) [OF Some]] k show ?thesis using unf WalkOn Some on(1,2) by simp
    qed
  next
    case (WalkDone r)
    show ?thesis
    proof (cases r)
      case (Inl e)
      then show ?thesis using confirm_step_error WalkDone m assms(2) by fastforce
    next
      case (Inr ho)
      show ?thesis
      proof (cases ho)
        case None
        then show ?thesis using unf WalkDone Inr by simp
      next
        case (Some h)
        note cf = confirm_step_confirm [OF WalkDone [unfolded Inr Some], folded vm'_def]
        have "card (hd_Validator ` set bs') = length vm'" using distinct_card [OF nx(3)] nx(4) by simp
        moreover have "bs' \<noteq> []" "last bs' = cur" by (simp_all add: bs'_def)
        ultimately have "quorum chain g h bs'" using cf(1,2) nx(1,2) by (simp add: quorum_def)
        then have "\<exists>bs. quorum chain g h bs" ..
        moreover have "c < m" using cf(3) m(1) assms(2) big_Uint64_less [OF assms(3,4) m(3,4)] by simp
        ultimately show ?thesis using unf WalkDone Inr Some cf(1) less.prems(1) m(1) by simp
      qed
    qed
  qed
qed

text \<open>
  C4: Confirmation of blocks. On a chain whose headers are numbered without gaps the update of the
  confirmed block returns. It leaves the confirmed block as it is, or moves it up to a block on the
  current chain below which, within one epoch, a quorum of different validators has built: two thirds
  of the validators and one more, counted down the chain from some later block to the confirmed one.
\<close>

theorem confirmed_quorum:
  assumes "numbered chain cur" "cr_CurrentHeader chain = Some cur" "cr_GetHeaderByNumber chain 0 = Some g"
    "start_header chain d = Inr confirmed" "hd_Number confirmed = Some c" "0 \<le> c" "c < 2 ^ 63"
  shows "\<exists>d' e. updateConfirmedBlockHeader K put chain d = Some (d', e)
    \<and> (e = None \<or> e = Some ErrNilBlockHeader \<or> e = Some ErrDbPut)
    \<and> (en_confirmedBlockHeader d' = Some confirmed
       \<or> (\<exists>h bs. en_confirmedBlockHeader d' = Some h \<and> ancestor chain cur h \<and> c < the (hd_Number h) \<and> quorum chain g h bs))"
proof -
  obtain n t where n: "hd_Number cur = Some n" "0 \<le> n"
    using numberedD [OF assms(1) ancestor.self] by blast
  have "walked chain [] (- 1) [] cur" by (simp add: walked_def chain_path_def)
  then obtain r where r: "confirm_walk K chain confirmed (Some g) (- 1) [] cur = Some r"
      "case r of Inl e \<Rightarrow> e = ErrNilBlockHeader | Inr None \<Rightarrow> True
       | Inr (Some h) \<Rightarrow> ancestor chain cur h \<and> c < the (hd_Number h) \<and> (\<exists>bs. quorum chain g h bs)"
    using confirm_walk_quorum [OF assms(1,5-7) ancestor.self, of "nat n"] n by fastforce
  show ?thesis
  proof (cases r)
    case (Inl e)
    then show ?thesis using r assms by (simp add: updateConfirmedBlockHeader_def Let_def)
  next
    case (Inr ho)
    show ?thesis
    proof (cases ho)
      case None
      then show ?thesis using r Inr assms by (simp add: updateConfirmedBlockHeader_def Let_def)
    next
      case (Some h)
      then show ?thesis using r Inr assms
        by (auto simp: updateConfirmedBlockHeader_def Let_def storeConfirmedBlockHeader_def split: option.splits)
    qed
  qed
qed

section \<open>Progress of confirmation\<close>

lemma sint64_sub:
  assumes "- (2 ^ 63) \<le> sint a - sint b" "sint a - sint b < 2 ^ 63"
  shows "sint (a - b :: int64) = sint a - sint b"
proof -
  have "a - b = word_of_int (sint a - sint b)" by (simp flip: wi_hom_sub)
  then show ?thesis using sint64_eq [OF assms] by simp
qed

lemma sint64_add:
  assumes "- (2 ^ 63) \<le> sint a + sint b" "sint a + sint b < 2 ^ 63"
  shows "sint (a + b :: int64) = sint a + sint b"
proof -
  have "a + b = word_of_int (sint a + sint b)" by (simp flip: wi_hom_add)
  then show ?thesis using sint64_eq [OF assms] by simp
qed

lemma sint_big_Int64: "0 \<le> n \<Longrightarrow> n < 2 ^ 63 \<Longrightarrow> sint (big_Int64 n) = n"
  unfolding big_Int64_def by (rule sint64_eq) simp_all

text \<open>A step of the walk that meets none of the conditions to stop.\<close>

lemma confirm_step_go:
  assumes "header_Hash K x \<noteq> header_Hash K confirmed" "hd_Number confirmed = Some c" "0 \<le> c"
    "hd_Number x = Some n" "n < 2 ^ 63" "hd_Time x \<noteq> None"
    "vm' = (if header_epoch x \<noteq> epoch then [] else vm)" "hd_Validator x \<notin> set vm'"
    "int (length vm') + int k = sint (consensusSize g)" "0 < k" "int k \<le> n - c"
  shows "confirm_step K confirmed (Some g) epoch vm x =
    (if k = 1 then WalkDone (Inr (Some x)) else WalkOn (header_epoch x) (hd_Validator x # vm'))"
proof -
  obtain t where t: "hd_Time x = Some t" using assms(6) by blast
  have c: "c < 2 ^ 63" "0 \<le> n" using assms(3,5,10,11) by linarith+
  have lt: "big_Uint64 c < big_Uint64 n" using big_Uint64_less [OF assms(3) c(1) c(2) assms(5)] assms(10,11) by simp
  have "int (length vm') < 2 ^ 63" using assms(9) sint64_bounds(2) [of "consensusSize g"] by linarith
  then have len: "length vm' < 2 ^ 63" by simp
  have "sint (big_Int64 n - big_Int64 c) = n - c"
    using sint64_sub [of "big_Int64 n" "big_Int64 c"] sint_big_Int64 c assms(3,5) by simp
  moreover have "sint (consensusSize g - word_of_nat (length vm')) = int k"
    using sint64_sub [of "consensusSize g" "word_of_nat (length vm')"] sint64_of_nat [OF len] assms(9)
      sint64_bounds [of "consensusSize g"] by simp
  ultimately have "\<not> sint (big_Int64 n - big_Int64 c) < sint (consensusSize g - word_of_nat (length vm'))"
    using assms(11) by simp
  moreover have "int (Suc (length vm')) \<ge> sint (consensusSize g) \<longleftrightarrow> k = 1" using assms(9,10) by linarith
  moreover have "List.insert (hd_Validator x) vm' = hd_Validator x # vm'" using assms(8) by simp
  ultimately show ?thesis
    using assms(1,2,4,7) t lt by (simp add: confirm_step_def header_epoch_def Let_def eq_commute [of "header_Hash K x"])
qed

lemma confirm_walk_live:
  assumes "hd_Number confirmed = Some c" "0 \<le> c"
  shows "chain_path chain (x # xs) \<Longrightarrow> \<forall>y \<in> set (x # xs). header_Hash K y \<noteq> header_Hash K confirmed \<and> hd_Time y \<noteq> None
        \<and> header_epoch y = e \<Longrightarrow>
    hd_Number x = Some n \<Longrightarrow> n < 2 ^ 63 \<Longrightarrow> \<forall>i < length (x # xs). hd_Number ((x # xs) ! i) = Some (n - int i) \<Longrightarrow>
    vm' = (if e \<noteq> epoch then [] else vm) \<Longrightarrow> distinct (map hd_Validator (x # xs)) \<Longrightarrow>
    set vm' \<inter> hd_Validator ` set (x # xs) = {} \<Longrightarrow>
    int (length vm') + int (length (x # xs)) = sint (consensusSize g) \<Longrightarrow> int (length (x # xs)) \<le> n - c \<Longrightarrow>
    confirm_walk K chain confirmed (Some g) epoch vm x = Some (Inr (Some (last (x # xs))))"
proof (induction xs arbitrary: x n epoch vm vm')
  case (Nil x n epoch vm vm')
  have "confirm_step K confirmed (Some g) epoch vm x = WalkDone (Inr (Some x))"
    using confirm_step_go [OF _ assms, of K x n vm' epoch vm 1 g] Nil by simp
  then show ?case by (subst confirm_walk.simps) simp
next
  case (Cons y ys x n epoch vm vm')
  have x: "header_Hash K x \<noteq> header_Hash K confirmed" "hd_Time x \<noteq> None" "header_epoch x = e" using Cons.prems(2) by simp_all
  have "hd_Validator x \<notin> set vm'" using Cons.prems(8) by auto
  note go = confirm_step_go [OF x(1) assms Cons.prems(3,4) x(2) Cons.prems(6) [folded x(3)] this Cons.prems(9) _ Cons.prems(10)]
  have "confirm_step K confirmed (Some g) epoch vm x = WalkOn e (hd_Validator x # vm')" using go x(3) by simp
  moreover have "cr_GetHeaderByHash chain (hd_ParentHash x) = Some y" using Cons.prems(1) by (simp add: chain_path_def)
  moreover have "confirm_walk K chain confirmed (Some g) e (hd_Validator x # vm') y = Some (Inr (Some (last (y # ys))))"
  proof (rule Cons.IH [where n = "n - 1" and vm' = "hd_Validator x # vm'"])
    show "\<forall>i < length (y # ys). hd_Number ((y # ys) ! i) = Some (n - 1 - int i)"
    proof (intro allI impI)
      fix i assume "i < length (y # ys)"
      then show "hd_Number ((y # ys) ! i) = Some (n - 1 - int i)" using Cons.prems(5) [rule_format, of "Suc i"] by simp
    qed
    show "hd_Number y = Some (n - 1)" using Cons.prems(5) [rule_format, of 1] by simp
    show "chain_path chain (y # ys)" using Cons.prems(1) by (simp add: chain_path_def)
    show "\<forall>y \<in> set (y # ys). header_Hash K y \<noteq> header_Hash K confirmed \<and> hd_Time y \<noteq> None \<and> header_epoch y = e"
      using Cons.prems(2) by simp
    show "n - 1 < 2 ^ 63" using Cons.prems(4) by simp
    show "hd_Validator x # vm' = (if e \<noteq> e then [] else hd_Validator x # vm')" by simp
    show "distinct (map hd_Validator (y # ys))" using Cons.prems(7) by simp
    show "set (hd_Validator x # vm') \<inter> hd_Validator ` set (y # ys) = {}" using Cons.prems(7,8) by auto
    show "int (length (hd_Validator x # vm')) + int (length (y # ys)) = sint (consensusSize g)" using Cons.prems(9) by simp
    show "int (length (y # ys)) \<le> n - 1 - c" using Cons.prems(10) by simp
  qed
  ultimately show ?case by (subst confirm_walk.simps) simp
qed

lemma chain_path_ancestor:
  "chain_path chain (x # xs) \<Longrightarrow> ancestor chain head x \<Longrightarrow> y \<in> set (x # xs) \<Longrightarrow> ancestor chain head y"
proof (induction xs arbitrary: x)
  case (Cons z zs)
  then have "ancestor chain head z" using ancestor.parent [of chain head x z] by (simp add: chain_path_def)
  then show ?case using Cons by (auto simp: chain_path_def)
qed simp

lemma chain_path_numbers:
  assumes "numbered chain head"
  shows "chain_path chain (x # xs) \<Longrightarrow> ancestor chain head x \<Longrightarrow> hd_Number x = Some n \<Longrightarrow> i < length (x # xs) \<Longrightarrow>
    hd_Number ((x # xs) ! i) = Some (n - int i)"
proof (induction xs arbitrary: x n i)
  case (Cons z zs)
  show ?case
  proof (cases i)
    case (Suc j)
    have p: "cr_GetHeaderByHash chain (hd_ParentHash x) = Some z" using Cons.prems(1) by (simp add: chain_path_def)
    then have "hd_Number z = Some (n - 1)" using numberedD [OF assms Cons.prems(2)] Cons.prems(3) by (metis option.inject)
    then show ?thesis
      using Cons.IH [of z "n - 1" j] Cons.prems(1,4) ancestor.parent [OF Cons.prems(2) p] Suc by (simp add: chain_path_def)
  qed (use Cons.prems in simp)
qed simp

text \<open>A write to disk stores the value, or fails.\<close>

definition put_ok :: "diskPut \<Rightarrow> bool" where
  "put_ok put \<longleftrightarrow> (\<forall>k v db db'. put k v db = Some db' \<longrightarrow> db' = mem_Put k v db)"

lemma updateConfirmed_progress:
  assumes "numbered chain cur" "cr_CurrentHeader chain = Some cur" "cr_GetHeaderByNumber chain 0 = Some g"
    "start_header chain d = Inr confirmed" "hd_Number confirmed = Some c" "0 \<le> c"
    "chain_path chain (cur # bs)" "distinct (map hd_Validator (cur # bs))"
    "int (length (cur # bs)) = sint (consensusSize g)" "hd_Number (last (cur # bs)) = Some m" "c < m"
    "\<forall>x \<in> set (cur # bs). header_epoch x = header_epoch cur \<and> header_Hash K x \<noteq> header_Hash K confirmed"
    "put_ok put" "\<forall>k v db. put k v db \<noteq> None"
    "\<forall>h. length (header_Hash K h) = 32" "cr_GetHeaderByHash chain (header_Hash K (last (cur # bs))) = Some (last (cur # bs))"
  shows "\<exists>d'. updateConfirmedBlockHeader K put chain d = Some (d', None)
    \<and> en_confirmedBlockHeader d' = Some (last (cur # bs)) \<and> loadConfirmedBlockHeader chain d' = Inr (last (cur # bs))"
proof -
  let ?h = "last (cur # bs)"
  obtain n t where n: "hd_Number cur = Some n" "hd_Time cur = Some t" "0 \<le> n" "n < 2 ^ 63"
    using numberedD [OF assms(1) ancestor.self] by blast
  have num: "\<forall>i < length (cur # bs). hd_Number ((cur # bs) ! i) = Some (n - int i)"
    using chain_path_numbers [OF assms(1,7) ancestor.self n(1)] by blast
  have "last (cur # bs) = (cur # bs) ! length bs" by (simp add: last_conv_nth)
  then have "m = n - int (length bs)" using num [rule_format, of "length bs"] assms(10) by simp
  then have le: "int (length (cur # bs)) \<le> n - c" using assms(11) by simp
  have "\<forall>y \<in> set (cur # bs). header_Hash K y \<noteq> header_Hash K confirmed \<and> hd_Time y \<noteq> None \<and> header_epoch y = header_epoch cur"
  proof
    fix y assume y: "y \<in> set (cur # bs)"
    then have "hd_Time y \<noteq> None" using numberedD [OF assms(1) chain_path_ancestor [OF assms(7) ancestor.self y]] by blast
    then show "header_Hash K y \<noteq> header_Hash K confirmed \<and> hd_Time y \<noteq> None \<and> header_epoch y = header_epoch cur"
      using assms(12) y by blast
  qed
  from confirm_walk_live [OF assms(5,6,7) this n(1,4) num, of "[]" "- 1" "[]" g] assms(8,9) le
  have w: "confirm_walk K chain confirmed (Some g) (- 1) [] cur = Some (Inr (Some ?h))" by simp
  obtain db where db: "put confirmedBlockHead (header_Hash K ?h) (en_db d) = Some db" using assms(14) by blast
  then have "db = mem_Put confirmedBlockHead (header_Hash K ?h) (en_db d)" using assms(13) unfolding put_ok_def by blast
  then have db': "db confirmedBlockHead = Some (header_Hash K ?h)" by (simp add: mem_Put_def)
  let ?d = "d\<lparr>en_confirmedBlockHeader := Some ?h, en_db := db\<rparr>"
  have "updateConfirmedBlockHeader K put chain d = Some (?d, None)"
    using w db assms(2-4) by (simp add: updateConfirmedBlockHeader_def Let_def storeConfirmedBlockHeader_def)
  moreover have "BytesToHash (header_Hash K ?h) = header_Hash K ?h" using assms(15) BytesToHash_32 by blast
  then have "loadConfirmedBlockHeader chain ?d = Inr ?h"
    using db' assms(16) by (simp add: loadConfirmedBlockHeader_def mem_Get_def)
  ultimately show ?thesis by (intro exI [of _ ?d]) simp
qed

text \<open>
  C13: Progress of confirmation. As soon as the blocks at the top of the chain are minted within one
  epoch by as many different validators as a quorum needs, all above the confirmed block, the
  lowest of them becomes the confirmed block. It is stored, and a node that restarts loads it again.
\<close>

theorem confirmed_progress:
  assumes "numbered chain cur" "cr_CurrentHeader chain = Some cur" "cr_GetHeaderByNumber chain 0 = Some g"
    "start_header chain d = Inr confirmed" "hd_Number confirmed = Some c" "0 \<le> c"
    "chain_path chain (cur # bs)" "distinct (map hd_Validator (cur # bs))"
    "int (length (cur # bs)) = sint (consensusSize g)" "hd_Number (last (cur # bs)) = Some m" "c < m"
    "\<forall>x \<in> set (cur # bs). header_epoch x = header_epoch cur \<and> header_Hash K x \<noteq> header_Hash K confirmed"
    "put_ok put" "\<forall>k v db. put k v db \<noteq> None"
    "\<forall>h. length (header_Hash K h) = 32" "cr_GetHeaderByHash chain (header_Hash K (last (cur # bs))) = Some (last (cur # bs))"
  shows "\<exists>d'. updateConfirmedBlockHeader K put chain d = Some (d', None)
    \<and> en_confirmedBlockHeader d' = Some (last (cur # bs)) \<and> loadConfirmedBlockHeader chain d' = Inr (last (cur # bs))"
  using assms by (rule updateConfirmed_progress)

section \<open>Seals\<close>

text \<open>The signature of a header was made with the key of the address.\<close>

definition signed_by :: "keccak \<Rightarrow> recover \<Rightarrow> header \<Rightarrow> address \<Rightarrow> bool" where
  "signed_by K ecr h a \<longleftrightarrow> (\<exists>s pub. sigHash K h = Some s \<and> ecr s (drop (length (hd_Extra h) - 65) (hd_Extra h)) = Some pub
     \<and> pub \<noteq> [] \<and> a = pub_address K pub)"

text \<open>Headers as they are decoded.\<close>

definition header_ok :: "header \<Rightarrow> bool" where
  "header_ok h \<longleftrightarrow> header_wf h \<and> length (header_bytes h) < 2 ^ 63"

text \<open>The cache only returns what was added under the key.\<close>

definition cache_law :: "'c sigCache \<Rightarrow> bool" where
  "cache_law sc \<longleftrightarrow> (\<forall>c k k' a. fst (sc_Get sc (snd (sc_Get sc c k)) k') = Some a \<longrightarrow> fst (sc_Get sc c k') = Some a)
     \<and> (\<forall>c k v k' a. fst (sc_Get sc (sc_Add sc c k v) k') = Some a \<longrightarrow> k' = k \<and> a = v \<or> fst (sc_Get sc c k') = Some a)"

text \<open>Every entry of the cache is the signer of a header with that hash.\<close>

definition cache_ok :: "keccak \<Rightarrow> recover \<Rightarrow> 'c sigCache \<Rightarrow> 'c \<Rightarrow> bool" where
  "cache_ok K ecr sc c \<longleftrightarrow> (\<forall>k a. fst (sc_Get sc c k) = Some a \<longrightarrow> (\<exists>h. header_ok h \<and> header_Hash K h = k \<and> signed_by K ecr h a))"

lemma cache_ok_Get: "cache_law sc \<Longrightarrow> cache_ok K ecr sc c \<Longrightarrow> cache_ok K ecr sc (snd (sc_Get sc c k))"
  unfolding cache_law_def cache_ok_def by blast

lemma cache_ok_Add:
  "cache_law sc \<Longrightarrow> cache_ok K ecr sc c \<Longrightarrow> header_ok h \<Longrightarrow> signed_by K ecr h a \<Longrightarrow> cache_ok K ecr sc (sc_Add sc c (header_Hash K h) a)"
  unfolding cache_law_def cache_ok_def by metis

lemma ecrecover_signed:
  assumes "cache_law sc" "cache_ok K ecr sc c" "ecrecover K ecr sc h c = (r, c')"
    "header_ok h" "\<And>h'. header_ok h' \<Longrightarrow> header_Hash K h' = header_Hash K h \<Longrightarrow> h' = h"
  shows "cache_ok K ecr sc c'" "r = Inr a \<Longrightarrow> signed_by K ecr h a"
proof -
  obtain o1 c1 where g: "sc_Get sc c (header_Hash K h) = (o1, c1)" by fastforce
  have ok: "cache_ok K ecr sc c1" using cache_ok_Get [OF assms(1,2), of "header_Hash K h"] g by simp
  have "cache_ok K ecr sc c' \<and> (\<forall>a. r = Inr a \<longrightarrow> signed_by K ecr h a)"
  proof (cases o1)
    case (Some a)
    then have "\<exists>h'. header_ok h' \<and> header_Hash K h' = header_Hash K h \<and> signed_by K ecr h' a"
      using assms(2) g unfolding cache_ok_def by (metis fst_conv)
    then have "signed_by K ecr h a" using assms(5) by blast
    then show ?thesis using assms(3) g Some ok by (auto simp: ecrecover_def)
  next
    case None
    show ?thesis
    proof (cases "length (hd_Extra h) < 65 \<or> sigHash K h = None")
      case True
      then show ?thesis using assms(3) g None ok by (auto simp: ecrecover_def extraSeal_def split: if_splits)
    next
      case False
      then obtain s where s: "\<not> length (hd_Extra h) < 65" "sigHash K h = Some s" by blast
      show ?thesis
      proof (cases "ecr s (drop (length (hd_Extra h) - 65) (hd_Extra h))")
        case e: None
        then show ?thesis using assms(3) g None ok s by (auto simp: ecrecover_def extraSeal_def)
      next
        case pub: (Some pub)
        have "signed_by K ecr h (pub_address K pub)" if "pub \<noteq> []" using s(2) pub that by (auto simp: signed_by_def)
        then show ?thesis using assms(3) g None ok s pub cache_ok_Add [OF assms(1) ok assms(4)]
          by (auto simp: ecrecover_def extraSeal_def split: if_splits)
      qed
    qed
  qed
  then show "cache_ok K ecr sc c'" "r = Inr a \<Longrightarrow> signed_by K ecr h a" by blast+
qed

text \<open>The validator whose turn it is at the time of a header, by the context of its parent.\<close>

definition slot_owner :: "memDatabase \<Rightarrow> chainReader \<Rightarrow> uint64 \<Rightarrow> header \<Rightarrow> address \<Rightarrow> bool" where
  "slot_owner db chain interval h v \<longleftrightarrow> (\<exists>num time parent proto ctx. hd_Number h = Some num \<and> hd_Time h = Some time
     \<and> cr_GetHeader chain (hd_ParentHash h) (big_Uint64 num - 1) = Some parent \<and> hd_DposContext parent = Some proto
     \<and> NewDposContextFromProto (NewDatabase db) proto = Inr ctx
     \<and> fst (lookupValidator (epoch_context ctx) (big_Int64 time) interval) = Inr v)"

lemma VerifySeal_cases:
  assumes "VerifySeal K ecr sc put chain h genesis d = Some (d', None)"
  obtains v d1 where "big_Uint64 (the (hd_Number h)) \<noteq> 0" "slot_owner (en_db d) chain (hd_BlockInterval genesis) h v"
    "verifyBlockSigner K ecr sc v h d = (d1, None)" "updateConfirmedBlockHeader K put chain d1 = Some (d', None)"
  using assms
  by (auto simp: VerifySeal_def verifySeal_def Let_def slot_owner_def split: option.splits if_splits sum.splits prod.splits)

lemma verifyBlockSigner_ok:
  assumes "verifyBlockSigner K ecr sc v h d = (d1, None)"
  shows "\<exists>c. ecrecover K ecr sc h (en_signatures d) = (Inr v, c) \<and> d1 = d\<lparr>en_signatures := c\<rparr>" "hd_Validator h = v"
  using assms by (auto simp: verifyBlockSigner_def split: prod.splits sum.splits if_splits)

lemma updateConfirmed_signatures:
  "updateConfirmedBlockHeader K put chain d = Some (d', e) \<Longrightarrow> en_signatures d' = en_signatures d"
  by (auto simp: updateConfirmedBlockHeader_def Let_def storeConfirmedBlockHeader_def split: sum.splits option.splits)

text \<open>
  C3: What an accepted seal shows. If the seal of a header is accepted then the header was signed with
  the key of the validator whose turn it is in the slot of the header, by the DPoS context of its
  parent, and names this validator. Signers taken from the cache are no exception, as long as no
  other header has the hash of this one; and the entry that the check adds to the cache is right.
\<close>

theorem seal_authentic:
  assumes "VerifySeal K ecr sc put chain h genesis d = Some (d', None)" "cache_law sc"
    "cache_ok K ecr sc (en_signatures d)" "header_ok h" "\<forall>h'. header_ok h' \<and> header_Hash K h' = header_Hash K h \<longrightarrow> h' = h"
  shows "slot_owner (en_db d) chain (hd_BlockInterval genesis) h (hd_Validator h) \<and> signed_by K ecr h (hd_Validator h)
    \<and> cache_ok K ecr sc (en_signatures d')"
proof -
  obtain v d1 where v: "slot_owner (en_db d) chain (hd_BlockInterval genesis) h v"
      "verifyBlockSigner K ecr sc v h d = (d1, None)" "updateConfirmedBlockHeader K put chain d1 = Some (d', None)"
    using VerifySeal_cases [OF assms(1)] .
  obtain c where c: "ecrecover K ecr sc h (en_signatures d) = (Inr v, c)" "d1 = d\<lparr>en_signatures := c\<rparr>" "hd_Validator h = v"
    using verifyBlockSigner_ok [OF v(2)] by blast
  have "cache_ok K ecr sc c" "signed_by K ecr h v"
    using ecrecover_signed [OF assms(2,3) c(1) assms(4)] assms(5) by blast+
  then show ?thesis using v(1) c(2,3) updateConfirmed_signatures [OF v(3)] by simp
qed

text \<open>The signature does not cover the block interval.\<close>

lemma sigHash_interval: "sigHash K (h\<lparr>hd_BlockInterval := b\<rparr>) = sigHash K h"
  by (simp add: sigHash_def split: option.splits)

lemma slot_owner_interval: "slot_owner db chain i (h\<lparr>hd_BlockInterval := b\<rparr>) v = slot_owner db chain i h v"
  by (simp add: slot_owner_def)

lemma updateConfirmed_other_signatures:
  "updateConfirmedBlockHeader K put chain (d\<lparr>en_signatures := c\<rparr>) =
    map_option (\<lambda>(d', e). (d'\<lparr>en_signatures := c\<rparr>, e)) (updateConfirmedBlockHeader K put chain d)"
  by (simp add: updateConfirmedBlockHeader_def start_header_def loadConfirmedBlockHeader_def storeConfirmedBlockHeader_def Let_def
      split: sum.splits option.splits)

lemma VerifySealI:
  assumes "slot_owner (en_db d) chain (hd_BlockInterval genesis) h v" "big_Uint64 (the (hd_Number h)) \<noteq> 0"
    "verifyBlockSigner K ecr sc v h d = (d1, None)"
  shows "VerifySeal K ecr sc put chain h genesis d = updateConfirmedBlockHeader K put chain d1"
  using assms by (auto simp: VerifySeal_def verifySeal_def Let_def slot_owner_def split: prod.splits)

text \<open>
  C32: The seal does not cover the block interval. A header whose seal is valid stays valid when its
  block interval is replaced by any other value: the same validator is found to have signed it.
\<close>

theorem seal_malleable:
  assumes "VerifySeal K ecr sc put chain h genesis d = Some (d', None)"
    "fst (sc_Get sc (en_signatures d) (header_Hash K h)) = None"
    "fst (sc_Get sc (en_signatures d) (header_Hash K (h\<lparr>hd_BlockInterval := b\<rparr>))) = None"
  shows "\<exists>c. VerifySeal K ecr sc put chain (h\<lparr>hd_BlockInterval := b\<rparr>) genesis d = Some (d'\<lparr>en_signatures := c\<rparr>, None)"
proof -
  let ?h = "h\<lparr>hd_BlockInterval := b\<rparr>"
  obtain v d1 where v: "big_Uint64 (the (hd_Number h)) \<noteq> 0" "slot_owner (en_db d) chain (hd_BlockInterval genesis) h v"
      "verifyBlockSigner K ecr sc v h d = (d1, None)" "updateConfirmedBlockHeader K put chain d1 = Some (d', None)"
    using VerifySeal_cases [OF assms(1)] .
  obtain c where c: "ecrecover K ecr sc h (en_signatures d) = (Inr v, c)" "d1 = d\<lparr>en_signatures := c\<rparr>" "hd_Validator h = v"
    using verifyBlockSigner_ok [OF v(3)] by blast
  have "\<exists>c'. ecrecover K ecr sc ?h (en_signatures d) = (Inr v, c')"
    using c(1) assms(2,3) sigHash_interval [of K b h]
    by (cases "sc_Get sc (en_signatures d) (header_Hash K h)"; cases "sc_Get sc (en_signatures d) (header_Hash K ?h)")
      (auto simp: ecrecover_def split: if_splits option.splits)
  then obtain c' where "ecrecover K ecr sc ?h (en_signatures d) = (Inr v, c')" ..
  then have "verifyBlockSigner K ecr sc v ?h d = (d\<lparr>en_signatures := c'\<rparr>, None)" using c(3) by (simp add: verifyBlockSigner_def)
  then have "VerifySeal K ecr sc put chain ?h genesis d = updateConfirmedBlockHeader K put chain (d\<lparr>en_signatures := c'\<rparr>)"
    using VerifySealI [of d chain genesis ?h v K ecr sc] v(1,2) by (simp add: slot_owner_interval)
  also have "\<dots> = Some (d'\<lparr>en_signatures := c'\<rparr>, None)"
    using updateConfirmed_other_signatures [where d = d1 and c = c' and K = K and put = put and chain = chain] v(4) c(2) by simp
  finally show ?thesis by blast
qed

text \<open>What the account manager promises of the function that signs.\<close>

definition signs :: "keccak \<Rightarrow> recover \<Rightarrow> (address \<Rightarrow> bytes \<Rightarrow> bytes option) \<Rightarrow> address \<Rightarrow> bool" where
  "signs K ecr signFn a \<longleftrightarrow> (\<forall>s. \<exists>sig pub. signFn a s = Some sig \<and> length sig = 65 \<and> ecr s sig = Some pub
     \<and> pub \<noteq> [] \<and> pub_address K pub = a)"

lemma sigHash_extra:
  assumes "65 \<le> length (hd_Extra h)" "length seal = 65"
  shows "sigHash K (h\<lparr>hd_Extra := take (length (hd_Extra h) - 65) (hd_Extra h) @ seal\<rparr>) = sigHash K h"
  using assms by (simp add: sigHash_def split: option.splits)

lemma sigHash_ex: "65 \<le> length (hd_Extra h) \<Longrightarrow> hd_DposContext h \<noteq> None \<Longrightarrow> \<exists>s. sigHash K h = Some s"
  by (auto simp: sigHash_def)

text \<open>
  C27: A block that the engine seals passes the check of its seal. With a function that signs for the
  address of the engine, sealing a block that names this address as its validator succeeds unless it
  is stopped; the sealed header is signed by the address, and the check of the signer accepts it.
\<close>

theorem seal_round_trip:
  assumes "big_Uint64 (the (hd_Number (block_Header b))) \<noteq> 0" "65 \<le> length (hd_Extra (bk_header b))"
    "cr_GetHeaderByNumber chain 0 = Some g" "hd_BlockInterval g \<noteq> 0" "en_signFn d = Some signFn"
    "signs K ecr signFn (en_signer d)" "hd_Validator (bk_header b) = en_signer d"
  shows "\<exists>b'. Seal K chain now False b d = Inr (Some b') \<and> signed_by K ecr (bk_header b') (en_signer d)
    \<and> (fst (sc_Get sc (en_signatures d') (header_Hash K (bk_header b'))) = None \<longrightarrow>
        snd (verifyBlockSigner K ecr sc (en_signer d) (bk_header b') d') = None)"
proof -
  let ?h = "block_Header b" and ?n = "length (hd_Extra (block_Header b)) - 65"
  have h: "hd_Extra ?h = hd_Extra (bk_header b)" "hd_Validator ?h = en_signer d" "hd_DposContext ?h \<noteq> None" "hd_Number ?h \<noteq> None"
    using assms(7) by (simp_all add: block_Header_def CopyHeader_def)
  obtain s where s: "sigHash K ?h = Some s" using sigHash_ex [of ?h K] assms(2) h by auto
  obtain sig pub where sig: "signFn (en_signer d) s = Some sig" "length sig = 65" "ecr s sig = Some pub" "pub \<noteq> []"
      "pub_address K pub = en_signer d"
    using assms(6) unfolding signs_def by blast
  define h' where "h' = ?h\<lparr>hd_Extra := take ?n (hd_Extra ?h) @ sig\<rparr>"
  have "Seal K chain now False b d = Inr (Some (WithSeal b h'))"
    using assms(1,3-5) h(1,4) s sig assms(2) by (auto simp: Seal_def Let_def NextSlot_def extraSeal_def h'_def)
  moreover have h': "hd_Validator h' = en_signer d" "length (hd_Extra h') = length (hd_Extra ?h)" "drop (length (hd_Extra h') - 65) (hd_Extra h') = sig"
    using h assms(2) sig(2) by (simp_all add: h'_def)
  moreover have sh: "sigHash K h' = Some s"
    using sigHash_extra [of ?h sig K] assms(2) h(1) sig(2) s by (simp add: h'_def)
  then have "signed_by K ecr h' (en_signer d)" using h'(3) sig(3-5) by (auto simp: signed_by_def)
  moreover have "snd (verifyBlockSigner K ecr sc (en_signer d) h' d') = None"
    if "fst (sc_Get sc (en_signatures d') (header_Hash K h')) = None"
    using that sh h' sig(3-5) assms(2) h(1)
    by (cases "sc_Get sc (en_signatures d') (header_Hash K h')") (simp add: verifyBlockSigner_def ecrecover_def extraSeal_def)
  ultimately show ?thesis by (intro exI [of _ "WithSeal b h'"]) (simp add: WithSeal_def)
qed

section \<open>Chains of headers\<close>

lemma verifyHeader_ok:
  assumes "verifyHeader K now chain h (ps @ [p]) interval = None"
  shows "\<exists>n t pn pt. hd_Number h = Some n \<and> hd_Time h = Some t \<and> hd_Number p = Some pn \<and> hd_Time p = Some pt
    \<and> t \<le> sint now \<and> big_Uint64 pn = big_Uint64 n - 1 \<and> header_Hash K p = hd_ParentHash h
    \<and> big_Uint64 pt + interval \<le> big_Uint64 t"
  using assms by (auto simp: verifyHeader_def Let_def not_less split: option.splits if_splits)

definition plain_header :: "header \<Rightarrow> bool" where
  "plain_header h \<longleftrightarrow> (case (hd_Number h, hd_Time h) of (Some n, Some t) \<Rightarrow> 0 \<le> n \<and> n < 2 ^ 63 \<and> 0 \<le> t \<and> t < 2 ^ 63 | _ \<Rightarrow> False)"

lemma verifyHeader_plain:
  assumes "verifyHeader K now chain h (ps @ [p]) interval = None" "plain_header h" "plain_header p" "uint interval < 2 ^ 63"
  shows "hd_ParentHash h = header_Hash K p" "the (hd_Number h) = the (hd_Number p) + 1"
    "the (hd_Time p) + uint interval \<le> the (hd_Time h)" "the (hd_Time h) \<le> sint now"
proof -
  obtain n t pn pt where o: "hd_Number h = Some n" "hd_Time h = Some t" "hd_Number p = Some pn" "hd_Time p = Some pt"
      "t \<le> sint now" "big_Uint64 pn = big_Uint64 n - 1" "header_Hash K p = hd_ParentHash h"
      "big_Uint64 pt + interval \<le> big_Uint64 t"
    using verifyHeader_ok [OF assms(1)] by blast
  have r: "0 \<le> n" "n < 2 ^ 63" "0 \<le> t" "t < 2 ^ 63" "0 \<le> pn" "pn < 2 ^ 63" "0 \<le> pt" "pt < 2 ^ 63"
    using assms(2,3) o by (simp_all add: plain_header_def)
  have u: "uint (big_Uint64 n) = n" "uint (big_Uint64 t) = t" "uint (big_Uint64 pn) = pn" "uint (big_Uint64 pt) = pt"
    using r by (simp_all add: big_Uint64_def uint_word_of_int)
  have "uint (big_Uint64 pt + interval) = pt + uint interval"
    using u(4) r(7,8) assms(4) by (subst uint_plus_if_size) (simp add: word_size)
  then show "the (hd_Time p) + uint interval \<le> the (hd_Time h)" using o u(2) by (simp add: word_le_def)
  have "big_Uint64 n = big_Uint64 pn + 1" using o(6) by simp
  moreover have "uint (big_Uint64 pn + 1) = pn + 1" using u(3) r(5,6) by (subst uint_plus_if_size) (simp add: word_size)
  ultimately have "n = pn + 1" using u(1) by simp
  then show "the (hd_Number h) = the (hd_Number p) + 1" using o r by simp
  show "hd_ParentHash h = header_Hash K p" "the (hd_Time h) \<le> sint now" using o by simp_all
qed

text \<open>
  C16: Batches of headers. If every header of a batch is accepted then the batch is a chain: each header
  names the hash of the one before, its number is the next, and it is at least one block interval
  later; so the header at index \<open>j\<close> is at least \<open>j\<close> intervals later than the first, and none is
  later than the clock of the node.
\<close>

theorem verify_headers_chain:
  assumes "VerifyHeaders K now chain hs = Some rs" "\<forall>r \<in> set rs. r = None" "\<forall>h \<in> set hs. plain_header h"
    "cr_GetHeaderByNumber chain 0 = Some g" "uint (hd_BlockInterval g) < 2 ^ 63" "j < length hs"
  shows "(0 < j \<longrightarrow> hd_ParentHash (hs ! j) = header_Hash K (hs ! (j - 1)))
    \<and> the (hd_Number (hs ! j)) = the (hd_Number (hs ! 0)) + int j
    \<and> the (hd_Time (hs ! 0)) + int j * uint (hd_BlockInterval g) \<le> the (hd_Time (hs ! j))
    \<and> the (hd_Time (hs ! j)) \<le> sint now"
proof -
  have v: "verifyHeader K now chain (hs ! i) (take i hs) (hd_BlockInterval g) = None" if "i < length hs" for i
    using assms(1,2,4) that by (auto simp: VerifyHeaders_def)
  show ?thesis using assms(6)
  proof (induction j)
    case 0
    obtain n t where "hd_Number (hs ! 0) = Some n" "hd_Time (hs ! 0) = Some t" "t \<le> sint now"
      using v [OF 0] by (auto simp: verifyHeader_def Let_def not_less split: option.splits if_splits)
    then show ?case by simp
  next
    case (Suc j)
    have "take (Suc j) hs = take j hs @ [hs ! j]" using Suc.prems by (simp add: take_Suc_conv_app_nth)
    then have "verifyHeader K now chain (hs ! Suc j) (take j hs @ [hs ! j]) (hd_BlockInterval g) = None"
      using v [OF Suc.prems] by simp
    note p = verifyHeader_plain [OF this _ _ assms(5)]
    have "plain_header (hs ! Suc j)" "plain_header (hs ! j)" using assms(3) Suc.prems by simp_all
    note q = p [OF this]
    show ?case using q Suc by (simp add: algebra_simps)
  qed
qed

section \<open>Counts of minted blocks\<close>

definition mint_key :: "int64 \<Rightarrow> address \<Rightarrow> bytes" where
  "mint_key time validator = putUint64 (quot64 time epochInterval) @ validator"

lemma mint_key_hex: "keybytesToHex (a @ b) = butlast (keybytesToHex a) @ keybytesToHex b"
  by (simp add: keybytesToHex_def)

text \<open>The iterator that starts at the epoch meets every count of the epoch.\<close>

lemma mint_iter:
  assumes "ptrie K pfx t M" "empty_free K"
  shows "\<exists>b it. iter_Next (trie_leaves K t start) = Inr (b, it) \<and> (M (start @ k) \<noteq> None \<longrightarrow> b)"
proof -
  have "trie_ok K t M" using assms(1) by (simp add: ptrie_def)
  then obtain l where l: "trie_leaves K t start = Some (Inr l)"
      "set l = {(k, v). M k = Some v \<and> bytes_le (butlast (keybytesToHex start)) (keybytesToHex k)}"
    using trie_leaves_ok [OF _ ptrie_root [OF assms(2,1)], of _ start] by blast
  have "l \<noteq> []" if "M (start @ k) = Some v" for v
  proof -
    have "(start @ k, v) \<in> set l" using that l(2) by (simp add: mint_key_hex bytes_le_append)
    then show ?thesis by auto
  qed
  then show ?thesis using l(1) by (cases l) (auto simp: iter_Next_def)
qed

lemma updateMintCnt_store:
  assumes "ptrie K pfx t M" "k = putUint64 e @ v"
  shows "\<exists>t'. TryUpdate t k (putUint64 c) = Inr t' \<and> ptrie K pfx t' (M(k \<mapsto> putUint64 c))"
proof -
  have "putUint64 c \<noteq> []" using length_putUint64 [of c] by (metis length_0_conv zero_neq_numeral)
  then show ?thesis using dpos_kv.put_rep [of K pfx t M "putUint64 c" k] assms(1) by blast
qed

lemma updateMintCnt_rep:
  assumes "ptrie K mintCntPrefix (dc_mintCnt d) M" "empty_free K" "\<forall>k b. M k = Some b \<longrightarrow> length b = 8"
  shows "\<exists>t. updateMintCnt K parentTime time validator d = (d\<lparr>dc_mintCnt := t\<rparr>, None)
    \<and> ptrie K mintCntPrefix t (M(mint_key time validator \<mapsto> putUint64
        (if quot64 parentTime epochInterval = quot64 time epochInterval
         then (case M (mint_key time validator) of None \<Rightarrow> 0 | Some b \<Rightarrow> the (getUint64 b)) + 1 else 1)))"
proof (cases "quot64 parentTime epochInterval = quot64 time epochInterval")
  case False
  obtain t where "TryUpdate (dc_mintCnt d) (mint_key time validator) (putUint64 1) = Inr t"
      "ptrie K mintCntPrefix t (M(mint_key time validator \<mapsto> putUint64 1))"
    using updateMintCnt_store [OF assms(1) mint_key_def] by blast
  then show ?thesis using False by (intro exI [of _ t]) (simp add: updateMintCnt_def Let_def mint_key_def)
next
  case True
  let ?k = "mint_key time validator" and ?t = "snd (trie_Hash K (dc_mintCnt d))"
  have k: "?k = putUint64 (quot64 parentTime epochInterval) @ validator" using True by (simp add: mint_key_def)
  obtain b it where it: "iter_Next (trie_leaves K (dc_mintCnt d) (putUint64 (quot64 parentTime epochInterval))) = Inr (b, it)"
      "M ?k \<noteq> None \<longrightarrow> b"
    using mint_iter [OF assms(1,2), of "putUint64 (quot64 parentTime epochInterval)" validator] k by auto
  have p: "ptrie K mintCntPrefix ?t M" using ptrie_Hash [OF assms(1)] .
  obtain t1 where t1: "Get ?t ?k = Inr (M ?k, t1)" "ptrie K mintCntPrefix t1 M" using ptrie_Get [OF p] by blast
  define c where "c = (case M ?k of None \<Rightarrow> 0 | Some b \<Rightarrow> the (getUint64 b)) + 1"
  have cnt: "(case M ?k of None \<Rightarrow> Some 0 | Some b \<Rightarrow> getUint64 b) = Some (c - 1)"
    using assms(3) by (cases "M ?k") (auto simp: c_def getUint64_def)
  show ?thesis
  proof (cases b)
    case True': True
    obtain t where t: "TryUpdate t1 ?k (putUint64 c) = Inr t" "ptrie K mintCntPrefix t (M(?k \<mapsto> putUint64 c))"
      using updateMintCnt_store [OF t1(2) mint_key_def] by blast
    then have "updateMintCnt K parentTime time validator d = (d\<lparr>dc_mintCnt := t\<rparr>, None)"
      using it t1(1) cnt True True' k by (simp add: updateMintCnt_def Let_def)
    then show ?thesis using t(2) True c_def by auto
  next
    case False
    then have c: "c = 1" using it(2) by (auto simp: c_def)
    obtain t where t: "TryUpdate ?t ?k (putUint64 c) = Inr t" "ptrie K mintCntPrefix t (M(?k \<mapsto> putUint64 c))"
      using updateMintCnt_store [OF p mint_key_def] by blast
    then have "updateMintCnt K parentTime time validator d = (d\<lparr>dc_mintCnt := t\<rparr>, None)"
      using it False True k c by (simp add: updateMintCnt_def Let_def)
    then show ?thesis using t(2) True c_def by auto
  qed
qed

text \<open>
  C28: Counting minted blocks. Recording a block in the table of counts succeeds and changes the entry of its
  validator in its epoch alone: the count goes up by one, starting from zero when there is no entry,
  and starts at one in the first block of an epoch. The other tables stay as they are.
\<close>

theorem mint_count:
  assumes "ptrie K mintCntPrefix (dc_mintCnt d) M" "empty_free K" "\<forall>k b. M k = Some b \<longrightarrow> length b = 8"
  shows "\<exists>t. updateMintCnt K parentTime time validator d = (d\<lparr>dc_mintCnt := t\<rparr>, None)
    \<and> ptrie K mintCntPrefix t (M(mint_key time validator \<mapsto> putUint64
        (if quot64 parentTime epochInterval = quot64 time epochInterval
         then (case M (mint_key time validator) of None \<Rightarrow> 0 | Some b \<Rightarrow> the (getUint64 b)) + 1 else 1)))"
  using assms by (rule updateMintCnt_rep)

section \<open>Slots\<close>

lemma slots:
  assumes "0 < sint b" "0 < sint now" "sint now + sint b < 2 ^ 63"
  shows "PrevSlot now b = Some p \<Longrightarrow> sint p = (sint now - 1) div sint b * sint b"
    "NextSlot now b = Some n \<Longrightarrow> sint n = (sint now - 1) div sint b * sint b + sint b"
proof -
  let ?q = "(sint now - 1) div sint b"
  have q: "0 \<le> ?q" using assms by (simp add: pos_imp_zdiv_nonneg_iff)
  have q': "?q * sint b \<le> sint now - 1"
    using assms(1) pos_mod_sign [of "sint b" "sint now - 1"] div_mult_mod_eq [of "sint now - 1" "sint b"] by linarith
  have b: "b \<noteq> 0" using assms(1) by auto
  have mul: "sint (x * b) = sint x * sint b" if "0 \<le> sint x * sint b" "sint x * sint b < 2 ^ 63" for x
  proof -
    have "x * b = word_of_int (sint x * sint b)" by (simp flip: wi_hom_mult)
    then show ?thesis using sint64_eq [of "sint x * sint b"] that by simp
  qed
  have n1: "sint (now - 1) = sint now - 1" using sint64_sub [of now 1] assms by simp
  then have d: "sint (quot64 (now - 1) b) = ?q" using sint_quot64 [of "now - 1" b] assms by simp
  show "sint p = ?q * sint b" if "PrevSlot now b = Some p"
    using that b mul [of "quot64 (now - 1) b"] d q q' assms(1,3) by (auto simp: PrevSlot_def)
  have "sint (now + b - 1) = sint now - 1 + sint b"
    using sint64_add [of now b] sint64_sub [of "now + b" 1] assms by simp
  then have d': "sint (quot64 (now + b - 1) b) = ?q + 1" using sint_quot64 [of "now + b - 1" b] assms div_add_self2 [of "sint b" "sint now - 1"] by simp
  have e: "(?q + 1) * sint b = ?q * sint b + sint b" by (simp add: algebra_simps)
  show "sint n = ?q * sint b + sint b" if "NextSlot now b = Some n"
    using that b mul [of "quot64 (now + b - 1) b"] d' e q q' assms by (auto simp: NextSlot_def)
qed

text \<open>
  C12: The engine mints only in its own slots, and at most once in each. If it may mint now then, for a
  block interval that divides the epoch, the time lies on the boundary of a slot, the last block is
  earlier than the slot, and the validators of the context of the last block give the slot to the
  address of the engine.
\<close>

theorem mint_slot:
  assumes "CheckValidator d lastBlock now b = None" "0 < sint b" "sint b dvd 60" "0 < sint now" "sint now + sint b < 2 ^ 63"
  shows "sint b dvd sint now \<and> sint (big_Int64 (the (hd_Time (bk_header lastBlock)))) < sint now
    \<and> en_signer d \<noteq> zeroAddress
    \<and> (\<exists>proto ctx. hd_DposContext (block_Header lastBlock) = Some proto
        \<and> NewDposContextFromProto (NewDatabase (en_db d)) proto = Inr ctx
        \<and> fst (lookupValidator (epoch_context ctx) now b) = Inr (en_signer d))"
proof -
  obtain proto ctx where c: "checkDeadline lastBlock now b = None" "hd_DposContext (block_Header lastBlock) = Some proto"
      "NewDposContextFromProto (NewDatabase (en_db d)) proto = Inr ctx"
      "fst (lookupValidator (epoch_context ctx) now b) = Inr (en_signer d)" "en_signer d \<noteq> zeroAddress"
    using assms(1) by (auto simp: CheckValidator_def split: option.splits sum.splits prod.splits if_splits)
  have "rem64 (rem64 now epochInterval) b = 0"
    using c(4) by (auto simp: lookupValidator_def Let_def split: if_splits)
  then have "sint (rem64 (rem64 now epochInterval) b) = 0" by simp
  moreover have "sint epochInterval = 60" by (simp add: epochInterval_def)
  ultimately have "sint now mod 60 mod sint b = 0"
    using sint_rem64 [of now epochInterval] sint_rem64 [of "rem64 now epochInterval" b] assms(2,4) by simp
  then have dvd: "sint b dvd sint now" using assms(3) by (simp add: mod_mod_cancel dvd_eq_mod_eq_0)
  obtain prev nxt time where t: "PrevSlot now b = Some prev" "NextSlot now b = Some nxt" "hd_Time (bk_header lastBlock) = Some time"
      "sint (big_Int64 time) < sint nxt"
    using c(1) by (auto simp: checkDeadline_def split: option.splits if_splits)
  obtain k where k: "sint now = sint b * k" using dvd by blast
  have "(sint now - 1) div sint b = k - 1"
  proof -
    have "sint now - 1 = sint b * (k - 1) + (sint b - 1)" using k by (simp add: algebra_simps)
    then show ?thesis using assms(2) by (metis add.commute diff_ge_0_iff_ge div_mult_self2 div_pos_pos_trivial less_irrefl int_one_le_iff_zero_less
      zle_diff1_eq order_refl add_0)
  qed
  then have "sint nxt = (k - 1) * sint b + sint b" using slots(2) [OF assms(2,4,5) t(2)] by simp
  then have "sint nxt = sint now" using k by (simp add: algebra_simps)
  then show ?thesis using dvd t(3,4) c(2-5) by simp
qed

section \<open>Examples\<close>

text \<open>A chain of a genesis block and one block, with one validator, stored in the epoch trie on disk.\<close>

definition sample_proto :: dposProto where
  "sample_proto = zeroProto\<lparr>px_EpochHash := replicate 32 7\<rparr>"

definition sample_disk :: memDatabase where
  "sample_disk = [replicate 32 7 \<mapsto> [0xE2, 0x8A, 0x20] @ validator_key @ [0x96, 0xD5, 0x94] @ replicate 20 1]"

definition genesis_header :: header where
  "genesis_header = sample_header\<lparr>hd_ParentHash := replicate 32 5, hd_Number := Some 0, hd_Time := Some 0,
     hd_DposContext := Some sample_proto, hd_MaxValidatorSize := 1\<rparr>"

definition first_header :: header where
  "first_header = genesis_header\<lparr>hd_ParentHash := replicate 32 1, hd_Number := Some 1, hd_Time := Some 10, hd_Validator := replicate 20 1\<rparr>"

text \<open>A hash function that tells the first header from everything else.\<close>

definition first_hash :: keccak where
  "first_hash b = (if b = header_bytes first_header then replicate 32 0 else replicate 32 1)"

definition sample_chain :: chainReader where
  "sample_chain = \<lparr>cr_Config = DposChainConfig, cr_CurrentHeader = Some first_header,
     cr_GetHeader = (\<lambda>h n. if n = 0 then Some genesis_header else if n = 1 then Some first_header else None),
     cr_GetHeaderByNumber = (\<lambda>n. if n = 0 then Some genesis_header else if n = 1 then Some first_header else None),
     cr_GetHeaderByHash = (\<lambda>h. if h = replicate 32 0 then Some first_header else if h = replicate 32 1 then Some genesis_header else None)\<rparr>"

definition no_cache :: "unit sigCache" where
  "no_cache = \<lparr>sc_Get = (\<lambda>c h. (None, c)), sc_Add = (\<lambda>c h a. c)\<rparr>"

definition sample_engine :: "unit dpos" where
  "sample_engine = \<lparr>en_config = \<lparr>dp_Validators = [], dp_MaxValidatorSize = 1, dp_BlockInterval = 10\<rparr>, en_db = sample_disk,
     en_signer = replicate 20 1, en_signFn = Some (\<lambda>a s. Some (replicate 65 0)), en_signatures = (),
     en_confirmedBlockHeader = None\<rparr>"

abbreviation any_key :: recover where
  "any_key s sig \<equiv> Some [4]"

abbreviation mem_put :: diskPut where
  "mem_put k v db \<equiv> Some (mem_Put k v db)"

lemma header_Hash_bytes: "header_ok h \<Longrightarrow> header_Hash K h = K (header_bytes h)"
  using encode_typed_enc [OF enc_as_header, of h] by (simp add: header_ok_def header_Hash_def rlpHash_def)

lemma header_bytes_inject: "header_ok h \<Longrightarrow> header_ok h' \<Longrightarrow> header_bytes h = header_bytes h' \<Longrightarrow> h = h'"
proof -
  assume ok: "header_ok h" "header_ok h'" and eq: "header_bytes h = header_bytes h'"
  have "DecodeBytes (Suc (length (header_bytes x))) header_type (header_bytes x) = Inr (header_val x)" if "header_ok x" for x
    using DecodeBytes_enc [OF enc_as_header, of x "Suc (length (header_bytes x))"] that by (simp add: header_ok_def)
  from this [OF ok(1)] this [OF ok(2)] eq have "header_val h = header_val h'" by simp
  then show ?thesis using header_of_val ok unfolding header_ok_def by metis
qed

lemma sample_headers_ok: "header_ok genesis_header" "header_ok first_header"
proof -
  have wf: "header_wf genesis_header" "header_wf first_header"
    using sample_header_wf
    by (auto simp: header_wf_def genesis_header_def first_header_def sample_header_def sample_proto_def proto_wf_def zeroProto_def big_wf_def)
  have "length (hd_Extra x) = 97" "length (big_bytes (hd_Difficulty x)) \<le> 9" "length (big_bytes (hd_Number x)) \<le> 9"
      "length (big_bytes (hd_Time x)) \<le> 9" if "x = genesis_header \<or> x = first_header" for x
    using that by (auto simp: genesis_header_def first_header_def sample_header_def big_bytes_def nat_bytes_small)
  then have "length (header_bytes x) < 2 ^ 63" if "x = genesis_header \<or> x = first_header" for x
    using that header_bytes_le [of x] wf by fastforce
  then show "header_ok genesis_header" "header_ok first_header" using wf by (simp_all add: header_ok_def)
qed

lemma sample_hashes:
  "header_Hash first_hash first_header = replicate 32 0"
  "header_Hash first_hash genesis_header = replicate 32 1"
  "header_ok h \<Longrightarrow> header_Hash first_hash h = header_Hash first_hash first_header \<Longrightarrow> h = first_header"
proof -
  have ne: "replicate 32 0 \<noteq> (replicate 32 1 :: bytes)" using arg_cong [of "replicate 32 0" "replicate 32 1 :: bytes" hd] by auto
  show 1: "header_Hash first_hash first_header = replicate 32 0"
    using header_Hash_bytes [OF sample_headers_ok(2)] by (simp add: first_hash_def)
  show 3: "h = first_header" if "header_ok h" "header_Hash first_hash h = header_Hash first_hash first_header" for h
  proof -
    have "header_bytes h = header_bytes first_header"
      using that(2) 1 ne header_Hash_bytes [OF that(1), of first_hash] by (simp add: first_hash_def split: if_splits)
    then show ?thesis by (rule header_bytes_inject [OF that(1) sample_headers_ok(2)])
  qed
  have "hd_Number genesis_header \<noteq> hd_Number first_header" by (simp add: genesis_header_def first_header_def)
  then have "genesis_header \<noteq> first_header" by auto
  then have "header_bytes genesis_header \<noteq> header_bytes first_header" using header_bytes_inject sample_headers_ok by blast
  then show "header_Hash first_hash genesis_header = replicate 32 1"
    using header_Hash_bytes [OF sample_headers_ok(1)] by (simp add: first_hash_def)
qed

lemma sample_ancestor: "ancestor sample_chain first_header h \<Longrightarrow> h = first_header \<or> h = genesis_header"
proof (induction rule: ancestor.induct)
  case (parent h p)
  have "replicate 32 5 \<noteq> (replicate 32 0 :: bytes)" "replicate 32 5 \<noteq> (replicate 32 1 :: bytes)"
    using arg_cong [of "replicate 32 5" "replicate 32 0 :: bytes" hd] arg_cong [of "replicate 32 5" "replicate 32 1 :: bytes" hd] by auto
  then show ?case using parent.IH parent.hyps(2)
    by (auto simp: sample_chain_def first_header_def genesis_header_def split: if_splits)
qed simp

lemma sample_parent: "cr_GetHeaderByHash sample_chain (hd_ParentHash first_header) = Some genesis_header"
  "cr_GetHeaderByHash sample_chain (hd_ParentHash genesis_header) = None"
proof -
  have "replicate 32 5 \<noteq> (replicate 32 0 :: bytes)" "replicate 32 5 \<noteq> (replicate 32 1 :: bytes)" "replicate 32 1 \<noteq> (replicate 32 0 :: bytes)"
    using arg_cong [of "replicate 32 5" "replicate 32 0 :: bytes" hd] arg_cong [of "replicate 32 5" "replicate 32 1 :: bytes" hd]
      arg_cong [of "replicate 32 1" "replicate 32 0 :: bytes" hd] by auto
  then show "cr_GetHeaderByHash sample_chain (hd_ParentHash first_header) = Some genesis_header"
    "cr_GetHeaderByHash sample_chain (hd_ParentHash genesis_header) = None"
    by (simp_all add: sample_chain_def first_header_def genesis_header_def)
qed

lemma sample_numbers: "hd_Number first_header = Some 1" "hd_Time first_header = Some 10"
  "hd_Number genesis_header = Some 0" "hd_Time genesis_header = Some 0"
  by (simp_all add: first_header_def genesis_header_def)

lemma sample_numbered: "numbered sample_chain first_header"
  unfolding numbered_def using sample_ancestor sample_parent sample_numbers by fastforce

lemma sample_start: "start_header sample_chain sample_engine = Inr genesis_header"
proof -
  have "hd confirmedBlockHead \<noteq> hd (replicate 32 7 :: bytes)" by (simp add: confirmedBlockHead_def)
  then have "confirmedBlockHead \<noteq> replicate 32 7" by metis
  then have "mem_Get confirmedBlockHead sample_disk = None" by (simp add: mem_Get_def sample_disk_def)
  then show ?thesis by (simp add: start_header_def sample_engine_def loadConfirmedBlockHeader_def sample_chain_def)
qed

lemma sample_consensus: "consensusSize genesis_header = 1"
  by (simp add: consensusSize_def genesis_header_def)

lemma sample_progress_hyps:
  "cr_CurrentHeader sample_chain = Some first_header" "cr_GetHeaderByNumber sample_chain 0 = Some genesis_header"
  "\<forall>h. length (header_Hash first_hash h) = 32"
  by (simp_all add: sample_chain_def header_Hash_def rlpHash_def first_hash_def split: sum.splits)

lemma sample_walk:
  "header_Hash first_hash first_header \<noteq> header_Hash first_hash genesis_header"
  "cr_GetHeaderByHash sample_chain (header_Hash first_hash first_header) = Some first_header"
proof -
  show "header_Hash first_hash first_header \<noteq> header_Hash first_hash genesis_header"
    unfolding sample_hashes(1,2) using arg_cong [of "replicate 32 0" "replicate 32 1 :: bytes" hd] by auto
  show "cr_GetHeaderByHash sample_chain (header_Hash first_hash first_header) = Some first_header"
    unfolding sample_hashes(1) by (simp add: sample_chain_def)
qed

lemma sample_confirms: "\<exists>d'. updateConfirmedBlockHeader first_hash mem_put sample_chain sample_engine = Some (d', None)"
  using updateConfirmed_progress [OF sample_numbered sample_progress_hyps(1,2) sample_start sample_numbers(3), of "[]" 1 first_hash mem_put]
    sample_consensus sample_numbers sample_progress_hyps(3) sample_walk by (auto simp: chain_path_def put_ok_def)

theorem confirmed_progress_witness:
  "\<exists>d'. updateConfirmedBlockHeader first_hash mem_put sample_chain sample_engine = Some (d', None)
    \<and> en_confirmedBlockHeader d' = Some first_header \<and> loadConfirmedBlockHeader sample_chain d' = Inr first_header"
  using confirmed_progress [OF sample_numbered sample_progress_hyps(1,2) sample_start sample_numbers(3), of "[]" 1 first_hash mem_put]
    sample_consensus sample_numbers sample_progress_hyps(3) sample_walk by (simp add: chain_path_def put_ok_def)

theorem confirmed_quorum_witness:
  "\<exists>d' e. updateConfirmedBlockHeader first_hash (\<lambda>k v db. None) sample_chain sample_engine = Some (d', e)
    \<and> (e = None \<or> e = Some ErrNilBlockHeader \<or> e = Some ErrDbPut)"
  using confirmed_quorum [OF sample_numbered sample_progress_hyps(1,2) sample_start sample_numbers(3), of first_hash "\<lambda>k v db. None"]
  by fastforce

lemma sample_owner:
  "(case NewDposContextFromProto (NewDatabase sample_disk) sample_proto of Inl e \<Rightarrow> None
    | Inr c \<Rightarrow> Some (fst (lookupValidator (epoch_context c) 10 10))) = Some (Inr (replicate 20 1))"
  by code_simp

lemma sample_slot_owner: "slot_owner (en_db sample_engine) sample_chain (hd_BlockInterval genesis_header) first_header (replicate 20 1)"
proof -
  obtain c where c: "NewDposContextFromProto (NewDatabase sample_disk) sample_proto = Inr c"
      "fst (lookupValidator (epoch_context c) 10 10) = Inr (replicate 20 1)"
    using sample_owner by (cases "NewDposContextFromProto (NewDatabase sample_disk) sample_proto") auto
  have "hd_BlockInterval genesis_header = 10" "hd_DposContext genesis_header = Some sample_proto"
    by (simp_all add: genesis_header_def sample_header_def)
  moreover have "cr_GetHeader sample_chain (hd_ParentHash first_header) (big_Uint64 1 - 1) = Some genesis_header"
    by (simp add: sample_chain_def big_Uint64_def)
  moreover have "en_db sample_engine = sample_disk" by (simp add: sample_engine_def)
  ultimately show ?thesis unfolding slot_owner_def using c sample_numbers
    by (intro exI [of _ 1] exI [of _ 10] exI [of _ genesis_header] exI [of _ sample_proto] exI [of _ c]) (simp add: big_Int64_def)
qed

lemma sample_signed: "signed_by first_hash any_key first_header (replicate 20 1)"
proof -
  have "item List c \<noteq> []" for c by (simp add: item_def puthead_def Let_def)
  then have "header_bytes first_header \<noteq> []" unfolding header_bytes_def by blast
  then have "first_hash [] = replicate 32 1" by (simp add: first_hash_def)
  moreover have "\<exists>s. sigHash first_hash first_header = Some s"
    by (rule sigHash_ex) (simp_all add: first_header_def genesis_header_def sample_header_def)
  ultimately show ?thesis unfolding signed_by_def by (auto simp: pub_address_def)
qed

lemma sample_no_cache: "cache_law no_cache" "cache_ok K ecr no_cache c" "fst (sc_Get no_cache c h) = None"
  by (simp_all add: cache_law_def cache_ok_def no_cache_def)

lemma sample_seal:
  "\<exists>d'. VerifySeal first_hash any_key no_cache mem_put sample_chain first_header genesis_header sample_engine = Some (d', None)"
proof -
  obtain s where s: "sigHash first_hash first_header = Some s" "pub_address first_hash [4] = replicate 20 1"
    using sample_signed unfolding signed_by_def by auto
  have "hd_Validator first_header = replicate 20 1" "65 \<le> length (hd_Extra first_header)"
    by (simp_all add: first_header_def genesis_header_def sample_header_def)
  then have "verifyBlockSigner first_hash any_key no_cache (replicate 20 1) first_header sample_engine = (sample_engine, None)"
    using s by (simp add: verifyBlockSigner_def ecrecover_def no_cache_def extraSeal_def)
  moreover have "big_Uint64 (the (hd_Number first_header)) \<noteq> 0" using sample_numbers by (simp add: big_Uint64_def)
  ultimately have "VerifySeal first_hash any_key no_cache mem_put sample_chain first_header genesis_header sample_engine
      = updateConfirmedBlockHeader first_hash mem_put sample_chain sample_engine"
    using VerifySealI [OF sample_slot_owner] by simp
  then show ?thesis using sample_confirms by auto
qed

theorem seal_authentic_witness:
  "slot_owner sample_disk sample_chain 10 first_header (replicate 20 1) \<and> signed_by first_hash any_key first_header (replicate 20 1)"
proof -
  obtain d' where "VerifySeal first_hash any_key no_cache mem_put sample_chain first_header genesis_header sample_engine = Some (d', None)"
    using sample_seal ..
  from seal_authentic [OF this sample_no_cache(1,2) sample_headers_ok(2)] sample_hashes(3)
  show ?thesis by (auto simp: sample_engine_def first_header_def genesis_header_def sample_header_def)
qed

theorem seal_malleable_witness:
  "\<exists>d'. VerifySeal first_hash any_key no_cache mem_put sample_chain (first_header\<lparr>hd_BlockInterval := 99\<rparr>) genesis_header sample_engine = Some (d', None)"
proof -
  obtain d' where "VerifySeal first_hash any_key no_cache mem_put sample_chain first_header genesis_header sample_engine = Some (d', None)"
    using sample_seal ..
  from seal_malleable [OF this sample_no_cache(3) sample_no_cache(3)] show ?thesis by blast
qed

definition first_block :: block where
  "first_block = \<lparr>bk_header = first_header, bk_uncles = [], bk_transactions = []\<rparr>"

lemma sample_signs: "signs first_hash any_key (\<lambda>a s. Some (replicate 65 0)) (replicate 20 1)"
  using sample_signed unfolding signed_by_def signs_def by simp

theorem seal_round_trip_witness:
  "\<exists>b'. Seal first_hash sample_chain 3 False first_block sample_engine = Inr (Some b')
    \<and> snd (verifyBlockSigner first_hash any_key no_cache (replicate 20 1) (bk_header b') sample_engine) = None"
proof -
  have h: "big_Uint64 (the (hd_Number (block_Header first_block))) \<noteq> 0" "65 \<le> length (hd_Extra (bk_header first_block))"
      "hd_BlockInterval genesis_header \<noteq> 0" "hd_Validator (bk_header first_block) = en_signer sample_engine"
    by (simp_all add: first_block_def block_Header_def CopyHeader_def first_header_def genesis_header_def sample_header_def big_Uint64_def
        sample_engine_def)
  have e: "en_signFn sample_engine = Some (\<lambda>a s. Some (replicate 65 0))" "en_signer sample_engine = replicate 20 1"
    by (simp_all add: sample_engine_def)
  show ?thesis
    using seal_round_trip [OF h(1,2) sample_progress_hyps(2) h(3) e(1) sample_signs [folded e(2)] h(4), where sc = no_cache and d' = sample_engine and now = 3]
      sample_no_cache(3) e(2) by auto
qed

definition next_headers :: "header list" where
  "next_headers = [sample_header\<lparr>hd_Time := Some 20\<rparr>, sample_header\<lparr>hd_Number := Some 2, hd_Time := Some 30\<rparr>]"

lemma zero_rlpHash: "rlpHash (\<lambda>b. zeroHash) t v = zeroHash"
  by (simp add: rlpHash_def split: sum.splits)

lemma next_headers_ok: "VerifyHeaders (\<lambda>b. zeroHash) 100 sample_chain next_headers = Some [None, None]"
  by (simp add: VerifyHeaders_def next_headers_def sample_chain_def verifyHeader_def Let_def sample_header_def extraVanity_def
      extraSeal_def big_Uint64_def uncleHash_def CalcUncleHash_def header_Hash_def zero_rlpHash VerifyForkHashes_def DposChainConfig_def
      genesis_header_def)

theorem verify_headers_chain_witness:
  "VerifyHeaders (\<lambda>b. zeroHash) 100 sample_chain next_headers = Some [None, None]
   \<and> the (hd_Time (next_headers ! 0)) + 1 * uint (hd_BlockInterval genesis_header) \<le> the (hd_Time (next_headers ! 1))"
proof -
  have "\<forall>h \<in> set next_headers. plain_header h" "1 < length next_headers"
    by (simp_all add: next_headers_def plain_header_def sample_header_def)
  moreover have "uint (hd_BlockInterval genesis_header) < 2 ^ 63" by (simp add: genesis_header_def sample_header_def)
  ultimately show ?thesis
    using verify_headers_chain [OF next_headers_ok _ _ sample_progress_hyps(2), of 1] next_headers_ok by simp
qed

lemma sample_mint: "ptrie ne_hash mintCntPrefix (dc_mintCnt sample_ctx) Map.empty"
  using nil_trie_ok by (simp add: ptrie_def sample_ctx_def Let_def)

theorem mint_count_witness:
  "\<exists>t. updateMintCnt ne_hash 60 70 (replicate 20 1) sample_ctx = (sample_ctx\<lparr>dc_mintCnt := t\<rparr>, None)
    \<and> ptrie ne_hash mintCntPrefix t [mint_key 70 (replicate 20 1) \<mapsto> putUint64 1]"
proof -
  have "epoch_of 60 = epoch_of 70" by (simp add: quot64_def epochInterval_def signed_divide_int_def)
  then show ?thesis using mint_count [OF sample_mint ne_hash_empty_free, of 60 70 "replicate 20 1"] by simp
qed

lemma sample_check: "CheckValidator sample_engine (first_block\<lparr>bk_header := genesis_header\<rparr>) 10 10 = None"
proof -
  obtain c where c: "NewDposContextFromProto (NewDatabase sample_disk) sample_proto = Inr c"
      "fst (lookupValidator (epoch_context c) 10 10) = Inr (replicate 20 1)"
    using sample_owner by (cases "NewDposContextFromProto (NewDatabase sample_disk) sample_proto") auto
  have "checkDeadline (first_block\<lparr>bk_header := genesis_header\<rparr>) 10 10 = None"
    unfolding checkDeadline_def PrevSlot_def NextSlot_def using sample_numbers(4) by (simp add: quot64_def big_Int64_def)
  moreover have "replicate 20 1 \<noteq> zeroAddress" using arg_cong [of "replicate 20 1" zeroAddress hd] by (auto simp: zeroAddress_def AddressLength_def)
  ultimately show ?thesis using c
    by (cases "lookupValidator (epoch_context c) 10 10")
      (simp add: CheckValidator_def block_Header_def CopyHeader_def genesis_header_def sample_engine_def)
qed

theorem mint_slot_witness:
  "CheckValidator sample_engine (first_block\<lparr>bk_header := genesis_header\<rparr>) 10 10 = None \<and> sint (10 :: int64) dvd sint (10 :: int64)"
  using mint_slot [OF sample_check] sample_check by simp

end
