(* ===== verification/State_DB.thy ===== *)
theory State_DB
  imports Trie_Persistence Block_Types "HOL-Library.AList"
begin

text \<open>
  The state database: \<open>trie/secure_trie.go\<close> and \<open>core/state\<close> (\<open>database.go\<close>,
  \<open>state_object.go\<close>, \<open>journal.go\<close>, \<open>statedb.go\<close>). Accounts live in a trie whose keys are the hashes of
  the addresses; the state keeps the accounts it has loaded as objects, records every change of an
  object in a journal, and undoes changes by running the journal backwards.

  The node database that the code shares by pointer is one value: the tries are attached to the
  database of the state whenever they are used. A Go map that is iterated over is an association
  list. The cache of code sizes, which only repeats lengths of code, is left out. A committed trie is put
  into the list of past tries as a value, where the code puts the pointer that the state goes on using: a
  later change of the state changes the past trie of the code too, which then serves another root. Code
  that is set is not a nil slice.
\<close>

section \<open>Secure tries\<close>

text \<open>
  The cache of keys belongs to the trie that made it (\<open>secKeyCacheOwner\<close>): \<open>None\<close> is a trie that does
  not own a cache, such as a copy.
\<close>

record secureTrie =
  st_trie :: trie
  st_secKeyCache :: "(bytes \<times> bytes) list option"

definition attached :: "database \<Rightarrow> secureTrie \<Rightarrow> trie" where
  "attached db t = (st_trie t)\<lparr>t_db := Database_node db\<rparr>"

definition NewSecure :: "hash \<Rightarrow> database \<Rightarrow> uint16 \<Rightarrow> trieError + secureTrie" where
  "NewSecure root db cachelimit =
     (case trie_New root (Database_node db) of
        Inl e \<Rightarrow> Inl e
      | Inr t \<Rightarrow> Inr \<lparr>st_trie = SetCacheLimit t cachelimit, st_secKeyCache = None\<rparr>)"

definition hashKey :: "keccak \<Rightarrow> bytes \<Rightarrow> bytes" where
  "hashKey K key = K key"

definition getSecKeyCache :: "secureTrie \<Rightarrow> (bytes \<times> bytes) list" where
  "getSecKeyCache t = (case st_secKeyCache t of None \<Rightarrow> [] | Some c \<Rightarrow> c)"

definition secure_TryGet ::
  "keccak \<Rightarrow> database \<Rightarrow> secureTrie \<Rightarrow> bytes \<Rightarrow> trieError + (bytes option \<times> secureTrie)" where
  "secure_TryGet K db t key =
     (case TryGet (attached db t) (hashKey K key) of
        Inl e \<Rightarrow> Inl e
      | Inr (v, tr) \<Rightarrow> Inr (v, t\<lparr>st_trie := tr\<rparr>))"

definition secure_TryUpdate ::
  "keccak \<Rightarrow> database \<Rightarrow> secureTrie \<Rightarrow> bytes \<Rightarrow> bytes \<Rightarrow> trieError + secureTrie" where
  "secure_TryUpdate K db t key value =
     (let hk = hashKey K key in
      case TryUpdate (attached db t) hk value of
        Inl e \<Rightarrow> Inl e
      | Inr tr \<Rightarrow> Inr (t\<lparr>st_trie := tr, st_secKeyCache := Some (AList.update hk key (getSecKeyCache t))\<rparr>))"

text \<open>The key leaves the cache also when the deletion fails.\<close>

definition secure_TryDelete ::
  "keccak \<Rightarrow> database \<Rightarrow> secureTrie \<Rightarrow> bytes \<Rightarrow> trieError option \<times> secureTrie" where
  "secure_TryDelete K db t key =
     (let hk = hashKey K key;
          t' = t\<lparr>st_secKeyCache := Some (AList.delete hk (getSecKeyCache t))\<rparr> in
      case TryDelete (attached db t') hk of
        Inl e \<Rightarrow> (Some e, t')
      | Inr tr \<Rightarrow> (None, t'\<lparr>st_trie := tr\<rparr>))"

definition secure_GetKey :: "database \<Rightarrow> secureTrie \<Rightarrow> bytes \<Rightarrow> bytes option" where
  "secure_GetKey db t shaKey =
     (case map_of (getSecKeyCache t) shaKey of
        Some key \<Rightarrow> Some key
      | None \<Rightarrow> Database_preimage db (BytesToHash shaKey))"

definition secure_Hash :: "keccak \<Rightarrow> database \<Rightarrow> secureTrie \<Rightarrow> hash \<times> secureTrie" where
  "secure_Hash K db t =
     (case trie_Hash K (attached db t) of (h, tr) \<Rightarrow> (h, t\<lparr>st_trie := tr\<rparr>))"

definition secure_Commit ::
  "keccak \<Rightarrow> secureTrie \<Rightarrow> database \<Rightarrow> (bytes \<Rightarrow> hash \<Rightarrow> database \<Rightarrow> database) option \<Rightarrow>
   hash \<times> secureTrie \<times> database" where
  "secure_Commit K t db onleaf =
     (let c = getSecKeyCache t;
          db = fold (\<lambda>(hk, key). insertPreimage (BytesToHash hk) key) c db
      in case trie_Commit K (attached db t) db onleaf of
           (root, tr, db') \<Rightarrow> (root, \<lparr>st_trie = tr, st_secKeyCache = Some []\<rparr>, db'))"

definition secure_Copy :: "secureTrie \<Rightarrow> secureTrie" where
  "secure_Copy t = t\<lparr>st_secKeyCache := None\<rparr>"

section \<open>The database of the state\<close>

record cachingDB =
  cdb_db :: database
  cdb_pastTries :: "secureTrie list"

definition MaxTrieCacheGen :: uint16 where "MaxTrieCacheGen = 120"

definition maxPastTries :: nat where "maxPastTries = 12"

definition NewCachingDB :: "(hash \<Rightarrow> bytes option) \<Rightarrow> cachingDB" where
  "NewCachingDB disk = \<lparr>cdb_db = NewDatabase disk, cdb_pastTries = []\<rparr>"

text \<open>The search for a past trie, newest first (the list is reversed); hashing fills the node caches.\<close>

fun openPast :: "keccak \<Rightarrow> database \<Rightarrow> hash \<Rightarrow> secureTrie list \<Rightarrow> secureTrie option \<times> secureTrie list" where
  "openPast K db root [] = (None, [])"
| "openPast K db root (t # ts) =
     (case secure_Hash K db t of
        (h, t') \<Rightarrow>
          if h = root then (Some (secure_Copy t'), t' # ts)
          else (case openPast K db root ts of (r, ts') \<Rightarrow> (r, t' # ts')))"

definition OpenTrie :: "keccak \<Rightarrow> cachingDB \<Rightarrow> hash \<Rightarrow> (trieError + secureTrie) \<times> cachingDB" where
  "OpenTrie K c root =
     (case openPast K (cdb_db c) root (rev (cdb_pastTries c)) of
        (r, ts) \<Rightarrow>
          ((case r of Some t \<Rightarrow> Inr t | None \<Rightarrow> NewSecure root (cdb_db c) MaxTrieCacheGen),
           c\<lparr>cdb_pastTries := rev ts\<rparr>))"

definition pushTrie :: "secureTrie \<Rightarrow> cachingDB \<Rightarrow> cachingDB" where
  "pushTrie t c =
     c\<lparr>cdb_pastTries := (if length (cdb_pastTries c) \<ge> maxPastTries then tl (cdb_pastTries c)
                          else cdb_pastTries c) @ [t]\<rparr>"

definition OpenStorageTrie :: "database \<Rightarrow> hash \<Rightarrow> trieError + secureTrie" where
  "OpenStorageTrie db root = NewSecure root db 0"

definition ContractCode :: "database \<Rightarrow> hash \<Rightarrow> bytes option" where
  "ContractCode db codeHash = Database_Node db codeHash"

definition ContractCodeSize :: "database \<Rightarrow> hash \<Rightarrow> nat option" where
  "ContractCodeSize db codeHash = map_option length (ContractCode db codeHash)"

section \<open>Accounts and state objects\<close>

record account =
  ac_Nonce :: uint64
  ac_Balance :: int
  ac_Root :: hash
  ac_CodeHash :: bytes

definition account_type :: rtype where
  "account_type = TStruct [(''Nonce'', NoTag, TUint 64), (''Balance'', NoTag, TBigIntPtr),
     (''Root'', NoTag, TByteArray 32), (''CodeHash'', NoTag, TBytes)]"

definition account_val :: "account \<Rightarrow> rval" where
  "account_val a = VStruct [VUint (unat (ac_Nonce a)), VBigPtr (Some (ac_Balance a)), VByteArray (ac_Root a),
     VBytes (ac_CodeHash a)]"

definition account_of :: "rval \<Rightarrow> account" where
  "account_of v = (let vs = un_slice v in
     \<lparr>ac_Nonce = word_of_nat (un_uint (vs ! 0)), ac_Balance = the (un_bigptr (vs ! 1)),
      ac_Root = un_bytes (vs ! 2), ac_CodeHash = un_bytes (vs ! 3)\<rparr>)"

datatype stateErr = TrieFail trieError | SplitFail rlpError | CodeFail | StorageTrieFail

record stateObject =
  so_address :: address
  so_addrHash :: hash
  so_data :: account
  so_dbErr :: "stateErr option"
  so_trie :: "secureTrie option"
  so_code :: "bytes option"
  so_cachedStorage :: "(hash \<times> hash) list"
  so_dirtyStorage :: "(hash \<times> hash) list"
  so_dirtyCode :: bool
  so_suicided :: bool
  so_deleted :: bool

definition emptyCodeHash :: "keccak \<Rightarrow> bytes" where
  "emptyCodeHash K = K []"

text \<open>A new object of an account whose balance and code hash are set.\<close>

definition newObject :: "keccak \<Rightarrow> address \<Rightarrow> account \<Rightarrow> stateObject" where
  "newObject K addr data =
     \<lparr>so_address = addr, so_addrHash = BytesToHash (K addr), so_data = data, so_dbErr = None, so_trie = None,
      so_code = None, so_cachedStorage = [], so_dirtyStorage = [], so_dirtyCode = False,
      so_suicided = False, so_deleted = False\<rparr>"

text \<open>\<open>Account{}\<close> with the defaults that \<open>newObject\<close> fills in for a nil balance and code hash.\<close>

definition emptyAccount :: "keccak \<Rightarrow> account" where
  "emptyAccount K = \<lparr>ac_Nonce = 0, ac_Balance = 0, ac_Root = zeroHash, ac_CodeHash = emptyCodeHash K\<rparr>"

definition so_empty :: "keccak \<Rightarrow> stateObject \<Rightarrow> bool" where
  "so_empty K so \<longleftrightarrow> ac_Nonce (so_data so) = 0 \<and> ac_Balance (so_data so) = 0 \<and>
     ac_CodeHash (so_data so) = emptyCodeHash K"

definition so_setError :: "stateErr option \<Rightarrow> stateObject \<Rightarrow> stateObject" where
  "so_setError e so = (if so_dbErr so = None then so\<lparr>so_dbErr := e\<rparr> else so)"

definition getTrie :: "database \<Rightarrow> stateObject \<Rightarrow> secureTrie \<times> stateObject" where
  "getTrie db so =
     (case so_trie so of
        Some t \<Rightarrow> (t, so)
      | None \<Rightarrow>
          (case OpenStorageTrie db (ac_Root (so_data so)) of
             Inr t \<Rightarrow> (t, so\<lparr>so_trie := Some t\<rparr>)
           | Inl e \<Rightarrow>
               (let t = projr (OpenStorageTrie db zeroHash)
                in (t, so_setError (Some StorageTrieFail) (so\<lparr>so_trie := Some t\<rparr>)))))"

definition so_GetState :: "keccak \<Rightarrow> database \<Rightarrow> stateObject \<Rightarrow> hash \<Rightarrow> hash \<times> stateObject" where
  "so_GetState K db so key =
     (case map_of (so_cachedStorage so) key of
        Some value \<Rightarrow> (value, so)
      | None \<Rightarrow>
          (case getTrie db so of
             (t, so) \<Rightarrow>
               (case secure_TryGet K db t key of
                  Inl e \<Rightarrow> (zeroHash, so_setError (Some (TrieFail e)) so)
                | Inr (enc, t') \<Rightarrow>
                    (let so = so\<lparr>so_trie := Some t'\<rparr>;
                         enc = (case enc of None \<Rightarrow> [] | Some b \<Rightarrow> b);
                         (value, so) =
                           (if length enc > 0
                            then (case Split enc of
                                    Inl e \<Rightarrow> (BytesToHash [], so_setError (Some (SplitFail e)) so)
                                  | Inr (_, content, _) \<Rightarrow> (BytesToHash content, so))
                            else (zeroHash, so))
                     in (value, so\<lparr>so_cachedStorage := AList.update key value (so_cachedStorage so)\<rparr>)))))"

definition so_setState :: "hash \<Rightarrow> hash \<Rightarrow> stateObject \<Rightarrow> stateObject" where
  "so_setState key value so =
     so\<lparr>so_cachedStorage := AList.update key value (so_cachedStorage so),
        so_dirtyStorage := AList.update key value (so_dirtyStorage so)\<rparr>"

definition so_setBalance :: "int \<Rightarrow> stateObject \<Rightarrow> stateObject" where
  "so_setBalance amount so = so\<lparr>so_data := (so_data so)\<lparr>ac_Balance := amount\<rparr>\<rparr>"

definition so_setNonce :: "uint64 \<Rightarrow> stateObject \<Rightarrow> stateObject" where
  "so_setNonce nonce so = so\<lparr>so_data := (so_data so)\<lparr>ac_Nonce := nonce\<rparr>\<rparr>"

definition so_setCode :: "hash \<Rightarrow> bytes option \<Rightarrow> stateObject \<Rightarrow> stateObject" where
  "so_setCode codeHash code so =
     so\<lparr>so_code := code, so_data := (so_data so)\<lparr>ac_CodeHash := codeHash\<rparr>, so_dirtyCode := True\<rparr>"

text \<open>The code of the object and the object with the code loaded; \<open>None\<close> is a nil slice.\<close>

definition so_Code :: "keccak \<Rightarrow> database \<Rightarrow> stateObject \<Rightarrow> bytes option \<times> stateObject" where
  "so_Code K db so =
     (case so_code so of
        Some c \<Rightarrow> (Some c, so)
      | None \<Rightarrow>
          if ac_CodeHash (so_data so) = emptyCodeHash K then (None, so)
          else (let code = ContractCode db (BytesToHash (ac_CodeHash (so_data so)));
                    so = (if code = None then so_setError (Some CodeFail) so else so)
                in (code, so\<lparr>so_code := code\<rparr>)))"

text \<open>
  \<open>trim_left\<close> is \<open>bytes.TrimLeft\<close> with a cut set of the zero byte. A failing update or deletion leaves the
  trie as it is.
\<close>

definition trim_left :: "bytes \<Rightarrow> bytes" where
  "trim_left = dropWhile (\<lambda>b. b = 0)"

definition put_storage :: "keccak \<Rightarrow> database \<Rightarrow> hash \<times> hash \<Rightarrow> stateObject \<Rightarrow> stateObject" where
  "put_storage K db = (\<lambda>(key, value) so.
     (let t = fst (getTrie db so);
          so = so\<lparr>so_dirtyStorage := AList.delete key (so_dirtyStorage so)\<rparr> in
      if value = zeroHash
      then (case secure_TryDelete K db t key of
              (e, t') \<Rightarrow> so_setError (map_option TrieFail e) (so\<lparr>so_trie := Some t'\<rparr>))
      else (case secure_TryUpdate K db t key (EncodeToBytes (RStr (trim_left value))) of
              Inl e \<Rightarrow> so_setError (Some (TrieFail e)) so
            | Inr t' \<Rightarrow> so\<lparr>so_trie := Some t'\<rparr>)))"

definition updateTrie :: "keccak \<Rightarrow> database \<Rightarrow> stateObject \<Rightarrow> secureTrie \<times> stateObject" where
  "updateTrie K db so =
     (let so = fold (put_storage K db) (so_dirtyStorage so) (snd (getTrie db so))
      in (the (so_trie so), so))"

definition updateRoot :: "keccak \<Rightarrow> database \<Rightarrow> stateObject \<Rightarrow> stateObject" where
  "updateRoot K db so =
     (case updateTrie K db so of
        (t, so) \<Rightarrow>
          (case secure_Hash K db t of
             (h, t') \<Rightarrow> so\<lparr>so_trie := Some t', so_data := (so_data so)\<lparr>ac_Root := h\<rparr>\<rparr>))"

definition CommitTrie :: "keccak \<Rightarrow> database \<Rightarrow> stateObject \<Rightarrow> stateErr option \<times> stateObject \<times> database" where
  "CommitTrie K db so =
     (case updateTrie K db so of
        (t, so) \<Rightarrow>
          if so_dbErr so \<noteq> None then (so_dbErr so, so, db)
          else (case secure_Commit K t db None of
                  (root, t', db') \<Rightarrow>
                    (None, so\<lparr>so_trie := Some t', so_data := (so_data so)\<lparr>ac_Root := root\<rparr>\<rparr>, db')))"

text \<open>The copy caches the dirty entries only.\<close>

definition so_deepCopy :: "keccak \<Rightarrow> stateObject \<Rightarrow> stateObject" where
  "so_deepCopy K so =
     (newObject K (so_address so) (so_data so))\<lparr>so_trie := map_option secure_Copy (so_trie so),
        so_code := so_code so, so_dirtyStorage := so_dirtyStorage so, so_cachedStorage := so_dirtyStorage so,
        so_suicided := so_suicided so, so_dirtyCode := so_dirtyCode so, so_deleted := so_deleted so\<rparr>"

section \<open>The journal\<close>

datatype journalEntry =
    createObjectChange address
  | resetObjectChange stateObject
  | suicideChange address bool int
  | balanceChange address int
  | nonceChange address uint64
  | storageChange address hash hash
  | codeChange address "bytes option" bytes
  | refundChange uint64
  | addLogChange hash
  | addPreimageChange hash
  | touchChange address

fun dirtied :: "journalEntry \<Rightarrow> address option" where
  "dirtied (createObjectChange a) = Some a"
| "dirtied (resetObjectChange prev) = None"
| "dirtied (suicideChange a prev prevbalance) = Some a"
| "dirtied (balanceChange a prev) = Some a"
| "dirtied (nonceChange a prev) = Some a"
| "dirtied (storageChange a key prevalue) = Some a"
| "dirtied (codeChange a prevcode prevhash) = Some a"
| "dirtied (refundChange prev) = None"
| "dirtied (addLogChange txhash) = None"
| "dirtied (addPreimageChange hash) = None"
| "dirtied (touchChange a) = Some a"

record journal =
  j_entries :: "journalEntry list"
  j_dirties :: "(address \<times> int) list"

definition newJournal :: journal where
  "newJournal = \<lparr>j_entries = [], j_dirties = []\<rparr>"

definition dirty_count :: "journal \<Rightarrow> address \<Rightarrow> int" where
  "dirty_count j a = (case map_of (j_dirties j) a of None \<Rightarrow> 0 | Some n \<Rightarrow> n)"

definition j_dirty :: "address \<Rightarrow> journal \<Rightarrow> journal" where
  "j_dirty a j = j\<lparr>j_dirties := AList.update a (dirty_count j a + 1) (j_dirties j)\<rparr>"

definition j_append :: "journalEntry \<Rightarrow> journal \<Rightarrow> journal" where
  "j_append e j =
     (let j = j\<lparr>j_entries := j_entries j @ [e]\<rparr>
      in case dirtied e of None \<Rightarrow> j | Some a \<Rightarrow> j_dirty a j)"

definition j_undirty :: "address \<Rightarrow> journal \<Rightarrow> journal" where
  "j_undirty a j =
     (let n = dirty_count j a - 1
      in j\<lparr>j_dirties := (if n = 0 then AList.delete a (j_dirties j) else AList.update a n (j_dirties j))\<rparr>)"

definition j_length :: "journal \<Rightarrow> nat" where
  "j_length j = length (j_entries j)"

definition ripemd :: address where
  "ripemd = replicate 19 0 @ [3]"

text \<open>Changes of an object, with the journal of its state.\<close>

definition so_touch :: "stateObject \<Rightarrow> journal \<Rightarrow> stateObject \<times> journal" where
  "so_touch so j =
     (let j = j_append (touchChange (so_address so)) j
      in (so, if so_address so = ripemd then j_dirty (so_address so) j else j))"

definition so_SetBalance :: "int \<Rightarrow> stateObject \<Rightarrow> journal \<Rightarrow> stateObject \<times> journal" where
  "so_SetBalance amount so j =
     (so_setBalance amount so, j_append (balanceChange (so_address so) (ac_Balance (so_data so))) j)"

definition so_AddBalance :: "keccak \<Rightarrow> int \<Rightarrow> stateObject \<Rightarrow> journal \<Rightarrow> stateObject \<times> journal" where
  "so_AddBalance K amount so j =
     (if amount = 0 then if so_empty K so then so_touch so j else (so, j)
      else so_SetBalance (ac_Balance (so_data so) + amount) so j)"

definition so_SubBalance :: "int \<Rightarrow> stateObject \<Rightarrow> journal \<Rightarrow> stateObject \<times> journal" where
  "so_SubBalance amount so j =
     (if amount = 0 then (so, j) else so_SetBalance (ac_Balance (so_data so) - amount) so j)"

definition so_SetNonce :: "uint64 \<Rightarrow> stateObject \<Rightarrow> journal \<Rightarrow> stateObject \<times> journal" where
  "so_SetNonce nonce so j =
     (so_setNonce nonce so, j_append (nonceChange (so_address so) (ac_Nonce (so_data so))) j)"

definition so_SetCode ::
  "keccak \<Rightarrow> database \<Rightarrow> hash \<Rightarrow> bytes \<Rightarrow> stateObject \<Rightarrow> journal \<Rightarrow> stateObject \<times> journal" where
  "so_SetCode K db codeHash code so j =
     (case so_Code K db so of
        (prevcode, so) \<Rightarrow>
          (so_setCode codeHash (Some code) so,
           j_append (codeChange (so_address so) prevcode (ac_CodeHash (so_data so))) j))"

definition so_SetState ::
  "keccak \<Rightarrow> database \<Rightarrow> hash \<Rightarrow> hash \<Rightarrow> stateObject \<Rightarrow> journal \<Rightarrow> stateObject \<times> journal" where
  "so_SetState K db key value so j =
     (case so_GetState K db so key of
        (prev, so) \<Rightarrow>
          (so_setState key value so, j_append (storageChange (so_address so) key prev) j))"

section \<open>The state database\<close>

record stateDB =
  sd_db :: cachingDB
  sd_trie :: secureTrie
  sd_stateObjects :: "(address \<times> stateObject) list"
  sd_stateObjectsDirty :: "address list"
  sd_dbErr :: "stateErr option"
  sd_refund :: uint64
  sd_thash :: hash
  sd_bhash :: hash
  sd_txIndex :: int64
  sd_logs :: "(hash \<times> log list) list"
  sd_logSize :: uint64
  sd_preimages :: "(hash \<times> bytes) list"
  sd_journal :: journal
  sd_validRevisions :: "(nat \<times> nat) list"
  sd_nextRevisionId :: nat

abbreviation node_db :: "stateDB \<Rightarrow> database" where
  "node_db s \<equiv> cdb_db (sd_db s)"

definition state_New :: "keccak \<Rightarrow> hash \<Rightarrow> cachingDB \<Rightarrow> trieError + stateDB" where
  "state_New K root c =
     (case OpenTrie K c root of
        (Inl e, c) \<Rightarrow> Inl e
      | (Inr tr, c) \<Rightarrow>
          Inr \<lparr>sd_db = c, sd_trie = tr, sd_stateObjects = [], sd_stateObjectsDirty = [], sd_dbErr = None,
            sd_refund = 0, sd_thash = zeroHash, sd_bhash = zeroHash, sd_txIndex = 0, sd_logs = [], sd_logSize = 0,
            sd_preimages = [], sd_journal = newJournal, sd_validRevisions = [], sd_nextRevisionId = 0\<rparr>)"

definition sd_setError :: "stateErr option \<Rightarrow> stateDB \<Rightarrow> stateDB" where
  "sd_setError e s = (if sd_dbErr s = None then s\<lparr>sd_dbErr := e\<rparr> else s)"

definition clearJournalAndRefund :: "stateDB \<Rightarrow> stateDB" where
  "clearJournalAndRefund s = s\<lparr>sd_journal := newJournal, sd_validRevisions := [], sd_refund := 0\<rparr>"

definition state_Reset :: "keccak \<Rightarrow> hash \<Rightarrow> stateDB \<Rightarrow> trieError option \<times> stateDB" where
  "state_Reset K root s =
     (case OpenTrie K (sd_db s) root of
        (Inl e, c) \<Rightarrow> (Some e, s\<lparr>sd_db := c\<rparr>)
      | (Inr tr, c) \<Rightarrow>
          (None, clearJournalAndRefund (s\<lparr>sd_db := c, sd_trie := tr, sd_stateObjects := [], sd_stateObjectsDirty := [],
             sd_thash := zeroHash, sd_bhash := zeroHash, sd_txIndex := 0, sd_logs := [], sd_logSize := 0,
             sd_preimages := []\<rparr>)))"

definition setStateObject :: "stateObject \<Rightarrow> stateDB \<Rightarrow> stateDB" where
  "setStateObject so s = s\<lparr>sd_stateObjects := AList.update (so_address so) so (sd_stateObjects s)\<rparr>"

definition getStateObject :: "keccak \<Rightarrow> stateDB \<Rightarrow> address \<Rightarrow> stateObject option \<times> stateDB" where
  "getStateObject K s addr =
     (case map_of (sd_stateObjects s) addr of
        Some so \<Rightarrow> (if so_deleted so then None else Some so, s)
      | None \<Rightarrow>
          (case secure_TryGet K (node_db s) (sd_trie s) addr of
             Inl e \<Rightarrow> (None, sd_setError (Some (TrieFail e)) s)
           | Inr (enc, tr) \<Rightarrow>
               (let s = s\<lparr>sd_trie := tr\<rparr>;
                    enc = (case enc of None \<Rightarrow> [] | Some b \<Rightarrow> b) in
                if length enc = 0 then (None, s)
                else case DecodeBytes (Suc (length enc)) account_type enc of
                       Inl e \<Rightarrow> (None, s)
                     | Inr v \<Rightarrow>
                         (let so = newObject K addr (account_of v) in (Some so, setStateObject so s)))))"

definition createObject :: "keccak \<Rightarrow> stateDB \<Rightarrow> address \<Rightarrow> stateObject \<times> stateObject option \<times> stateDB" where
  "createObject K s addr =
     (case getStateObject K s addr of
        (prev, s) \<Rightarrow>
          (let newobj = so_setNonce 0 (newObject K addr (emptyAccount K));
               e = (case prev of None \<Rightarrow> createObjectChange addr | Some p \<Rightarrow> resetObjectChange p);
               s = s\<lparr>sd_journal := j_append e (sd_journal s)\<rparr>
           in (newobj, prev, setStateObject newobj s)))"

definition GetOrNewStateObject :: "keccak \<Rightarrow> stateDB \<Rightarrow> address \<Rightarrow> stateObject \<times> stateDB" where
  "GetOrNewStateObject K s addr =
     (case getStateObject K s addr of
        (so, s) \<Rightarrow>
          (case so of
             Some obj \<Rightarrow>
               if so_deleted obj then (case createObject K s addr of (obj, _, s) \<Rightarrow> (obj, s)) else (obj, s)
           | None \<Rightarrow> (case createObject K s addr of (obj, _, s) \<Rightarrow> (obj, s))))"

definition CreateAccount :: "keccak \<Rightarrow> address \<Rightarrow> stateDB \<Rightarrow> stateDB" where
  "CreateAccount K addr s =
     (case createObject K s addr of
        (new, prev, s) \<Rightarrow>
          (case prev of
             None \<Rightarrow> s
           | Some p \<Rightarrow> setStateObject (so_setBalance (ac_Balance (so_data p)) new) s))"

text \<open>Running a change of the object at an address, which the state then holds.\<close>

definition on_object ::
  "keccak \<Rightarrow> address \<Rightarrow> (stateObject \<Rightarrow> journal \<Rightarrow> stateObject \<times> journal) \<Rightarrow> stateDB \<Rightarrow> stateDB" where
  "on_object K addr f s =
     (case GetOrNewStateObject K s addr of
        (so, s) \<Rightarrow> (case f so (sd_journal s) of (so, j) \<Rightarrow> setStateObject so (s\<lparr>sd_journal := j\<rparr>)))"

definition AddBalance :: "keccak \<Rightarrow> address \<Rightarrow> int \<Rightarrow> stateDB \<Rightarrow> stateDB" where
  "AddBalance K addr amount = on_object K addr (so_AddBalance K amount)"

definition SubBalance :: "keccak \<Rightarrow> address \<Rightarrow> int \<Rightarrow> stateDB \<Rightarrow> stateDB" where
  "SubBalance K addr amount = on_object K addr (so_SubBalance amount)"

definition SetBalance :: "keccak \<Rightarrow> address \<Rightarrow> int \<Rightarrow> stateDB \<Rightarrow> stateDB" where
  "SetBalance K addr amount = on_object K addr (so_SetBalance amount)"

definition SetNonce :: "keccak \<Rightarrow> address \<Rightarrow> uint64 \<Rightarrow> stateDB \<Rightarrow> stateDB" where
  "SetNonce K addr nonce = on_object K addr (so_SetNonce nonce)"

definition SetCode :: "keccak \<Rightarrow> address \<Rightarrow> bytes \<Rightarrow> stateDB \<Rightarrow> stateDB" where
  "SetCode K addr code s = on_object K addr (so_SetCode K (node_db s) (BytesToHash (K code)) code) s"

definition SetState :: "keccak \<Rightarrow> address \<Rightarrow> hash \<Rightarrow> hash \<Rightarrow> stateDB \<Rightarrow> stateDB" where
  "SetState K addr key value s = on_object K addr (so_SetState K (node_db s) key value) s"

definition Suicide :: "keccak \<Rightarrow> address \<Rightarrow> stateDB \<Rightarrow> bool \<times> stateDB" where
  "Suicide K addr s =
     (case getStateObject K s addr of
        (None, s) \<Rightarrow> (False, s)
      | (Some so, s) \<Rightarrow>
          (let e = suicideChange addr (so_suicided so) (ac_Balance (so_data so))
           in (True, setStateObject (so_setBalance 0 (so\<lparr>so_suicided := True\<rparr>))
                       (s\<lparr>sd_journal := j_append e (sd_journal s)\<rparr>))))"

section \<open>Queries\<close>

definition Exist :: "keccak \<Rightarrow> stateDB \<Rightarrow> address \<Rightarrow> bool \<times> stateDB" where
  "Exist K s addr = (case getStateObject K s addr of (so, s) \<Rightarrow> (so \<noteq> None, s))"

definition Empty :: "keccak \<Rightarrow> stateDB \<Rightarrow> address \<Rightarrow> bool \<times> stateDB" where
  "Empty K s addr =
     (case getStateObject K s addr of (so, s) \<Rightarrow> (case so of None \<Rightarrow> True | Some so \<Rightarrow> so_empty K so, s))"

definition GetBalance :: "keccak \<Rightarrow> stateDB \<Rightarrow> address \<Rightarrow> int \<times> stateDB" where
  "GetBalance K s addr =
     (case getStateObject K s addr of
        (so, s) \<Rightarrow> (case so of None \<Rightarrow> 0 | Some so \<Rightarrow> ac_Balance (so_data so), s))"

definition GetNonce :: "keccak \<Rightarrow> stateDB \<Rightarrow> address \<Rightarrow> uint64 \<times> stateDB" where
  "GetNonce K s addr =
     (case getStateObject K s addr of
        (so, s) \<Rightarrow> (case so of None \<Rightarrow> 0 | Some so \<Rightarrow> ac_Nonce (so_data so), s))"

definition GetCode :: "keccak \<Rightarrow> stateDB \<Rightarrow> address \<Rightarrow> bytes option \<times> stateDB" where
  "GetCode K s addr =
     (case getStateObject K s addr of
        (None, s) \<Rightarrow> (None, s)
      | (Some so, s) \<Rightarrow> (case so_Code K (node_db s) so of (c, so) \<Rightarrow> (c, setStateObject so s)))"

definition GetCodeSize :: "keccak \<Rightarrow> stateDB \<Rightarrow> address \<Rightarrow> nat \<times> stateDB" where
  "GetCodeSize K s addr =
     (case getStateObject K s addr of
        (None, s) \<Rightarrow> (0, s)
      | (Some so, s) \<Rightarrow>
          (case so_code so of
             Some c \<Rightarrow> (length c, s)
           | None \<Rightarrow>
               (case ContractCodeSize (node_db s) (BytesToHash (ac_CodeHash (so_data so))) of
                  Some n \<Rightarrow> (n, s)
                | None \<Rightarrow> (0, sd_setError (Some CodeFail) s))))"

definition GetCodeHash :: "keccak \<Rightarrow> stateDB \<Rightarrow> address \<Rightarrow> hash \<times> stateDB" where
  "GetCodeHash K s addr =
     (case getStateObject K s addr of
        (so, s) \<Rightarrow> (case so of None \<Rightarrow> zeroHash | Some so \<Rightarrow> BytesToHash (ac_CodeHash (so_data so)), s))"

definition GetState :: "keccak \<Rightarrow> stateDB \<Rightarrow> address \<Rightarrow> hash \<Rightarrow> hash \<times> stateDB" where
  "GetState K s addr key =
     (case getStateObject K s addr of
        (None, s) \<Rightarrow> (zeroHash, s)
      | (Some so, s) \<Rightarrow>
          (case so_GetState K (node_db s) so key of (v, so) \<Rightarrow> (v, setStateObject so s)))"

definition HasSuicided :: "keccak \<Rightarrow> stateDB \<Rightarrow> address \<Rightarrow> bool \<times> stateDB" where
  "HasSuicided K s addr =
     (case getStateObject K s addr of
        (so, s) \<Rightarrow> (case so of None \<Rightarrow> False | Some so \<Rightarrow> so_suicided so, s))"

section \<open>Logs, preimages and refunds\<close>

definition get_logs :: "stateDB \<Rightarrow> hash \<Rightarrow> log list" where
  "get_logs s h = (case map_of (sd_logs s) h of None \<Rightarrow> [] | Some ls \<Rightarrow> ls)"

definition AddLog :: "log \<Rightarrow> stateDB \<Rightarrow> stateDB" where
  "AddLog lg s =
     (let lg = lg\<lparr>lg_TxHash := sd_thash s, lg_BlockHash := sd_bhash s, lg_TxIndex := sd_txIndex s,
                  lg_Index := sd_logSize s\<rparr>
      in s\<lparr>sd_journal := j_append (addLogChange (sd_thash s)) (sd_journal s),
           sd_logs := AList.update (sd_thash s) (get_logs s (sd_thash s) @ [lg]) (sd_logs s),
           sd_logSize := sd_logSize s + 1\<rparr>)"

definition AddPreimage :: "hash \<Rightarrow> bytes \<Rightarrow> stateDB \<Rightarrow> stateDB" where
  "AddPreimage h preimage s =
     (case map_of (sd_preimages s) h of
        Some _ \<Rightarrow> s
      | None \<Rightarrow> s\<lparr>sd_journal := j_append (addPreimageChange h) (sd_journal s),
                   sd_preimages := AList.update h preimage (sd_preimages s)\<rparr>)"

definition AddRefund :: "uint64 \<Rightarrow> stateDB \<Rightarrow> stateDB" where
  "AddRefund gas s =
     s\<lparr>sd_journal := j_append (refundChange (sd_refund s)) (sd_journal s), sd_refund := sd_refund s + gas\<rparr>"

definition state_Prepare :: "hash \<Rightarrow> hash \<Rightarrow> int64 \<Rightarrow> stateDB \<Rightarrow> stateDB" where
  "state_Prepare thash bhash ti s = s\<lparr>sd_thash := thash, sd_bhash := bhash, sd_txIndex := ti\<rparr>"

section \<open>Snapshots\<close>

text \<open>\<open>None\<close> is a panic: a nil object, or logs cut below their length.\<close>

definition revert_object :: "keccak \<Rightarrow> address \<Rightarrow> (stateObject \<Rightarrow> stateObject) \<Rightarrow> stateDB \<Rightarrow> stateDB option" where
  "revert_object K a f s =
     (case getStateObject K s a of (None, s) \<Rightarrow> None | (Some so, s) \<Rightarrow> Some (setStateObject (f so) s))"

fun entry_revert :: "keccak \<Rightarrow> journalEntry \<Rightarrow> stateDB \<Rightarrow> stateDB option" where
  "entry_revert K (createObjectChange a) s =
     Some (s\<lparr>sd_stateObjects := AList.delete a (sd_stateObjects s),
             sd_stateObjectsDirty := removeAll a (sd_stateObjectsDirty s)\<rparr>)"
| "entry_revert K (resetObjectChange prev) s = Some (setStateObject prev s)"
| "entry_revert K (suicideChange a prev prevbalance) s =
     (case getStateObject K s a of
        (None, s) \<Rightarrow> Some s
      | (Some so, s) \<Rightarrow> Some (setStateObject (so_setBalance prevbalance (so\<lparr>so_suicided := prev\<rparr>)) s))"
| "entry_revert K (touchChange a) s = Some s"
| "entry_revert K (balanceChange a prev) s = revert_object K a (so_setBalance prev) s"
| "entry_revert K (nonceChange a prev) s = revert_object K a (so_setNonce prev) s"
| "entry_revert K (codeChange a prevcode prevhash) s =
     revert_object K a (so_setCode (BytesToHash prevhash) prevcode) s"
| "entry_revert K (storageChange a key prevalue) s = revert_object K a (so_setState key prevalue) s"
| "entry_revert K (refundChange prev) s = Some (s\<lparr>sd_refund := prev\<rparr>)"
| "entry_revert K (addLogChange txhash) s =
     (let ls = get_logs s txhash in
      if length ls = 1
      then Some (s\<lparr>sd_logs := AList.delete txhash (sd_logs s), sd_logSize := sd_logSize s - 1\<rparr>)
      else if ls = [] then None
      else Some (s\<lparr>sd_logs := AList.update txhash (butlast ls) (sd_logs s), sd_logSize := sd_logSize s - 1\<rparr>))"
| "entry_revert K (addPreimageChange h) s = Some (s\<lparr>sd_preimages := AList.delete h (sd_preimages s)\<rparr>)"

text \<open>The loop of \<open>journal.revert\<close> over the entries to undo, newest first.\<close>

fun revert_entries :: "keccak \<Rightarrow> journalEntry list \<Rightarrow> stateDB \<Rightarrow> stateDB option" where
  "revert_entries K [] s = Some s"
| "revert_entries K (e # es) s =
     (case entry_revert K e s of
        None \<Rightarrow> None
      | Some s \<Rightarrow>
          revert_entries K es
            (case dirtied e of None \<Rightarrow> s | Some a \<Rightarrow> s\<lparr>sd_journal := j_undirty a (sd_journal s)\<rparr>))"

definition journal_revert :: "keccak \<Rightarrow> nat \<Rightarrow> stateDB \<Rightarrow> stateDB option" where
  "journal_revert K snapshot s =
     (case revert_entries K (rev (drop snapshot (j_entries (sd_journal s)))) s of
        None \<Rightarrow> None
      | Some s \<Rightarrow>
          if snapshot \<le> length (j_entries (sd_journal s))
          then Some (s\<lparr>sd_journal := (sd_journal s)\<lparr>j_entries := take snapshot (j_entries (sd_journal s))\<rparr>\<rparr>)
          else None)"

definition Snapshot :: "stateDB \<Rightarrow> nat \<times> stateDB" where
  "Snapshot s =
     (let id = sd_nextRevisionId s
      in (id, s\<lparr>sd_nextRevisionId := id + 1,
                sd_validRevisions := sd_validRevisions s @ [(id, j_length (sd_journal s))]\<rparr>))"

text \<open>
  \<open>sort.Search\<close>: binary search for the first index at which a condition holds, assuming it keeps holding.
\<close>

function sort_Search :: "(nat \<Rightarrow> bool) \<Rightarrow> nat \<Rightarrow> nat \<Rightarrow> nat" where
  "sort_Search f i j =
     (if i < j
      then let h = (i + j) div 2 in if \<not> f h then sort_Search f (h + 1) j else sort_Search f i h
      else i)"
  by auto
termination by (relation "measure (\<lambda>(f, i, j). j - i)") auto

declare sort_Search.simps [simp del]

definition RevertToSnapshot :: "keccak \<Rightarrow> nat \<Rightarrow> stateDB \<Rightarrow> stateDB option" where
  "RevertToSnapshot K revid s =
     (let revs = sd_validRevisions s;
          idx = sort_Search (\<lambda>i. fst (revs ! i) \<ge> revid) 0 (length revs) in
      if idx = length revs \<or> fst (revs ! idx) \<noteq> revid then None
      else case journal_revert K (snd (revs ! idx)) s of
             None \<Rightarrow> None
           | Some s \<Rightarrow> Some (s\<lparr>sd_validRevisions := take idx (sd_validRevisions s)\<rparr>))"

section \<open>Writing the state\<close>

text \<open>A failure to encode the account panics.\<close>

definition updateStateObject :: "keccak \<Rightarrow> stateObject \<Rightarrow> stateDB \<Rightarrow> stateDB option" where
  "updateStateObject K so s =
     (case encode_typed account_type (account_val (so_data so)) of
        Inl e \<Rightarrow> None
      | Inr data \<Rightarrow>
          (case secure_TryUpdate K (node_db s) (sd_trie s) (so_address so) data of
             Inl e \<Rightarrow> Some (sd_setError (Some (TrieFail e)) s)
           | Inr tr \<Rightarrow> Some (s\<lparr>sd_trie := tr\<rparr>)))"

definition deleteStateObject :: "keccak \<Rightarrow> stateObject \<Rightarrow> stateDB \<Rightarrow> stateDB" where
  "deleteStateObject K so s =
     (case secure_TryDelete K (node_db s) (sd_trie s) (so_address so) of
        (e, tr) \<Rightarrow>
          sd_setError (map_option TrieFail e) (setStateObject (so\<lparr>so_deleted := True\<rparr>) (s\<lparr>sd_trie := tr\<rparr>)))"

definition finalise_one :: "keccak \<Rightarrow> bool \<Rightarrow> address \<Rightarrow> stateDB \<Rightarrow> stateDB option" where
  "finalise_one K deleteEmptyObjects addr s =
     (case map_of (sd_stateObjects s) addr of
        None \<Rightarrow> Some s
      | Some so \<Rightarrow>
          (case (if so_suicided so \<or> deleteEmptyObjects \<and> so_empty K so
                 then Some (deleteStateObject K so s)
                 else (let so = updateRoot K (node_db s) so in updateStateObject K so (setStateObject so s))) of
             None \<Rightarrow> None
           | Some s \<Rightarrow> Some (s\<lparr>sd_stateObjectsDirty := List.insert addr (sd_stateObjectsDirty s)\<rparr>)))"

fun each_address :: "(address \<Rightarrow> stateDB \<Rightarrow> stateDB option) \<Rightarrow> address list \<Rightarrow> stateDB \<Rightarrow> stateDB option" where
  "each_address f [] s = Some s"
| "each_address f (a # as) s = (case f a s of None \<Rightarrow> None | Some s \<Rightarrow> each_address f as s)"

definition Finalise :: "keccak \<Rightarrow> bool \<Rightarrow> stateDB \<Rightarrow> stateDB option" where
  "Finalise K deleteEmptyObjects s =
     map_option clearJournalAndRefund
       (each_address (finalise_one K deleteEmptyObjects) (map fst (j_dirties (sd_journal s))) s)"

definition IntermediateRoot :: "keccak \<Rightarrow> bool \<Rightarrow> stateDB \<Rightarrow> (hash \<times> stateDB) option" where
  "IntermediateRoot K deleteEmptyObjects s =
     (case Finalise K deleteEmptyObjects s of
        None \<Rightarrow> None
      | Some s \<Rightarrow>
          (case secure_Hash K (node_db s) (sd_trie s) of (h, tr) \<Rightarrow> Some (h, s\<lparr>sd_trie := tr\<rparr>)))"

text \<open>The parent of a leaf is in the database when the callback runs, so that \<open>Reference\<close> does not panic.\<close>

definition reference_leaf :: "hash \<Rightarrow> hash \<Rightarrow> database \<Rightarrow> database" where
  "reference_leaf child parent db = (case reference child parent db of Inl e \<Rightarrow> db | Inr db \<Rightarrow> db)"

definition commit_onleaf :: "keccak \<Rightarrow> bytes \<Rightarrow> hash \<Rightarrow> database \<Rightarrow> database" where
  "commit_onleaf K leaf parent db =
     (case DecodeBytes (Suc (length leaf)) account_type leaf of
        Inl e \<Rightarrow> db
      | Inr v \<Rightarrow>
          (let a = account_of v; code = BytesToHash (ac_CodeHash a);
               db = (if ac_Root a \<noteq> BytesToHash (K []) then reference_leaf (ac_Root a) parent db else db)
           in if code \<noteq> BytesToHash (K []) then reference_leaf code parent db else db))"

text \<open>One turn of the loop over the objects; \<open>Inl None\<close> is a panic, \<open>Inl (Some e)\<close> the error returned.\<close>

definition commit_one ::
  "keccak \<Rightarrow> bool \<Rightarrow> address \<Rightarrow> stateDB \<Rightarrow> (stateErr \<times> stateDB) option + stateDB" where
  "commit_one K deleteEmptyObjects addr s =
     (case map_of (sd_stateObjects s) addr of
        None \<Rightarrow> Inr s
      | Some so \<Rightarrow>
          (let isDirty = addr \<in> set (sd_stateObjectsDirty s);
               clean = (\<lambda>s. s\<lparr>sd_stateObjectsDirty := removeAll addr (sd_stateObjectsDirty s)\<rparr>) in
           if so_suicided so \<or> isDirty \<and> deleteEmptyObjects \<and> so_empty K so
           then Inr (clean (deleteStateObject K so s))
           else if isDirty
           then (let (db, so) =
                       (case so_code so of
                          Some c \<Rightarrow>
                            if so_dirtyCode so
                            then (InsertBlob (BytesToHash (ac_CodeHash (so_data so))) c (node_db s),
                                  so\<lparr>so_dirtyCode := False\<rparr>)
                            else (node_db s, so)
                        | None \<Rightarrow> (node_db s, so))
                 in case CommitTrie K db so of
                      (err, so, db') \<Rightarrow>
                        (let s = setStateObject so (s\<lparr>sd_db := (sd_db s)\<lparr>cdb_db := db'\<rparr>\<rparr>)
                         in case err of
                              Some e \<Rightarrow> Inl (Some (e, s))
                            | None \<Rightarrow>
                                (case updateStateObject K so s of
                                   None \<Rightarrow> Inl None | Some s \<Rightarrow> Inr (clean s))))
           else Inr (clean s)))"

fun commit_all ::
  "keccak \<Rightarrow> bool \<Rightarrow> address list \<Rightarrow> stateDB \<Rightarrow> (stateErr \<times> stateDB) option + stateDB" where
  "commit_all K d [] s = Inr s"
| "commit_all K d (a # as) s = (case commit_one K d a s of Inl r \<Rightarrow> Inl r | Inr s \<Rightarrow> commit_all K d as s)"

definition state_Commit :: "keccak \<Rightarrow> bool \<Rightarrow> stateDB \<Rightarrow> ((stateErr + hash) \<times> stateDB) option" where
  "state_Commit K deleteEmptyObjects s =
     (let s = s\<lparr>sd_stateObjectsDirty := fold List.insert (map fst (j_dirties (sd_journal s)))
                  (sd_stateObjectsDirty s)\<rparr>
      in case commit_all K deleteEmptyObjects (map fst (sd_stateObjects s)) s of
           Inl None \<Rightarrow> None
         | Inl (Some (e, s)) \<Rightarrow> Some (Inl e, clearJournalAndRefund s)
         | Inr s \<Rightarrow>
             (case secure_Commit K (sd_trie s) (node_db s) (Some (commit_onleaf K)) of
                (root, tr, db') \<Rightarrow>
                  Some (Inr root, clearJournalAndRefund
                    (s\<lparr>sd_trie := tr, sd_db := pushTrie tr ((sd_db s)\<lparr>cdb_db := db'\<rparr>)\<rparr>))))"

text \<open>\<open>None\<close> is a panic: an address marked dirty whose object is missing.\<close>

definition state_Copy :: "keccak \<Rightarrow> stateDB \<Rightarrow> stateDB option" where
  "state_Copy K s =
     (let objs = sd_stateObjects s;
          journaled = filter (\<lambda>a. map_of objs a \<noteq> None) (map fst (j_dirties (sd_journal s)));
          others = filter (\<lambda>a. a \<notin> set journaled) (sd_stateObjectsDirty s) in
      if \<exists>a \<in> set others. map_of objs a = None then None
      else Some \<lparr>sd_db = sd_db s, sd_trie = secure_Copy (sd_trie s),
             sd_stateObjects = map (\<lambda>a. (a, so_deepCopy K (the (map_of objs a)))) (journaled @ others),
             sd_stateObjectsDirty = journaled @ others, sd_dbErr = None, sd_refund = sd_refund s,
             sd_thash = zeroHash, sd_bhash = zeroHash, sd_txIndex = 0, sd_logs = sd_logs s,
             sd_logSize = sd_logSize s, sd_preimages = sd_preimages s, sd_journal = newJournal,
             sd_validRevisions = [], sd_nextRevisionId = 0\<rparr>)"

end
