(* ===== verification/State_Journal.thy ===== *)
theory State_Journal
  imports State_DB
begin

text \<open>
  Undoing changes of the state. The view of a state is what its queries return; running the journal
  backwards restores the view, whatever was done in between.
\<close>

section \<open>Views\<close>

record acct_view =
  av_nonce :: uint64
  av_balance :: int
  av_codeHash :: bytes
  av_code :: "bytes option"
  av_storage :: "hash \<Rightarrow> hash"
  av_suicided :: bool

record state_view =
  sv_accounts :: "address \<Rightarrow> acct_view option"
  sv_refund :: uint64
  sv_logs :: "hash \<Rightarrow> log list"
  sv_logSize :: uint64
  sv_preimages :: "hash \<Rightarrow> bytes option"

definition so_view :: "keccak \<Rightarrow> database \<Rightarrow> stateObject \<Rightarrow> acct_view" where
  "so_view K db so =
     \<lparr>av_nonce = ac_Nonce (so_data so), av_balance = ac_Balance (so_data so),
      av_codeHash = ac_CodeHash (so_data so), av_code = fst (so_Code K db so),
      av_storage = (\<lambda>key. fst (so_GetState K db so key)), av_suicided = so_suicided so\<rparr>"

definition state_view :: "keccak \<Rightarrow> stateDB \<Rightarrow> state_view" where
  "state_view K s =
     \<lparr>sv_accounts = (\<lambda>a. map_option (so_view K (node_db s)) (fst (getStateObject K s a))),
      sv_refund = sd_refund s, sv_logs = get_logs s, sv_logSize = sd_logSize s,
      sv_preimages = map_of (sd_preimages s)\<rparr>"

section \<open>Objects\<close>

text \<open>
  The storage trie of the object can be read, and the code hash has the length of a hash. A storage
  trie that cannot be opened is replaced by an empty one.
\<close>

definition storage_ok :: "keccak \<Rightarrow> database \<Rightarrow> stateObject \<Rightarrow> (bytes \<rightharpoonup> bytes) \<Rightarrow> bool" where
  "storage_ok K db so m \<longleftrightarrow> trie_ok K (attached db (fst (getTrie db so))) m"

text \<open>What a stored value decodes to.\<close>

definition stored_value :: "bytes option \<Rightarrow> hash" where
  "stored_value enc =
     (case enc of
        None \<Rightarrow> zeroHash
      | Some b \<Rightarrow>
          if length b > 0 then (case Split b of Inl e \<Rightarrow> BytesToHash [] | Inr (_, content, _) \<Rightarrow> BytesToHash content)
          else zeroHash)"

text \<open>A cached storage entry is what the trie holds, or else it is still to be written.\<close>

definition cache_ok :: "keccak \<Rightarrow> stateObject \<Rightarrow> (bytes \<rightharpoonup> bytes) \<Rightarrow> bool" where
  "cache_ok K so m \<longleftrightarrow> distinct (map fst (so_dirtyStorage so)) \<and>
     (\<forall>k v. map_of (so_dirtyStorage so) k = Some v \<longrightarrow> map_of (so_cachedStorage so) k = Some v) \<and>
     (\<forall>k v. map_of (so_cachedStorage so) k = Some v \<longrightarrow> map_of (so_dirtyStorage so) k = None \<longrightarrow>
        stored_value (m (K k)) = v)"

definition obj_ok :: "keccak \<Rightarrow> database \<Rightarrow> stateObject \<Rightarrow> bool" where
  "obj_ok K db so \<longleftrightarrow> length (ac_CodeHash (so_data so)) = 32 \<and> (\<exists>m. storage_ok K db so m \<and> cache_ok K so m)"

lemma so_setError_simps [simp]:
  "so_address (so_setError e so) = so_address so" "so_data (so_setError e so) = so_data so"
  "so_trie (so_setError e so) = so_trie so" "so_code (so_setError e so) = so_code so"
  "so_cachedStorage (so_setError e so) = so_cachedStorage so"
  "so_dirtyStorage (so_setError e so) = so_dirtyStorage so"
  "so_suicided (so_setError e so) = so_suicided so" "so_deleted (so_setError e so) = so_deleted so"
  by (simp_all add: so_setError_def)

lemma getTrie_simps [simp]:
  "so_address (snd (getTrie db so)) = so_address so" "so_data (snd (getTrie db so)) = so_data so"
  "so_trie (snd (getTrie db so)) = Some (fst (getTrie db so))" "so_code (snd (getTrie db so)) = so_code so"
  "so_cachedStorage (snd (getTrie db so)) = so_cachedStorage so"
  "so_dirtyStorage (snd (getTrie db so)) = so_dirtyStorage so"
  "so_suicided (snd (getTrie db so)) = so_suicided so" "so_deleted (snd (getTrie db so)) = so_deleted so"
  by (simp_all add: getTrie_def Let_def split: option.splits sum.splits)

lemma getTrie_cong:
  "so_trie so' = so_trie so \<Longrightarrow> ac_Root (so_data so') = ac_Root (so_data so) \<Longrightarrow>
   fst (getTrie db so') = fst (getTrie db so)"
  by (simp add: getTrie_def Let_def split: option.splits sum.splits)

lemma getTrie_Some [simp]: "so_trie so = Some t \<Longrightarrow> getTrie db so = (t, so)"
  by (simp add: getTrie_def)

lemma attached_id [simp]: "t_db tr = Database_node db \<Longrightarrow> attached db (t\<lparr>st_trie := tr\<rparr>) = tr"
  by (simp add: attached_def)

lemma t_db_attached [simp]: "t_db (attached db t) = Database_node db"
  by (simp add: attached_def)

lemma secure_TryGet_ok:
  assumes "trie_ok K (attached db t) m"
  shows "\<exists>t'. secure_TryGet K db t key = Inr (m (K key), t') \<and> trie_ok K (attached db t') m"
proof -
  obtain tr where "TryGet (attached db t) (K key) = Inr (m (K key), tr)" "trie_ok K tr m" "t_db tr = Database_node db"
    using TryGet_ok [OF assms, of "K key"] by auto
  then show ?thesis by (simp add: secure_TryGet_def hashKey_def)
qed

text \<open>Reading a storage entry.\<close>

lemma so_GetState_ok:
  assumes "storage_ok K db so m"
  shows "\<exists>so'. so_GetState K db so key =
      (case map_of (so_cachedStorage so) key of Some v \<Rightarrow> v | None \<Rightarrow> stored_value (m (K key)), so') \<and>
    storage_ok K db so' m \<and> so_data so' = so_data so \<and> so_code so' = so_code so \<and>
    map_of (so_cachedStorage so') =
      (case map_of (so_cachedStorage so) key of Some v \<Rightarrow> map_of (so_cachedStorage so)
       | None \<Rightarrow> (map_of (so_cachedStorage so))(key \<mapsto> stored_value (m (K key)))) \<and>
    so_dirtyStorage so' = so_dirtyStorage so \<and>
    so_address so' = so_address so \<and> so_suicided so' = so_suicided so \<and> so_deleted so' = so_deleted so"
proof (cases "map_of (so_cachedStorage so) key")
  case (Some v)
  then show ?thesis using assms by (simp add: so_GetState_def)
next
  case None
  obtain t so1 where g: "getTrie db so = (t, so1)" by fastforce
  have s1: "so_address so1 = so_address so" "so_data so1 = so_data so" "so_code so1 = so_code so"
      "so_cachedStorage so1 = so_cachedStorage so" "so_dirtyStorage so1 = so_dirtyStorage so"
      "so_suicided so1 = so_suicided so" "so_deleted so1 = so_deleted so"
    using getTrie_simps [of db so] g by simp_all
  obtain t' where t': "secure_TryGet K db t key = Inr (m (K key), t')" "trie_ok K (attached db t') m"
    using secure_TryGet_ok assms g by (fastforce simp: storage_ok_def)
  show ?thesis
    using None g t' s1
    by (cases "m (K key)")
       (auto simp: so_GetState_def stored_value_def storage_ok_def update_conv' Let_def
             split: sum.splits)
qed

definition code_of :: "keccak \<Rightarrow> database \<Rightarrow> bytes option \<Rightarrow> bytes \<Rightarrow> bytes option" where
  "code_of K db code codeHash =
     (case code of
        Some c \<Rightarrow> Some c
      | None \<Rightarrow> if codeHash = emptyCodeHash K then None else ContractCode db (BytesToHash codeHash))"

lemma so_Code_ok:
  "\<exists>so'. so_Code K db so = (code_of K db (so_code so) (ac_CodeHash (so_data so)), so') \<and>
     code_of K db (so_code so') (ac_CodeHash (so_data so)) = code_of K db (so_code so) (ac_CodeHash (so_data so)) \<and>
     so_data so' = so_data so \<and> so_trie so' = so_trie so \<and> so_cachedStorage so' = so_cachedStorage so \<and>
     so_dirtyStorage so' = so_dirtyStorage so \<and> so_address so' = so_address so \<and>
     so_suicided so' = so_suicided so \<and> so_deleted so' = so_deleted so"
  by (auto simp: so_Code_def code_of_def Let_def split: option.splits)

lemma storage_ok_cong:
  "so_trie so' = so_trie so \<Longrightarrow> ac_Root (so_data so') = ac_Root (so_data so) \<Longrightarrow>
   storage_ok K db so' m = storage_ok K db so m"
  using getTrie_cong [of so' so db] by (simp add: storage_ok_def)

lemma obj_okE:
  assumes "obj_ok K db so"
  obtains m where "storage_ok K db so m" "length (ac_CodeHash (so_data so)) = 32" "cache_ok K so m"
  using assms by (auto simp: obj_ok_def)

lemma cache_ok_cong:
  "so_dirtyStorage so' = so_dirtyStorage so \<Longrightarrow> so_cachedStorage so' = so_cachedStorage so \<Longrightarrow>
   cache_ok K so' m = cache_ok K so m"
  by (simp add: cache_ok_def)

lemma so_view_eq:
  assumes "storage_ok K db so m"
  shows "so_view K db so =
    \<lparr>av_nonce = ac_Nonce (so_data so), av_balance = ac_Balance (so_data so),
     av_codeHash = ac_CodeHash (so_data so), av_code = code_of K db (so_code so) (ac_CodeHash (so_data so)),
     av_storage = (\<lambda>k. case map_of (so_cachedStorage so) k of Some v \<Rightarrow> v | None \<Rightarrow> stored_value (m (K k))),
     av_suicided = so_suicided so\<rparr>"
proof -
  have "fst (so_GetState K db so k) =
      (case map_of (so_cachedStorage so) k of Some v \<Rightarrow> v | None \<Rightarrow> stored_value (m (K k)))" for k
    using so_GetState_ok [OF assms, of k] by (metis fst_conv)
  moreover have "fst (so_Code K db so) = code_of K db (so_code so) (ac_CodeHash (so_data so))"
    using so_Code_ok [of K db so] by (metis fst_conv)
  ultimately show ?thesis by (simp add: so_view_def)
qed

text \<open>Queries of an object change neither its view nor what matters of it.\<close>

lemma so_GetState_view:
  assumes "obj_ok K db so"
  shows "\<exists>so'. so_GetState K db so key = (av_storage (so_view K db so) key, so') \<and> obj_ok K db so' \<and>
    so_view K db so' = so_view K db so \<and> so_address so' = so_address so \<and> so_deleted so' = so_deleted so"
proof -
  obtain m where m: "storage_ok K db so m" "length (ac_CodeHash (so_data so)) = 32" "cache_ok K so m"
    using assms by (rule obj_okE)
  obtain so' where so': "so_GetState K db so key =
      (case map_of (so_cachedStorage so) key of Some v \<Rightarrow> v | None \<Rightarrow> stored_value (m (K key)), so')"
    "storage_ok K db so' m" "so_data so' = so_data so" "so_code so' = so_code so"
    "map_of (so_cachedStorage so') =
      (case map_of (so_cachedStorage so) key of Some v \<Rightarrow> map_of (so_cachedStorage so)
       | None \<Rightarrow> (map_of (so_cachedStorage so))(key \<mapsto> stored_value (m (K key))))"
    "so_dirtyStorage so' = so_dirtyStorage so"
    "so_address so' = so_address so" "so_suicided so' = so_suicided so" "so_deleted so' = so_deleted so"
    using so_GetState_ok [OF m(1), of key] by blast
  have "cache_ok K so' m"
    using m(3) so'(5,6) unfolding cache_ok_def by (auto split: option.splits if_splits)
  have "so_view K db so' = so_view K db so"
    using so' by (auto simp: so_view_eq [OF m(1)] so_view_eq [OF so'(2)] fun_eq_iff split: option.splits)
  moreover have "obj_ok K db so'" using so'(2,3) m(2) \<open>cache_ok K so' m\<close> by (auto simp: obj_ok_def)
  ultimately show ?thesis using so' by (simp add: so_view_eq [OF m(1)])
qed

lemma so_Code_view:
  assumes "obj_ok K db so"
  shows "\<exists>so'. so_Code K db so = (av_code (so_view K db so), so') \<and> obj_ok K db so' \<and>
    so_view K db so' = so_view K db so \<and> so_address so' = so_address so \<and> so_deleted so' = so_deleted so \<and>
    so_data so' = so_data so"
proof -
  obtain m where m: "storage_ok K db so m" "length (ac_CodeHash (so_data so)) = 32" "cache_ok K so m"
    using assms by (rule obj_okE)
  obtain so' where so': "so_Code K db so = (code_of K db (so_code so) (ac_CodeHash (so_data so)), so')"
     "code_of K db (so_code so') (ac_CodeHash (so_data so)) = code_of K db (so_code so) (ac_CodeHash (so_data so))"
     "so_data so' = so_data so" "so_trie so' = so_trie so" "so_cachedStorage so' = so_cachedStorage so"
     "so_dirtyStorage so' = so_dirtyStorage so"
     "so_address so' = so_address so" "so_suicided so' = so_suicided so" "so_deleted so' = so_deleted so"
    using so_Code_ok [of K db so] by blast
  have st: "storage_ok K db so' m" using m(1) storage_ok_cong [of so' so] so'(3,4) by simp
  have "so_view K db so' = so_view K db so"
    using so' by (simp add: so_view_eq [OF m(1)] so_view_eq [OF st])
  moreover have "obj_ok K db so'" using st so'(3,5,6) m(2,3) cache_ok_cong [of so' so] by (auto simp: obj_ok_def)
  ultimately show ?thesis using so' by (simp add: so_view_eq [OF m(1)])
qed

text \<open>The view after each change of an object.\<close>

lemma so_setBalance_view:
  assumes "obj_ok K db so"
  shows "obj_ok K db (so_setBalance b so)" "so_view K db (so_setBalance b so) = (so_view K db so)\<lparr>av_balance := b\<rparr>"
  using assms storage_ok_cong [of "so_setBalance b so" so K db] cache_ok_cong [of "so_setBalance b so" so K]
  by (auto simp: obj_ok_def so_view_eq so_setBalance_def elim!: obj_okE)

lemma so_setNonce_view:
  assumes "obj_ok K db so"
  shows "obj_ok K db (so_setNonce n so)" "so_view K db (so_setNonce n so) = (so_view K db so)\<lparr>av_nonce := n\<rparr>"
  using assms storage_ok_cong [of "so_setNonce n so" so K db] cache_ok_cong [of "so_setNonce n so" so K]
  by (auto simp: obj_ok_def so_view_eq so_setNonce_def elim!: obj_okE)

lemma so_suicided_view:
  assumes "obj_ok K db so"
  shows "obj_ok K db (so\<lparr>so_suicided := b\<rparr>)" "so_view K db (so\<lparr>so_suicided := b\<rparr>) = (so_view K db so)\<lparr>av_suicided := b\<rparr>"
  using assms storage_ok_cong [of "so\<lparr>so_suicided := b\<rparr>" so K db] cache_ok_cong [of "so\<lparr>so_suicided := b\<rparr>" so K]
  by (auto simp: obj_ok_def so_view_eq elim!: obj_okE)

lemma so_setCode_view:
  assumes "obj_ok K db so" "length h = 32"
  shows "obj_ok K db (so_setCode h c so)"
    "so_view K db (so_setCode h c so) = (so_view K db so)\<lparr>av_codeHash := h, av_code := code_of K db c h\<rparr>"
  using assms storage_ok_cong [of "so_setCode h c so" so K db] cache_ok_cong [of "so_setCode h c so" so K]
  by (auto simp: obj_ok_def so_view_eq so_setCode_def elim!: obj_okE)

lemma cache_ok_setState: "cache_ok K so m \<Longrightarrow> cache_ok K (so_setState k v so) m"
  by (auto simp: cache_ok_def so_setState_def update_conv' distinct_update split: if_splits)

lemma so_setState_view:
  assumes "obj_ok K db so"
  shows "obj_ok K db (so_setState k v so)"
    "so_view K db (so_setState k v so) = (so_view K db so)\<lparr>av_storage := (av_storage (so_view K db so))(k := v)\<rparr>"
  using assms storage_ok_cong [of "so_setState k v so" so K db] cache_ok_setState [of K so _ k v]
  by (auto simp: obj_ok_def so_view_eq so_setState_def update_conv' fun_eq_iff elim!: obj_okE)

lemmas so_set_defs = so_setBalance_def so_setNonce_def so_setCode_def so_setState_def

lemma so_set_simps [simp]:
  "so_address (so_setBalance b so) = so_address so" "so_address (so_setNonce n so) = so_address so"
  "so_address (so_setCode h c so) = so_address so" "so_address (so_setState k v so) = so_address so"
  "so_deleted (so_setBalance b so) = so_deleted so" "so_deleted (so_setNonce n so) = so_deleted so"
  "so_deleted (so_setCode h c so) = so_deleted so" "so_deleted (so_setState k v so) = so_deleted so"
  by (simp_all add: so_set_defs)

section \<open>States\<close>

definition load_object :: "keccak \<Rightarrow> (bytes \<rightharpoonup> bytes) \<Rightarrow> address \<Rightarrow> stateObject option" where
  "load_object K m a =
     (case m (K a) of
        None \<Rightarrow> None
      | Some enc \<Rightarrow>
          (case DecodeBytes (Suc (length enc)) account_type enc of
             Inl e \<Rightarrow> None
           | Inr v \<Rightarrow> Some (newObject K a (account_of v))))"

fun entry_ok :: "keccak \<Rightarrow> database \<Rightarrow> (bytes \<rightharpoonup> bytes) \<Rightarrow> journalEntry \<Rightarrow> bool" where
  "entry_ok K db m (createObjectChange a) \<longleftrightarrow> load_object K m a = None"
| "entry_ok K db m (resetObjectChange prev) \<longleftrightarrow> obj_ok K db prev \<and> \<not> so_deleted prev"
| "entry_ok K db m (codeChange a prevcode prevhash) \<longleftrightarrow> length prevhash = 32"
| "entry_ok K db m _ \<longleftrightarrow> True"

text \<open>
  \<open>state_ok K m s\<close>: the account trie of the state holds the map \<open>m\<close>, the objects belong to their
  addresses and can be read, an account marked deleted is not in the trie, and the accounts of the
  trie have code hashes and storage tries that can be read.
\<close>

definition state_ok :: "keccak \<Rightarrow> (bytes \<rightharpoonup> bytes) \<Rightarrow> stateDB \<Rightarrow> bool" where
  "state_ok K m s \<longleftrightarrow>
     trie_ok K (attached (node_db s) (sd_trie s)) m \<and>
     (\<forall>a so. map_of (sd_stateObjects s) a = Some so \<longrightarrow>
        so_address so = a \<and> obj_ok K (node_db s) so \<and> (so_deleted so \<longrightarrow> load_object K m a = None)) \<and>
     (\<forall>a so. load_object K m a = Some so \<longrightarrow> obj_ok K (node_db s) so) \<and>
     (\<forall>e \<in> set (j_entries (sd_journal s)). entry_ok K (node_db s) m e)"

definition same_log :: "stateDB \<Rightarrow> stateDB \<Rightarrow> bool" where
  "same_log s s' \<longleftrightarrow> sd_db s' = sd_db s \<and> sd_journal s' = sd_journal s \<and>
     sd_validRevisions s' = sd_validRevisions s \<and> sd_nextRevisionId s' = sd_nextRevisionId s"

lemma load_object_address: "load_object K m a = Some so \<Longrightarrow> so_address so = a \<and> \<not> so_deleted so"
  by (auto simp: load_object_def newObject_def split: option.splits sum.splits)

lemma getStateObject_cases:
  assumes "state_ok K m s"
  obtains (live) so where "map_of (sd_stateObjects s) a = Some so" "\<not> so_deleted so" "getStateObject K s a = (Some so, s)"
  | (gone) so where "map_of (sd_stateObjects s) a = Some so" "so_deleted so" "getStateObject K s a = (None, s)"
      "load_object K m a = None"
  | (absent) tr where "map_of (sd_stateObjects s) a = None" "load_object K m a = None"
      "getStateObject K s a = (None, s\<lparr>sd_trie := tr\<rparr>)" "trie_ok K (attached (node_db s) tr) m"
  | (loaded) tr so where "map_of (sd_stateObjects s) a = None" "load_object K m a = Some so"
      "getStateObject K s a = (Some so, setStateObject so (s\<lparr>sd_trie := tr\<rparr>))" "trie_ok K (attached (node_db s) tr) m"
proof (cases "map_of (sd_stateObjects s) a")
  case None
  obtain tr where tr: "secure_TryGet K (node_db s) (sd_trie s) a = Inr (m (K a), tr)"
      "trie_ok K (attached (node_db s) tr) m"
    using secure_TryGet_ok assms unfolding state_ok_def by blast
  have ne: "m (K a) \<noteq> Some []" using merkle_kv.rep_storable tr(2) by blast
  show ?thesis
  proof (cases "load_object K m a")
    case None': None
    show ?thesis
      using None None' tr ne
      by (intro absent [of tr])
         (auto simp: getStateObject_def load_object_def Let_def split: option.splits sum.splits)
  next
    case (Some so)
    show ?thesis
      using None Some tr ne
      by (intro loaded [of so tr])
         (auto simp: getStateObject_def load_object_def Let_def split: option.splits sum.splits)
  qed
next
  case (Some so)
  show ?thesis
  proof (cases "so_deleted so")
    case True
    then show ?thesis using Some assms by (intro gone [of so]) (auto simp: getStateObject_def state_ok_def)
  next
    case False
    then show ?thesis using Some by (intro live [of so]) (auto simp: getStateObject_def)
  qed
qed

lemma view_account:
  assumes "state_ok K m s"
  shows "sv_accounts (state_view K s) a =
    map_option (so_view K (node_db s))
      (case map_of (sd_stateObjects s) a of
         Some so \<Rightarrow> if so_deleted so then None else Some so
       | None \<Rightarrow> load_object K m a)"
  by (rule getStateObject_cases [OF assms, of a]) (auto simp: state_view_def)

lemma node_db_simps [simp]: "node_db (setStateObject so s) = node_db s"
  by (simp add: setStateObject_def)

lemma setStateObject_map [simp]:
  "map_of (sd_stateObjects (setStateObject so s)) = (map_of (sd_stateObjects s))(so_address so \<mapsto> so)"
  by (simp add: setStateObject_def update_conv')

lemma setStateObject_simps [simp]:
  "sd_db (setStateObject so s) = sd_db s" "sd_trie (setStateObject so s) = sd_trie s"
  "sd_journal (setStateObject so s) = sd_journal s" "sd_validRevisions (setStateObject so s) = sd_validRevisions s"
  "sd_nextRevisionId (setStateObject so s) = sd_nextRevisionId s" "sd_refund (setStateObject so s) = sd_refund s"
  "sd_logs (setStateObject so s) = sd_logs s" "sd_logSize (setStateObject so s) = sd_logSize s"
  "sd_preimages (setStateObject so s) = sd_preimages s" "sd_thash (setStateObject so s) = sd_thash s"
  "sd_stateObjectsDirty (setStateObject so s) = sd_stateObjectsDirty s"
  by (simp_all add: setStateObject_def)

lemma state_ok_setStateObject:
  assumes "state_ok K m s" "obj_ok K (node_db s) so" "\<not> so_deleted so"
  shows "state_ok K m (setStateObject so s)"
  using assms by (auto simp: state_ok_def)

lemma view_eqI:
  assumes "\<And>a. sv_accounts v a = sv_accounts w a" "sv_refund v = sv_refund w" "\<And>h. sv_logs v h = sv_logs w h"
    "sv_logSize v = sv_logSize w" "\<And>h. sv_preimages v h = sv_preimages w h"
  shows "v = (w :: state_view)"
  using assms by (intro state_view.equality) (auto simp: fun_eq_iff)

lemma view_simps [simp]:
  "sv_refund (state_view K s) = sd_refund s" "sv_logs (state_view K s) = get_logs s"
  "sv_logSize (state_view K s) = sd_logSize s" "sv_preimages (state_view K s) = map_of (sd_preimages s)"
  by (simp_all add: state_view_def)

lemma get_logs_simps [simp]:
  "get_logs (setStateObject so s) = get_logs s" "get_logs (s\<lparr>sd_trie := tr\<rparr>) = get_logs s"
  "get_logs (s\<lparr>sd_journal := j\<rparr>) = get_logs s"
  by (simp_all add: get_logs_def fun_eq_iff)

lemma view_setStateObject:
  assumes "state_ok K m s" "obj_ok K (node_db s) so" "\<not> so_deleted so"
  shows "state_view K (setStateObject so s) =
    (state_view K s)\<lparr>sv_accounts := (sv_accounts (state_view K s))(so_address so \<mapsto> so_view K (node_db s) so)\<rparr>"
  using assms view_account [OF assms(1)] view_account [OF state_ok_setStateObject [OF assms]]
  by (intro view_eqI) (auto split: option.splits)

lemma state_ok_trie:
  "state_ok K m s \<Longrightarrow> trie_ok K (attached (node_db s) tr) m \<Longrightarrow> state_ok K m (s\<lparr>sd_trie := tr\<rparr>)"
  by (simp add: state_ok_def)

lemma view_trie:
  assumes "state_ok K m s" "trie_ok K (attached (node_db s) tr) m"
  shows "state_view K (s\<lparr>sd_trie := tr\<rparr>) = state_view K s"
  using view_account [OF assms(1)] view_account [OF state_ok_trie [OF assms]] by (intro view_eqI) auto

text \<open>Looking up an object changes nothing that can be seen.\<close>

lemma getStateObject_ok:
  assumes "state_ok K m s"
  shows "\<exists>s'. getStateObject K s a = (fst (getStateObject K s a), s') \<and> state_ok K m s' \<and>
    state_view K s' = state_view K s \<and> same_log s s' \<and> sd_thash s' = sd_thash s \<and>
    (case fst (getStateObject K s a) of
       None \<Rightarrow> sv_accounts (state_view K s) a = None \<and> load_object K m a = None
     | Some so \<Rightarrow> so_address so = a \<and> \<not> so_deleted so \<and> obj_ok K (node_db s) so \<and>
         sv_accounts (state_view K s) a = Some (so_view K (node_db s) so))"
  using assms
proof (cases rule: getStateObject_cases [where a = a])
  case (live so)
  then show ?thesis using assms view_account [OF assms, of a] by (auto simp: same_log_def state_ok_def)
next
  case (gone so)
  then show ?thesis using assms view_account [OF assms, of a] by (auto simp: same_log_def)
next
  case (absent tr)
  then show ?thesis
    using assms view_account [OF assms, of a] state_ok_trie [OF assms absent(4)] view_trie [OF assms absent(4)]
    by (auto simp: same_log_def)
next
  case (loaded tr so)
  let ?s = "s\<lparr>sd_trie := tr\<rparr>"
  have so: "so_address so = a" "\<not> so_deleted so" "obj_ok K (node_db ?s) so"
    using load_object_address [OF loaded(2)] assms loaded(2) by (auto simp: state_ok_def)
  have ok: "state_ok K m ?s" "state_view K ?s = state_view K s"
    using state_ok_trie [OF assms loaded(4)] view_trie [OF assms loaded(4)] by simp_all
  have acc: "sv_accounts (state_view K s) a = Some (so_view K (node_db s) so)"
    using view_account [OF assms, of a] loaded by simp
  have "state_view K (setStateObject so ?s) = state_view K s"
    using view_setStateObject [OF ok(1) so(3,2)] ok(2) so(1) acc by (intro view_eqI) auto
  then show ?thesis
    using loaded so acc state_ok_setStateObject [OF ok(1) so(3,2)] by (auto simp: same_log_def)
qed

section \<open>Undoing entries\<close>

text \<open>What undoing an entry does to a view; \<open>None\<close> is the panic on an account that does not exist.\<close>

definition view_object ::
  "address \<Rightarrow> (acct_view \<Rightarrow> acct_view) \<Rightarrow> state_view \<Rightarrow> state_view option" where
  "view_object a f v =
     (case sv_accounts v a of
        None \<Rightarrow> None | Some x \<Rightarrow> Some (v\<lparr>sv_accounts := (sv_accounts v)(a \<mapsto> f x)\<rparr>))"

fun view_revert :: "keccak \<Rightarrow> database \<Rightarrow> journalEntry \<Rightarrow> state_view \<Rightarrow> state_view option" where
  "view_revert K db (createObjectChange a) v = Some (v\<lparr>sv_accounts := (sv_accounts v)(a := None)\<rparr>)"
| "view_revert K db (resetObjectChange prev) v =
     Some (v\<lparr>sv_accounts := (sv_accounts v)(so_address prev \<mapsto> so_view K db prev)\<rparr>)"
| "view_revert K db (suicideChange a prev prevbalance) v =
     Some (case view_object a (\<lambda>x. x\<lparr>av_suicided := prev, av_balance := prevbalance\<rparr>) v of None \<Rightarrow> v | Some v \<Rightarrow> v)"
| "view_revert K db (touchChange a) v = Some v"
| "view_revert K db (balanceChange a prev) v = view_object a (\<lambda>x. x\<lparr>av_balance := prev\<rparr>) v"
| "view_revert K db (nonceChange a prev) v = view_object a (\<lambda>x. x\<lparr>av_nonce := prev\<rparr>) v"
| "view_revert K db (codeChange a prevcode prevhash) v =
     view_object a (\<lambda>x. x\<lparr>av_codeHash := prevhash, av_code := code_of K db prevcode prevhash\<rparr>) v"
| "view_revert K db (storageChange a key prevalue) v =
     view_object a (\<lambda>x. x\<lparr>av_storage := (av_storage x)(key := prevalue)\<rparr>) v"
| "view_revert K db (refundChange prev) v = Some (v\<lparr>sv_refund := prev\<rparr>)"
| "view_revert K db (addLogChange txhash) v =
     (if sv_logs v txhash = [] then None
      else Some (v\<lparr>sv_logs := (sv_logs v)(txhash := butlast (sv_logs v txhash)), sv_logSize := sv_logSize v - 1\<rparr>))"
| "view_revert K db (addPreimageChange h) v = Some (v\<lparr>sv_preimages := (sv_preimages v)(h := None)\<rparr>)"

fun view_reverts :: "keccak \<Rightarrow> database \<Rightarrow> journalEntry list \<Rightarrow> state_view \<Rightarrow> state_view option" where
  "view_reverts K db [] v = Some v"
| "view_reverts K db (e # es) v = (case view_revert K db e v of None \<Rightarrow> None | Some v \<Rightarrow> view_reverts K db es v)"

lemma view_reverts_append:
  "view_reverts K db (es @ es') v =
     (case view_reverts K db es v of None \<Rightarrow> None | Some v \<Rightarrow> view_reverts K db es' v)"
  by (induction es arbitrary: v) (auto split: option.splits)

text \<open>Undoing a change of an object.\<close>

lemma revert_object_view:
  assumes "state_ok K m s" "\<And>so. obj_ok K (node_db s) so \<Longrightarrow> obj_ok K (node_db s) (f so)"
    "\<And>so. obj_ok K (node_db s) so \<Longrightarrow> so_view K (node_db s) (f so) = g (so_view K (node_db s) so)"
    "\<And>so. so_address (f so) = so_address so" "\<And>so. so_deleted (f so) = so_deleted so"
  shows "case revert_object K a f s of
      None \<Rightarrow> view_object a g (state_view K s) = None
    | Some s' \<Rightarrow> view_object a g (state_view K s) = Some (state_view K s') \<and> state_ok K m s' \<and> same_log s s'"
proof -
  obtain r s' where g: "getStateObject K s a = (r, s')" "state_ok K m s'" "state_view K s' = state_view K s"
      "same_log s s'" "case r of
       None \<Rightarrow> sv_accounts (state_view K s) a = None
     | Some so \<Rightarrow> so_address so = a \<and> \<not> so_deleted so \<and> obj_ok K (node_db s) so \<and>
         sv_accounts (state_view K s) a = Some (so_view K (node_db s) so)"
    using getStateObject_ok [OF assms(1), of a] by (auto split: option.splits)
  show ?thesis
  proof (cases r)
    case None
    then show ?thesis using g by (simp add: revert_object_def view_object_def)
  next
    case (Some so)
    have n: "node_db s' = node_db s" using g(4) by (simp add: same_log_def)
    have "obj_ok K (node_db s') (f so)" "\<not> so_deleted (f so)" "so_address (f so) = a"
      using g(5) Some assms(2,4,5) n by simp_all
    then show ?thesis
      using g Some n assms(3) view_setStateObject [OF g(2)] state_ok_setStateObject [OF g(2)]
      by (simp add: revert_object_def view_object_def same_log_def)
  qed
qed

lemma state_ok_other:
  assumes "state_ok K m s" "sd_db s' = sd_db s" "sd_trie s' = sd_trie s" "sd_stateObjects s' = sd_stateObjects s"
    "\<forall>e \<in> set (j_entries (sd_journal s')). entry_ok K (node_db s) m e"
  shows "state_ok K m s'" "sv_accounts (state_view K s') = sv_accounts (state_view K s)"
proof -
  show ok: "state_ok K m s'" using assms by (simp add: state_ok_def)
  show "sv_accounts (state_view K s') = sv_accounts (state_view K s)"
    using view_account [OF ok] view_account [OF assms(1)] assms(2,4) by auto
qed

lemma state_ok_entries: "state_ok K m s \<Longrightarrow> e \<in> set (j_entries (sd_journal s)) \<Longrightarrow> entry_ok K (node_db s) m e"
  by (simp add: state_ok_def)

text \<open>Undoing an entry on a state and on its view agree.\<close>

definition reverts_to :: "keccak \<Rightarrow> (bytes \<rightharpoonup> bytes) \<Rightarrow> stateDB \<Rightarrow> stateDB option \<Rightarrow> state_view option \<Rightarrow> bool" where
  "reverts_to K m s r v \<longleftrightarrow>
     (case r of
        None \<Rightarrow> v = None
      | Some s' \<Rightarrow> v = Some (state_view K s') \<and> state_ok K m s' \<and> same_log s s')"

lemma suicide_revert:
  assumes "state_ok K m s"
  shows "reverts_to K m s (entry_revert K (suicideChange a p b) s) (view_revert K (node_db s) (suicideChange a p b) (state_view K s))"
proof -
  obtain r s' where g: "getStateObject K s a = (r, s')" "state_ok K m s'" "state_view K s' = state_view K s"
      "same_log s s'" "case r of
       None \<Rightarrow> sv_accounts (state_view K s) a = None
     | Some so \<Rightarrow> so_address so = a \<and> \<not> so_deleted so \<and> obj_ok K (node_db s) so \<and>
         sv_accounts (state_view K s) a = Some (so_view K (node_db s) so)"
    using getStateObject_ok [OF assms(1), of a] by (auto split: option.splits)
  show ?thesis
  proof (cases r)
    case None
    then show ?thesis using g by (simp add: reverts_to_def view_object_def)
  next
    case (Some so)
    let ?so = "so_setBalance b (so\<lparr>so_suicided := p\<rparr>)"
    have n: "node_db s' = node_db s" using g(4) by (simp add: same_log_def)
    have ok: "obj_ok K (node_db s') ?so" "\<not> so_deleted ?so" "so_address ?so = a"
      using g(5) Some n so_suicided_view [of K "node_db s'" so p]
        so_setBalance_view [of K "node_db s'" "so\<lparr>so_suicided := p\<rparr>" b] by simp_all
    have "so_view K (node_db s') ?so = (so_view K (node_db s') so)\<lparr>av_suicided := p, av_balance := b\<rparr>"
      using g(5) Some n so_suicided_view [of K "node_db s'" so p]
        so_setBalance_view [of K "node_db s'" "so\<lparr>so_suicided := p\<rparr>" b] by simp
    then show ?thesis
      using g Some n ok view_setStateObject [OF g(2) ok(1,2)] state_ok_setStateObject [OF g(2) ok(1,2)]
      by (simp add: view_object_def same_log_def reverts_to_def)
  qed
qed

lemma create_revert:
  assumes "state_ok K m s" "load_object K m a = None"
  shows "reverts_to K m s (entry_revert K (createObjectChange a) s) (view_revert K (node_db s) (createObjectChange a) (state_view K s))"
proof -
  let ?s = "s\<lparr>sd_stateObjects := AList.delete a (sd_stateObjects s), sd_stateObjectsDirty := removeAll a (sd_stateObjectsDirty s)\<rparr>"
  have ok: "state_ok K m ?s" using assms by (auto simp: state_ok_def delete_conv')
  have "state_view K ?s = (state_view K s)\<lparr>sv_accounts := (sv_accounts (state_view K s))(a := None)\<rparr>"
    using view_account [OF ok] view_account [OF assms(1)] assms(2)
    by (intro view_eqI) (auto simp: delete_conv' get_logs_def)
  then show ?thesis using ok by (simp add: reverts_to_def same_log_def)
qed

lemma log_revert:
  assumes "state_ok K m s"
  shows "reverts_to K m s (entry_revert K (addLogChange h) s) (view_revert K (node_db s) (addLogChange h) (state_view K s))"
proof -
  have *: "state_ok K m (s\<lparr>sd_logs := ls, sd_logSize := n\<rparr>)"
    "sv_accounts (state_view K (s\<lparr>sd_logs := ls, sd_logSize := n\<rparr>)) = sv_accounts (state_view K s)" for ls n
    using state_ok_other [OF assms, of "s\<lparr>sd_logs := ls, sd_logSize := n\<rparr>"] state_ok_entries [OF assms] by simp_all
  have one: "length l = 1 \<Longrightarrow> butlast l = []" for l :: "log list" by (cases l) auto
  show ?thesis
    using * by (auto simp: reverts_to_def same_log_def Let_def get_logs_def delete_conv' update_conv' one
        intro!: view_eqI)
qed

lemma entry_revert_view:
  assumes "state_ok K m s" "entry_ok K (node_db s) m e"
  shows "reverts_to K m s (entry_revert K e s) (view_revert K (node_db s) e (state_view K s))"
proof (cases e)
  case (createObjectChange a)
  then show ?thesis using create_revert [OF assms(1)] assms(2) by simp
next
  case (resetObjectChange p)
  then show ?thesis
    using assms view_setStateObject [OF assms(1), of p] state_ok_setStateObject [OF assms(1), of p]
    by (simp add: reverts_to_def same_log_def)
next
  case (suicideChange a p b)
  then show ?thesis using suicide_revert [OF assms(1)] by simp
next
  case (balanceChange a p)
  then show ?thesis
    using revert_object_view [OF assms(1), of "so_setBalance p" "\<lambda>x. x\<lparr>av_balance := p\<rparr>" a]
    by (simp add: so_setBalance_view reverts_to_def)
next
  case (nonceChange a p)
  then show ?thesis
    using revert_object_view [OF assms(1), of "so_setNonce p" "\<lambda>x. x\<lparr>av_nonce := p\<rparr>" a]
    by (simp add: so_setNonce_view reverts_to_def)
next
  case (storageChange a k p)
  then show ?thesis
    using revert_object_view [OF assms(1), of "so_setState k p" "\<lambda>x. x\<lparr>av_storage := (av_storage x)(k := p)\<rparr>" a]
    by (simp add: so_setState_view reverts_to_def)
next
  case (codeChange a c h)
  then show ?thesis
    using assms revert_object_view [OF assms(1), of "so_setCode h c"
        "\<lambda>x. x\<lparr>av_codeHash := h, av_code := code_of K (node_db s) c h\<rparr>" a]
    by (simp add: so_setCode_view reverts_to_def BytesToHash_def HashLength_def)
next
  case (refundChange p)
  then show ?thesis
    using state_ok_other [OF assms(1), of "s\<lparr>sd_refund := p\<rparr>"] state_ok_entries [OF assms(1)]
    by (auto simp: reverts_to_def same_log_def get_logs_def intro!: view_eqI)
next
  case (addLogChange h)
  then show ?thesis using log_revert [OF assms(1)] by simp
next
  case (addPreimageChange h)
  then show ?thesis
    using state_ok_other [OF assms(1), of "s\<lparr>sd_preimages := AList.delete h (sd_preimages s)\<rparr>"] state_ok_entries [OF assms(1)]
    by (auto simp: reverts_to_def same_log_def get_logs_def delete_conv' intro!: view_eqI)
next
  case (touchChange a)
  then show ?thesis using assms by (simp add: reverts_to_def same_log_def)
qed

lemma j_dirties_only:
  assumes "state_ok K m s" "j_entries j = j_entries (sd_journal s)"
  shows "state_ok K m (s\<lparr>sd_journal := j\<rparr>)" "state_view K (s\<lparr>sd_journal := j\<rparr>) = state_view K s"
  using state_ok_other [OF assms(1), of "s\<lparr>sd_journal := j\<rparr>"] state_ok_entries [OF assms(1)] assms(2)
  by (auto intro!: view_eqI)

lemma j_undirty_entries [simp]: "j_entries (j_undirty a j) = j_entries j"
  by (simp add: j_undirty_def Let_def)

lemma revert_entries_view:
  assumes "state_ok K m s" "\<forall>e \<in> set es. entry_ok K (node_db s) m e"
    "view_reverts K (node_db s) es (state_view K s) = Some v"
  shows "\<exists>s'. revert_entries K es s = Some s' \<and> state_view K s' = v \<and> state_ok K m s' \<and> sd_db s' = sd_db s \<and>
    j_entries (sd_journal s') = j_entries (sd_journal s) \<and>
    sd_validRevisions s' = sd_validRevisions s \<and> sd_nextRevisionId s' = sd_nextRevisionId s"
  using assms
proof (induction es arbitrary: s)
  case Nil
  then show ?case by simp
next
  case (Cons e es)
  obtain w where w: "view_revert K (node_db s) e (state_view K s) = Some w" "view_reverts K (node_db s) es w = Some v"
    using Cons.prems(3) by (auto split: option.splits)
  obtain s1 where s1: "entry_revert K e s = Some s1" "w = state_view K s1" "state_ok K m s1" "same_log s s1"
    using entry_revert_view [OF Cons.prems(1), of e] Cons.prems(2) w(1)
    by (auto simp: reverts_to_def split: option.splits)
  let ?s2 = "case dirtied e of None \<Rightarrow> s1 | Some a \<Rightarrow> s1\<lparr>sd_journal := j_undirty a (sd_journal s1)\<rparr>"
  have s2: "state_ok K m ?s2" "state_view K ?s2 = w" "sd_db ?s2 = sd_db s"
      "j_entries (sd_journal ?s2) = j_entries (sd_journal s)" "sd_validRevisions ?s2 = sd_validRevisions s"
      "sd_nextRevisionId ?s2 = sd_nextRevisionId s"
    using s1 j_dirties_only [OF s1(3)] by (auto simp: same_log_def split: option.splits)
  have "\<exists>s'. revert_entries K es ?s2 = Some s' \<and> state_view K s' = v \<and> state_ok K m s' \<and> sd_db s' = sd_db ?s2 \<and>
    j_entries (sd_journal s') = j_entries (sd_journal ?s2) \<and>
    sd_validRevisions s' = sd_validRevisions ?s2 \<and> sd_nextRevisionId s' = sd_nextRevisionId ?s2"
    using Cons.IH [OF s2(1)] Cons.prems(2) w(2) s2(2,3) by simp
  then show ?case using s1(1) s2(3-6) by simp
qed

lemma journal_revert_view:
  assumes "state_ok K m s" "j_entries (sd_journal s) = es0 @ es"
    "view_reverts K (node_db s) (rev es) (state_view K s) = Some v"
  shows "\<exists>s'. journal_revert K (length es0) s = Some s' \<and> state_view K s' = v \<and> state_ok K m s' \<and> sd_db s' = sd_db s \<and>
    j_entries (sd_journal s') = es0 \<and>
    sd_validRevisions s' = sd_validRevisions s \<and> sd_nextRevisionId s' = sd_nextRevisionId s"
proof -
  obtain s1 where s1: "revert_entries K (rev es) s = Some s1" "state_view K s1 = v" "state_ok K m s1" "sd_db s1 = sd_db s"
    "j_entries (sd_journal s1) = j_entries (sd_journal s)"
    "sd_validRevisions s1 = sd_validRevisions s" "sd_nextRevisionId s1 = sd_nextRevisionId s"
    using revert_entries_view [OF assms(1), of "rev es"] assms(2,3) state_ok_entries [OF assms(1)] by auto
  let ?s2 = "s1\<lparr>sd_journal := (sd_journal s1)\<lparr>j_entries := es0\<rparr>\<rparr>"
  have "\<forall>e \<in> set es0. entry_ok K (node_db s1) m e"
    using state_ok_entries [OF s1(3)] s1(5) assms(2) by simp
  then have "state_ok K m ?s2" "state_view K ?s2 = v"
    using state_ok_other [OF s1(3), of ?s2] s1(2) by (auto intro!: view_eqI)
  then show ?thesis using s1 assms(2) by (simp add: journal_revert_def)
qed

section \<open>Searching for a revision\<close>

lemma sort_Search_threshold:
  assumes "i \<le> k" "k \<le> j" "\<And>a. a < k \<Longrightarrow> \<not> f a" "\<And>a. k \<le> a \<Longrightarrow> a < j \<Longrightarrow> f a"
  shows "sort_Search f i j = k"
  using assms
proof (induction f i j rule: sort_Search.induct)
  case (1 f i j)
  define h where "h = (i + j) div 2"
  show ?case
  proof (cases "i < j")
    case False
    then show ?thesis using "1.prems"(1,2) by (subst sort_Search.simps) simp
  next
    case True
    then have h: "i \<le> h" "h < j" by (auto simp: h_def)
    show ?thesis
    proof (cases "f h")
      case True': True
      then have "k \<le> h" using "1.prems"(3) not_less by blast
      then have "sort_Search f i h = k"
        using "1.IH"(2) [OF True h_def] True' "1.prems" h(2) by auto
      then show ?thesis using True True' by (subst sort_Search.simps) (simp add: h_def [symmetric])
    next
      case False
      then have "h + 1 \<le> k" using "1.prems"(4) h(2) not_less_eq_eq by auto
      then have "sort_Search f (h + 1) j = k"
        using "1.IH"(1) [OF True h_def] False "1.prems" by auto
      then show ?thesis using True False by (subst sort_Search.simps) (simp add: h_def [symmetric])
    qed
  qed
qed

section \<open>Changes that the journal can undo\<close>

definition changes :: "keccak \<Rightarrow> (bytes \<rightharpoonup> bytes) \<Rightarrow> stateDB \<Rightarrow> stateDB \<Rightarrow> bool" where
  "changes K m s s' \<longleftrightarrow>
     state_ok K m s' \<and> sd_db s' = sd_db s \<and>
     (\<exists>es. j_entries (sd_journal s') = j_entries (sd_journal s) @ es \<and>
        view_reverts K (node_db s) (rev es) (state_view K s') = Some (state_view K s)) \<and>
     (\<exists>rs. sd_validRevisions s' = sd_validRevisions s @ rs \<and>
        (\<forall>r \<in> set rs. sd_nextRevisionId s \<le> fst r \<and> fst r < sd_nextRevisionId s')) \<and>
     sd_nextRevisionId s \<le> sd_nextRevisionId s'"

lemma changes_ok: "changes K m s s' \<Longrightarrow> state_ok K m s'"
  by (simp add: changes_def)

lemma changes_db: "changes K m s s' \<Longrightarrow> sd_db s' = sd_db s"
  by (simp add: changes_def)

lemma changes_unseen:
  assumes "state_ok K m s'" "state_view K s' = state_view K s" "same_log s s'"
  shows "changes K m s s'"
  using assms by (auto simp: changes_def same_log_def)

lemma changes_trans:
  assumes "changes K m s s1" "changes K m s1 s2"
  shows "changes K m s s2"
proof -
  obtain es1 where e1: "j_entries (sd_journal s1) = j_entries (sd_journal s) @ es1"
      "view_reverts K (node_db s) (rev es1) (state_view K s1) = Some (state_view K s)"
    using assms(1) unfolding changes_def by blast
  obtain es2 where e2: "j_entries (sd_journal s2) = j_entries (sd_journal s1) @ es2"
      "view_reverts K (node_db s) (rev es2) (state_view K s2) = Some (state_view K s1)"
    using assms unfolding changes_def by auto
  obtain rs1 where r1: "sd_validRevisions s1 = sd_validRevisions s @ rs1"
      "\<forall>r \<in> set rs1. sd_nextRevisionId s \<le> fst r \<and> fst r < sd_nextRevisionId s1"
    using assms(1) unfolding changes_def by blast
  obtain rs2 where r2: "sd_validRevisions s2 = sd_validRevisions s1 @ rs2"
      "\<forall>r \<in> set rs2. sd_nextRevisionId s1 \<le> fst r \<and> fst r < sd_nextRevisionId s2"
    using assms(2) unfolding changes_def by blast
  have n: "sd_nextRevisionId s \<le> sd_nextRevisionId s1" "sd_nextRevisionId s1 \<le> sd_nextRevisionId s2"
    using assms unfolding changes_def by blast+
  have "j_entries (sd_journal s2) = j_entries (sd_journal s) @ es1 @ es2"
      "view_reverts K (node_db s) (rev (es1 @ es2)) (state_view K s2) = Some (state_view K s)"
    using e1 e2 by (simp_all add: view_reverts_append)
  moreover have "sd_validRevisions s2 = sd_validRevisions s @ rs1 @ rs2"
      "\<forall>r \<in> set (rs1 @ rs2). sd_nextRevisionId s \<le> fst r \<and> fst r < sd_nextRevisionId s2"
    using r1 r2 n by fastforce+
  moreover have "state_ok K m s2" "sd_db s2 = sd_db s"
    using changes_ok [OF assms(2)] changes_db [OF assms(1)] changes_db [OF assms(2)] by simp_all
  ultimately show ?thesis
    using n unfolding changes_def by (intro conjI exI [of _ "es1 @ es2"] exI [of _ "rs1 @ rs2"]) simp_all
qed

text \<open>Setting an object together with the entries that undo it.\<close>

lemma changes_object:
  assumes "state_ok K m s" "obj_ok K (node_db s) so" "\<not> so_deleted so"
    "j_entries j = j_entries (sd_journal s) @ es" "\<forall>e \<in> set es. entry_ok K (node_db s) m e"
    "view_reverts K (node_db s) (rev es)
      ((state_view K s)\<lparr>sv_accounts := (sv_accounts (state_view K s))(so_address so \<mapsto> so_view K (node_db s) so)\<rparr>)
     = Some (state_view K s)"
  shows "changes K m s (setStateObject so (s\<lparr>sd_journal := j\<rparr>))"
proof -
  let ?s = "s\<lparr>sd_journal := j\<rparr>"
  have ok: "state_ok K m ?s" "sv_accounts (state_view K ?s) = sv_accounts (state_view K s)"
    using state_ok_other [OF assms(1), of ?s] state_ok_entries [OF assms(1)] assms(4,5) by auto
  then have v: "state_view K ?s = state_view K s" by (auto intro!: view_eqI)
  have "state_view K (setStateObject so ?s) =
      (state_view K s)\<lparr>sv_accounts := (sv_accounts (state_view K s))(so_address so \<mapsto> so_view K (node_db s) so)\<rparr>"
    using view_setStateObject [OF ok(1), of so] assms(2,3) v by simp
  then show ?thesis
    using state_ok_setStateObject [OF ok(1), of so] assms(2-4,6) by (simp add: changes_def)
qed

text \<open>Changes of an object whose entries undo them.\<close>

definition object_change :: "keccak \<Rightarrow> database \<Rightarrow> (stateObject \<Rightarrow> journal \<Rightarrow> stateObject \<times> journal) \<Rightarrow> bool" where
  "object_change K db f \<longleftrightarrow>
     (\<forall>so j. obj_ok K db so \<longrightarrow>
        (\<exists>so' j' es. f so j = (so', j') \<and> obj_ok K db so' \<and> so_deleted so' = so_deleted so \<and>
           so_address so' = so_address so \<and> j_entries j' = j_entries j @ es \<and>
           (\<forall>m. \<forall>e \<in> set es. entry_ok K db m e) \<and>
           (\<forall>v. sv_accounts v (so_address so) = Some (so_view K db so') \<longrightarrow>
              view_reverts K db (rev es) v =
                Some (v\<lparr>sv_accounts := (sv_accounts v)(so_address so \<mapsto> so_view K db so)\<rparr>))))"

lemma OpenStorageTrie_zero:
  "\<exists>t. OpenStorageTrie db zeroHash = Inr t \<and> trie_ok K (attached db t) Map.empty"
  by (auto simp: OpenStorageTrie_def NewSecure_def trie_New_def SetCacheLimit_def attached_def Let_def
      intro!: nil_trie_ok)

lemma createObject_ok:
  assumes "state_ok K m s" "length (K []) = 32"
  shows "\<exists>s'. createObject K s a = (newObject K a (emptyAccount K), fst (getStateObject K s a), s') \<and>
    changes K m s s' \<and>
    (\<forall>so. obj_ok K (node_db s) so \<and> \<not> so_deleted so \<and> so_address so = a \<longrightarrow> changes K m s (setStateObject so s')) \<and>
    sd_thash s' = sd_thash s \<and> map_of (sd_stateObjects s') a = Some (newObject K a (emptyAccount K)) \<and>
    obj_ok K (node_db s) (newObject K a (emptyAccount K)) \<and>
    (\<forall>so. fst (getStateObject K s a) = Some so \<longrightarrow> so_address so = a \<and> sv_accounts (state_view K s) a = Some (so_view K (node_db s) so))"
proof -
  let ?new = "newObject K a (emptyAccount K)"
  obtain s1 where g: "getStateObject K s a = (fst (getStateObject K s a), s1)" "state_ok K m s1"
      "state_view K s1 = state_view K s" "same_log s s1" "sd_thash s1 = sd_thash s"
      "case fst (getStateObject K s a) of
       None \<Rightarrow> sv_accounts (state_view K s) a = None \<and> load_object K m a = None
     | Some so \<Rightarrow> so_address so = a \<and> \<not> so_deleted so \<and> obj_ok K (node_db s) so \<and>
         sv_accounts (state_view K s) a = Some (so_view K (node_db s) so)"
    using getStateObject_ok [OF assms(1), of a] by blast
  have n: "node_db s1 = node_db s" using g(4) by (simp add: same_log_def)
  obtain t where t: "OpenStorageTrie (node_db s) zeroHash = Inr t" "trie_ok K (attached (node_db s) t) Map.empty"
    using OpenStorageTrie_zero by blast
  have new: "obj_ok K (node_db s) ?new" "\<not> so_deleted ?new" "so_address ?new = a"
    using t assms(2)
    by (auto simp: obj_ok_def newObject_def emptyAccount_def emptyCodeHash_def storage_ok_def getTrie_def cache_ok_def)
  have nz: "so_setNonce 0 ?new = ?new" by (simp add: so_setNonce_def newObject_def emptyAccount_def)
  define e where "e = (case fst (getStateObject K s a) of None \<Rightarrow> createObjectChange a | Some p \<Rightarrow> resetObjectChange p)"
  define s2 where "s2 = s1\<lparr>sd_journal := j_append e (sd_journal s1)\<rparr>"
  have e: "entry_ok K (node_db s1) m e" "view_revert K (node_db s1) e
      ((state_view K s1)\<lparr>sv_accounts := (sv_accounts (state_view K s1))(a \<mapsto> x)\<rparr>) = Some (state_view K s1)" for x
    using g(3,6) n by (auto simp: e_def split: option.splits intro!: view_eqI)
  have j: "j_entries (j_append e (sd_journal s1)) = j_entries (sd_journal s1) @ [e]"
    by (simp add: j_append_def j_dirty_def Let_def split: option.splits)
  have set: "changes K m s (setStateObject so s2)"
    if "obj_ok K (node_db s) so" "\<not> so_deleted so" "so_address so = a" for so
    using changes_object [OF g(2) _ that(2) j] that n e changes_trans changes_unseen [OF g(2,3,4)]
    unfolding s2_def by auto
  have "setStateObject so (setStateObject ?new s2) = setStateObject so s2" if "so_address so = a" for so
    using that new(3) by (simp add: setStateObject_def update_last)
  moreover have "createObject K s a = (?new, fst (getStateObject K s a), setStateObject ?new s2)"
    unfolding createObject_def s2_def by (subst g(1)) (simp add: nz e_def Let_def)
  ultimately show ?thesis using new set [of ?new] set g(5,6) by (auto simp: s2_def split: option.splits)
qed

lemma GetOrNewStateObject_ok:
  assumes "state_ok K m s" "length (K []) = 32"
  shows "\<exists>so s'. GetOrNewStateObject K s a = (so, s') \<and> changes K m s s' \<and> sd_thash s' = sd_thash s \<and>
    so_address so = a \<and> \<not> so_deleted so \<and> obj_ok K (node_db s) so \<and>
    sv_accounts (state_view K s') a = Some (so_view K (node_db s) so)"
proof -
  obtain s1 where g: "getStateObject K s a = (fst (getStateObject K s a), s1)" "state_ok K m s1"
      "state_view K s1 = state_view K s" "same_log s s1" "sd_thash s1 = sd_thash s"
      "case fst (getStateObject K s a) of
       None \<Rightarrow> sv_accounts (state_view K s) a = None \<and> load_object K m a = None
     | Some so \<Rightarrow> so_address so = a \<and> \<not> so_deleted so \<and> obj_ok K (node_db s) so \<and>
         sv_accounts (state_view K s) a = Some (so_view K (node_db s) so)"
    using getStateObject_ok [OF assms(1), of a] by blast
  have c: "changes K m s s1" by (rule changes_unseen [OF g(2,3,4)])
  show ?thesis
  proof (cases "fst (getStateObject K s a)")
    case (Some so)
    then have "GetOrNewStateObject K s a = (so, s1)"
      unfolding GetOrNewStateObject_def using g(6) by (subst g(1)) simp
    then show ?thesis using c g Some by simp
  next
    case None
    let ?new = "newObject K a (emptyAccount K)"
    obtain s2 where s2: "createObject K s1 a = (?new, fst (getStateObject K s1 a), s2)" "changes K m s1 s2"
        "sd_thash s2 = sd_thash s1" "map_of (sd_stateObjects s2) a = Some ?new" "obj_ok K (node_db s1) ?new"
      using createObject_ok [OF g(2) assms(2), of a] by blast
    have "GetOrNewStateObject K s a = (?new, s2)"
      unfolding GetOrNewStateObject_def by (subst g(1)) (simp add: None s2(1))
    moreover have "\<not> so_deleted ?new" "so_address ?new = a" by (simp_all add: newObject_def)
    moreover have "sv_accounts (state_view K s2) a = Some (so_view K (node_db s) ?new)"
      using view_account [OF changes_ok [OF s2(2)], of a] s2(4) changes_db [OF s2(2)] changes_db [OF c]
      by (simp add: newObject_def)
    ultimately show ?thesis
      using changes_trans [OF c s2(2)] s2(3,5) g(5) changes_db [OF c] by simp
  qed
qed

lemma on_object_changes:
  assumes "state_ok K m s" "length (K []) = 32" "object_change K (node_db s) f"
  shows "changes K m s (on_object K a f s)"
proof -
  obtain so s1 where g: "GetOrNewStateObject K s a = (so, s1)" "changes K m s s1"
      "so_address so = a" "\<not> so_deleted so" "obj_ok K (node_db s) so"
      "sv_accounts (state_view K s1) a = Some (so_view K (node_db s) so)"
    using GetOrNewStateObject_ok [OF assms(1,2), of a] by blast
  have n: "node_db s1 = node_db s" using changes_db [OF g(2)] by simp
  obtain so' j' es where f: "f so (sd_journal s1) = (so', j')" "obj_ok K (node_db s) so'" "so_deleted so' = so_deleted so"
      "so_address so' = so_address so" "j_entries j' = j_entries (sd_journal s1) @ es"
      "\<forall>m. \<forall>e \<in> set es. entry_ok K (node_db s) m e"
      "\<forall>v. sv_accounts v (so_address so) = Some (so_view K (node_db s) so') \<longrightarrow>
              view_reverts K (node_db s) (rev es) v =
                Some (v\<lparr>sv_accounts := (sv_accounts v)(so_address so \<mapsto> so_view K (node_db s) so)\<rparr>)"
    using assms(3) g(5) unfolding object_change_def by blast
  have "view_reverts K (node_db s1) (rev es)
      ((state_view K s1)\<lparr>sv_accounts := (sv_accounts (state_view K s1))(so_address so' \<mapsto> so_view K (node_db s1) so')\<rparr>)
     = Some (state_view K s1)"
    using f(7) g(3,6) n f(4) by (auto intro!: view_eqI)
  then have "changes K m s1 (setStateObject so' (s1\<lparr>sd_journal := j'\<rparr>))"
    using changes_object [OF changes_ok [OF g(2)] _ _ f(5)] f(2,3,6) g(4) n by simp
  then show ?thesis
    using changes_trans [OF g(2)] g(1) f(1) by (simp add: on_object_def)
qed

lemma j_append_entries [simp]: "j_entries (j_append e j) = j_entries j @ [e]"
  by (simp add: j_append_def j_dirty_def Let_def split: option.splits)

lemma j_dirty_entries [simp]: "j_entries (j_dirty a j) = j_entries j"
  by (simp add: j_dirty_def)

text \<open>An entry that undoes a change of the account it belongs to.\<close>

lemma object_changeI:
  assumes "\<And>so j. obj_ok K db so \<Longrightarrow> \<exists>so' j' e. f so j = (so', j') \<and> obj_ok K db so' \<and> so_deleted so' = so_deleted so \<and>
     so_address so' = so_address so \<and> j_entries j' = j_entries j @ [e] \<and> (\<forall>m. entry_ok K db m e) \<and>
     (\<forall>v. sv_accounts v (so_address so) = Some (so_view K db so') \<longrightarrow>
        view_revert K db e v = Some (v\<lparr>sv_accounts := (sv_accounts v)(so_address so \<mapsto> so_view K db so)\<rparr>))"
  shows "object_change K db f"
  unfolding object_change_def
proof (intro allI impI)
  fix so j assume "obj_ok K db so"
  then obtain so' j' e where "f so j = (so', j')" "obj_ok K db so'" "so_deleted so' = so_deleted so"
     "so_address so' = so_address so" "j_entries j' = j_entries j @ [e]" "\<forall>m. entry_ok K db m e"
     "\<forall>v. sv_accounts v (so_address so) = Some (so_view K db so') \<longrightarrow>
        view_revert K db e v = Some (v\<lparr>sv_accounts := (sv_accounts v)(so_address so \<mapsto> so_view K db so)\<rparr>)"
    using assms by blast
  then show "\<exists>so' j' es. f so j = (so', j') \<and> obj_ok K db so' \<and> so_deleted so' = so_deleted so \<and>
           so_address so' = so_address so \<and> j_entries j' = j_entries j @ es \<and>
           (\<forall>m. \<forall>e \<in> set es. entry_ok K db m e) \<and>
           (\<forall>v. sv_accounts v (so_address so) = Some (so_view K db so') \<longrightarrow>
              view_reverts K db (rev es) v =
                Some (v\<lparr>sv_accounts := (sv_accounts v)(so_address so \<mapsto> so_view K db so)\<rparr>))"
    by (intro exI [of _ so'] exI [of _ j'] exI [of _ "[e]"]) simp
qed

lemma so_view_fields [simp]:
  "av_balance (so_view K db so) = ac_Balance (so_data so)" "av_nonce (so_view K db so) = ac_Nonce (so_data so)"
  "av_codeHash (so_view K db so) = ac_CodeHash (so_data so)" "av_suicided (so_view K db so) = so_suicided so"
  by (simp_all add: so_view_def)

lemma av_set_same: "av_balance x = b \<Longrightarrow> x\<lparr>av_balance := b\<rparr> = x" "av_nonce x = n \<Longrightarrow> x\<lparr>av_nonce := n\<rparr> = x"
  "av_codeHash x = h \<Longrightarrow> x\<lparr>av_codeHash := h\<rparr> = x" "av_code x = c \<Longrightarrow> x\<lparr>av_code := c\<rparr> = x" "x\<lparr>av_storage := av_storage x\<rparr> = x"
  for x :: acct_view
  by auto

lemma SetBalance_change: "object_change K db (so_SetBalance b)"
  by (rule object_changeI)
     (auto simp: so_SetBalance_def so_setBalance_view view_object_def av_set_same)

lemma SetNonce_change: "object_change K db (so_SetNonce n)"
  by (rule object_changeI)
     (auto simp: so_SetNonce_def so_setNonce_view view_object_def av_set_same)

lemma no_change: "object_change K db (\<lambda>so j. (so, j))"
  unfolding object_change_def by (auto intro!: exI [of _ "[]"] view_eqI)

lemma touch_change: "object_change K db so_touch"
  by (rule object_changeI) (auto simp: so_touch_def Let_def intro!: view_eqI)

lemma object_change_cases:
  "(\<And>so j. \<exists>g. f so j = g so j \<and> object_change K db g) \<Longrightarrow> object_change K db f"
  unfolding object_change_def by metis

lemma AddBalance_change: "object_change K db (so_AddBalance K b)"
proof (rule object_change_cases)
  fix so j
  show "\<exists>g. so_AddBalance K b so j = g so j \<and> object_change K db g"
    using touch_change no_change SetBalance_change [of K db "ac_Balance (so_data so) + b"]
    unfolding so_AddBalance_def by (cases "b = 0"; cases "so_empty K so") auto
qed

lemma SubBalance_change: "object_change K db (so_SubBalance b)"
proof (rule object_change_cases)
  fix so j
  show "\<exists>g. so_SubBalance b so j = g so j \<and> object_change K db g"
    using no_change SetBalance_change [of K db "ac_Balance (so_data so) - b"]
    unfolding so_SubBalance_def by (cases "b = 0") auto
qed

lemma SetState_change: "object_change K db (so_SetState K db k v)"
proof (rule object_changeI)
  fix so j assume "obj_ok K db so"
  then obtain so1 where g: "so_GetState K db so k = (av_storage (so_view K db so) k, so1)" "obj_ok K db so1"
      "so_view K db so1 = so_view K db so" "so_address so1 = so_address so" "so_deleted so1 = so_deleted so"
    using so_GetState_view by blast
  show "\<exists>so' j' e. so_SetState K db k v so j = (so', j') \<and> obj_ok K db so' \<and> so_deleted so' = so_deleted so \<and>
     so_address so' = so_address so \<and> j_entries j' = j_entries j @ [e] \<and> (\<forall>m. entry_ok K db m e) \<and>
     (\<forall>v. sv_accounts v (so_address so) = Some (so_view K db so') \<longrightarrow>
        view_revert K db e v = Some (v\<lparr>sv_accounts := (sv_accounts v)(so_address so \<mapsto> so_view K db so)\<rparr>))"
    using g so_setState_view [OF g(2), of k v]
    by (auto simp: so_SetState_def view_object_def av_set_same)
qed

lemma SetCode_change:
  assumes "length h = 32"
  shows "object_change K db (so_SetCode K db h c)"
proof (rule object_changeI)
  fix so j assume ok: "obj_ok K db so"
  then obtain so1 where g: "so_Code K db so = (av_code (so_view K db so), so1)" "obj_ok K db so1"
      "so_view K db so1 = so_view K db so" "so_address so1 = so_address so" "so_deleted so1 = so_deleted so"
      "so_data so1 = so_data so"
    using so_Code_view by blast
  obtain m where m: "storage_ok K db so m" "length (ac_CodeHash (so_data so)) = 32" using ok by (rule obj_okE)
  have "code_of K db (av_code (so_view K db so)) (ac_CodeHash (so_data so)) = av_code (so_view K db so)"
    by (auto simp: so_view_eq [OF m(1)] code_of_def split: option.splits)
  then show "\<exists>so' j' e. so_SetCode K db h c so j = (so', j') \<and> obj_ok K db so' \<and> so_deleted so' = so_deleted so \<and>
     so_address so' = so_address so \<and> j_entries j' = j_entries j @ [e] \<and> (\<forall>m. entry_ok K db m e) \<and>
     (\<forall>v. sv_accounts v (so_address so) = Some (so_view K db so') \<longrightarrow>
        view_revert K db e v = Some (v\<lparr>sv_accounts := (sv_accounts v)(so_address so \<mapsto> so_view K db so)\<rparr>))"
    using g m(2) so_setCode_view [OF g(2) assms, of "Some c"]
    by (auto simp: so_SetCode_def view_object_def av_set_same)
qed

section \<open>Operations of the state\<close>

text \<open>Queries.\<close>

lemma getStateObject_changes:
  assumes "state_ok K m s"
  shows "changes K m s (snd (getStateObject K s a))"
  using getStateObject_ok [OF assms, of a] changes_unseen by (metis snd_conv)

lemma changes_same_object:
  assumes "state_ok K m s" "obj_ok K (node_db s) so" "\<not> so_deleted so"
    "sv_accounts (state_view K s) (so_address so) = Some (so_view K (node_db s) so)"
  shows "changes K m s (setStateObject so s)"
  using assms view_setStateObject [OF assms(1-3)] state_ok_setStateObject [OF assms(1-3)]
  by (intro changes_unseen) (auto simp: same_log_def intro!: view_eqI)

lemma GetState_changes:
  assumes "state_ok K m s"
  shows "changes K m s (snd (GetState K s a k))"
proof -
  obtain r s1 where g: "getStateObject K s a = (r, s1)" by fastforce
  then have c: "changes K m s s1" using getStateObject_changes [OF assms, of a] by simp
  show ?thesis
  proof (cases r)
    case None
    then show ?thesis using g c by (simp add: GetState_def)
  next
    case (Some so)
    then have so: "so_address so = a" "\<not> so_deleted so" "obj_ok K (node_db s1) so"
        "sv_accounts (state_view K s1) a = Some (so_view K (node_db s1) so)"
      using getStateObject_ok [OF assms, of a] g changes_db [OF c] by auto
    obtain so' where "so_GetState K (node_db s1) so k = (av_storage (so_view K (node_db s1) so) k, so')"
        "obj_ok K (node_db s1) so'" "so_view K (node_db s1) so' = so_view K (node_db s1) so"
        "so_address so' = so_address so" "so_deleted so' = so_deleted so"
      using so_GetState_view [OF so(3)] by blast
    then have "changes K m s1 (snd (GetState K s a k))"
      using changes_same_object [OF changes_ok [OF c], of so'] so g Some by (simp add: GetState_def)
    then show ?thesis by (rule changes_trans [OF c])
  qed
qed

lemma GetCode_changes:
  assumes "state_ok K m s"
  shows "changes K m s (snd (GetCode K s a))"
proof -
  obtain r s1 where g: "getStateObject K s a = (r, s1)" by fastforce
  then have c: "changes K m s s1" using getStateObject_changes [OF assms, of a] by simp
  show ?thesis
  proof (cases r)
    case None
    then show ?thesis using g c by (simp add: GetCode_def)
  next
    case (Some so)
    then have so: "so_address so = a" "\<not> so_deleted so" "obj_ok K (node_db s1) so"
        "sv_accounts (state_view K s1) a = Some (so_view K (node_db s1) so)"
      using getStateObject_ok [OF assms, of a] g changes_db [OF c] by auto
    obtain so' where "so_Code K (node_db s1) so = (av_code (so_view K (node_db s1) so), so')"
        "obj_ok K (node_db s1) so'" "so_view K (node_db s1) so' = so_view K (node_db s1) so"
        "so_address so' = so_address so" "so_deleted so' = so_deleted so"
      using so_Code_view [OF so(3)] by blast
    then have "changes K m s1 (snd (GetCode K s a))"
      using changes_same_object [OF changes_ok [OF c], of so'] so g Some by (simp add: GetCode_def)
    then show ?thesis by (rule changes_trans [OF c])
  qed
qed

lemma Suicide_changes:
  assumes "state_ok K m s"
  shows "changes K m s (snd (Suicide K a s))"
proof -
  obtain r s1 where g: "getStateObject K s a = (r, s1)" by fastforce
  then have c: "changes K m s s1" using getStateObject_changes [OF assms, of a] by simp
  show ?thesis
  proof (cases r)
    case None
    then show ?thesis using g c by (simp add: Suicide_def)
  next
    case (Some so)
    let ?so = "so_setBalance 0 (so\<lparr>so_suicided := True\<rparr>)"
    let ?e = "suicideChange a (so_suicided so) (ac_Balance (so_data so))"
    have so: "so_address so = a" "\<not> so_deleted so" "obj_ok K (node_db s1) so"
        "sv_accounts (state_view K s1) a = Some (so_view K (node_db s1) so)"
      using getStateObject_ok [OF assms, of a] g changes_db [OF c] Some by auto
    have v: "obj_ok K (node_db s1) ?so"
        "so_view K (node_db s1) ?so = (so_view K (node_db s1) so)\<lparr>av_suicided := True, av_balance := 0\<rparr>"
      using so_suicided_view [OF so(3), of True] so_setBalance_view [of K "node_db s1" "so\<lparr>so_suicided := True\<rparr>" 0]
      by simp_all
    have same: "(so_view K (node_db s1) so)\<lparr>av_suicided := so_suicided so, av_balance := ac_Balance (so_data so)\<rparr>
        = so_view K (node_db s1) so"
      by (rule acct_view.equality) simp_all
    have "changes K m s1 (setStateObject ?so (s1\<lparr>sd_journal := j_append ?e (sd_journal s1)\<rparr>))"
      using so v same by (intro changes_object [OF changes_ok [OF c], where es = "[?e]"])
        (auto simp: view_object_def intro!: view_eqI)
    then show ?thesis using changes_trans [OF c] g Some by (simp add: Suicide_def Let_def)
  qed
qed

lemma CreateAccount_changes:
  assumes "state_ok K m s" "length (K []) = 32"
  shows "changes K m s (CreateAccount K a s)"
proof -
  let ?new = "newObject K a (emptyAccount K)"
  obtain s1 where s1: "createObject K s a = (?new, fst (getStateObject K s a), s1)" "changes K m s s1"
      "\<forall>so. obj_ok K (node_db s) so \<and> \<not> so_deleted so \<and> so_address so = a \<longrightarrow> changes K m s (setStateObject so s1)"
      "obj_ok K (node_db s) ?new"
    using createObject_ok [OF assms, of a] by blast
  have "\<not> so_deleted ?new" "so_address ?new = a" by (simp_all add: newObject_def)
  then show ?thesis
    using s1 so_setBalance_view(1) [OF s1(4)] by (auto simp: CreateAccount_def split: option.splits)
qed

text \<open>Logs, preimages and refunds.\<close>

lemma changes_entry:
  assumes "state_ok K m s" "sd_db s' = sd_db s" "sd_trie s' = sd_trie s" "sd_stateObjects s' = sd_stateObjects s"
    "sd_journal s' = j_append e (sd_journal s)" "entry_ok K (node_db s) m e"
    "sd_validRevisions s' = sd_validRevisions s" "sd_nextRevisionId s' = sd_nextRevisionId s"
    "view_revert K (node_db s) e (state_view K s') = Some (state_view K s)"
  shows "changes K m s s'"
  using assms state_ok_other(1) [OF assms(1-4)] state_ok_entries [OF assms(1)] by (auto simp: changes_def)

lemma entry_view:
  assumes "state_ok K m s" "sd_db s' = sd_db s" "sd_trie s' = sd_trie s" "sd_stateObjects s' = sd_stateObjects s"
    "sd_journal s' = j_append e (sd_journal s)" "entry_ok K (node_db s) m e"
  shows "sv_accounts (state_view K s') = sv_accounts (state_view K s)"
  using assms state_ok_other(2) [OF assms(1-4)] state_ok_entries [OF assms(1)] by auto

lemma AddLog_changes: "state_ok K m s \<Longrightarrow> changes K m s (AddLog lg s)"
  using entry_view [of K m s "AddLog lg s" "addLogChange (sd_thash s)"]
  by (intro changes_entry [where e = "addLogChange (sd_thash s)"])
     (auto simp: AddLog_def Let_def get_logs_def update_conv' split: option.splits intro!: view_eqI)

lemma AddRefund_changes: "state_ok K m s \<Longrightarrow> changes K m s (AddRefund g s)"
  using entry_view [of K m s "AddRefund g s" "refundChange (sd_refund s)"]
  by (intro changes_entry [where e = "refundChange (sd_refund s)"])
     (auto simp: AddRefund_def get_logs_def intro!: view_eqI)

lemma AddPreimage_changes:
  assumes "state_ok K m s"
  shows "changes K m s (AddPreimage h p s)"
proof (cases "map_of (sd_preimages s) h")
  case None
  then show ?thesis
    using assms entry_view [of K m s "AddPreimage h p s" "addPreimageChange h"]
    by (intro changes_entry [where e = "addPreimageChange h"])
       (auto simp: AddPreimage_def get_logs_def update_conv' intro!: view_eqI)
next
  case (Some b)
  then show ?thesis using assms by (intro changes_unseen) (simp_all add: AddPreimage_def same_log_def)
qed

section \<open>Sequences of operations\<close>

text \<open>
  The operations of a transaction. \<open>OpCall\<close> is a nested call as the virtual machine runs it: a snapshot,
  the operations of the call, and the return to the snapshot if the call failed.
\<close>

datatype state_op =
    OpAddBalance address int | OpSubBalance address int | OpSetBalance address int
  | OpSetNonce address uint64 | OpSetCode address bytes | OpSetState address hash hash
  | OpSuicide address | OpCreateAccount address | OpAddLog log | OpAddPreimage hash bytes
  | OpAddRefund uint64 | OpExist address | OpGetState address hash | OpGetCode address
  | OpCall "state_op list" bool

fun state_run :: "keccak \<Rightarrow> state_op \<Rightarrow> stateDB \<Rightarrow> stateDB option"
and state_runs :: "keccak \<Rightarrow> state_op list \<Rightarrow> stateDB \<Rightarrow> stateDB option" where
  "state_run K (OpAddBalance a n) s = Some (AddBalance K a n s)"
| "state_run K (OpSubBalance a n) s = Some (SubBalance K a n s)"
| "state_run K (OpSetBalance a n) s = Some (SetBalance K a n s)"
| "state_run K (OpSetNonce a n) s = Some (SetNonce K a n s)"
| "state_run K (OpSetCode a c) s = Some (SetCode K a c s)"
| "state_run K (OpSetState a k v) s = Some (SetState K a k v s)"
| "state_run K (OpSuicide a) s = Some (snd (Suicide K a s))"
| "state_run K (OpCreateAccount a) s = Some (CreateAccount K a s)"
| "state_run K (OpAddLog lg) s = Some (AddLog lg s)"
| "state_run K (OpAddPreimage h p) s = Some (AddPreimage h p s)"
| "state_run K (OpAddRefund g) s = Some (AddRefund g s)"
| "state_run K (OpExist a) s = Some (snd (Exist K s a))"
| "state_run K (OpGetState a k) s = Some (snd (GetState K s a k))"
| "state_run K (OpGetCode a) s = Some (snd (GetCode K s a))"
| "state_run K (OpCall ops failed) s =
     (case Snapshot s of
        (revid, s) \<Rightarrow>
          (case state_runs K ops s of
             None \<Rightarrow> None
           | Some s \<Rightarrow> if failed then RevertToSnapshot K revid s else Some s))"
| "state_runs K [] s = Some s"
| "state_runs K (x # xs) s = (case state_run K x s of None \<Rightarrow> None | Some s \<Rightarrow> state_runs K xs s)"

definition revs_ok :: "stateDB \<Rightarrow> bool" where
  "revs_ok s \<longleftrightarrow> (\<forall>r \<in> set (sd_validRevisions s). fst r < sd_nextRevisionId s)"

lemma revs_ok_changes: "revs_ok s \<Longrightarrow> changes K m s s' \<Longrightarrow> revs_ok s'"
  by (fastforce simp: revs_ok_def changes_def)

lemma Snapshot_changes:
  assumes "state_ok K m s"
  shows "changes K m s (snd (Snapshot s))" "state_view K (snd (Snapshot s)) = state_view K s"
    "state_ok K m (snd (Snapshot s))"
proof -
  show ok: "state_ok K m (snd (Snapshot s))"
    using state_ok_other(1) [OF assms, of "snd (Snapshot s)"] state_ok_entries [OF assms] by (simp add: Snapshot_def Let_def)
  show v: "state_view K (snd (Snapshot s)) = state_view K s"
    using state_ok_other(2) [OF assms, of "snd (Snapshot s)"] state_ok_entries [OF assms]
    by (auto simp: Snapshot_def Let_def get_logs_def intro!: view_eqI)
  show "changes K m s (snd (Snapshot s))"
    using ok v by (simp add: changes_def) (simp add: Snapshot_def Let_def)
qed

text \<open>Returning to a snapshot after changes.\<close>

lemma RevertToSnapshot_ok:
  assumes "state_ok K m s" "revs_ok s" "changes K m (snd (Snapshot s)) s'"
  shows "\<exists>s''. RevertToSnapshot K (fst (Snapshot s)) s' = Some s'' \<and> state_view K s'' = state_view K s \<and> changes K m s s''"
proof -
  let ?s = "snd (Snapshot s)" and ?id = "sd_nextRevisionId s"
  have s: "j_entries (sd_journal ?s) = j_entries (sd_journal s)" "sd_db ?s = sd_db s"
      "sd_validRevisions ?s = sd_validRevisions s @ [(?id, length (j_entries (sd_journal s)))]"
      "sd_nextRevisionId ?s = ?id + 1"
    by (simp_all add: Snapshot_def Let_def j_length_def)
  obtain es where es: "j_entries (sd_journal s') = j_entries (sd_journal s) @ es"
      "view_reverts K (node_db s') (rev es) (state_view K s') = Some (state_view K s)"
    using assms(3) Snapshot_changes(2) [OF assms(1)] s unfolding changes_def by auto
  obtain rs where rs: "sd_validRevisions s' = sd_validRevisions s @ (?id, length (j_entries (sd_journal s))) # rs"
      "\<forall>r \<in> set rs. ?id + 1 \<le> fst r"
    using assms(3) s unfolding changes_def by auto
  obtain s2 where s2: "journal_revert K (length (j_entries (sd_journal s))) s' = Some s2" "state_view K s2 = state_view K s"
      "state_ok K m s2" "sd_db s2 = sd_db s'" "j_entries (sd_journal s2) = j_entries (sd_journal s)"
      "sd_validRevisions s2 = sd_validRevisions s'" "sd_nextRevisionId s2 = sd_nextRevisionId s'"
    using journal_revert_view [OF changes_ok [OF assms(3)] es] by blast
  let ?n = "length (sd_validRevisions s)"
  have idx: "sort_Search (\<lambda>i. fst (sd_validRevisions s' ! i) \<ge> ?id) 0 (length (sd_validRevisions s')) = ?n"
  proof (rule sort_Search_threshold)
    show "\<not> ?id \<le> fst (sd_validRevisions s' ! a)" if "a < ?n" for a
    proof -
      have "fst (sd_validRevisions s ! a) < ?id" using assms(2) nth_mem [OF that] unfolding revs_ok_def by blast
      then show ?thesis using that rs(1) by (simp add: nth_append)
    qed
    show "?id \<le> fst (sd_validRevisions s' ! a)" if "?n \<le> a" "a < length (sd_validRevisions s')" for a
    proof (cases "a = ?n")
      case False
      then have "rs ! (a - ?n - 1) \<in> set rs" using that rs(1) by (intro nth_mem) auto
      then have "?id + 1 \<le> fst (rs ! (a - ?n - 1))" using rs(2) by blast
      then show ?thesis using that False rs(1) by (simp add: nth_append nth_Cons')
    qed (simp add: rs(1))
  qed (simp_all add: rs)
  let ?s3 = "s2\<lparr>sd_validRevisions := sd_validRevisions s\<rparr>"
  have r: "RevertToSnapshot K ?id s' = Some ?s3"
    using idx s2(1,6) rs(1) by (simp add: RevertToSnapshot_def Let_def)
  have "state_ok K m ?s3" "state_view K ?s3 = state_view K s2"
    using state_ok_other [OF s2(3), of ?s3] state_ok_entries [OF s2(3)] by (auto simp: get_logs_def intro!: view_eqI)
  then have ok: "state_ok K m ?s3" "state_view K ?s3 = state_view K s" using s2(2) by simp_all
  moreover have "sd_nextRevisionId s \<le> sd_nextRevisionId s'" "sd_db s' = sd_db s"
    using assms(3) s unfolding changes_def by auto
  ultimately have "changes K m s ?s3" using s2 by (simp add: changes_def)
  then show ?thesis using r ok(2) by (auto simp: Snapshot_def Let_def)
qed

lemma node_hash_length: "length (BytesToHash b) = 32"
  by (simp add: BytesToHash_def HashLength_def)

lemma run_changes:
  "length (K []) = 32 \<Longrightarrow> state_ok K m s \<Longrightarrow> revs_ok s \<Longrightarrow> \<exists>s'. state_run K x s = Some s' \<and> changes K m s s'"
  "length (K []) = 32 \<Longrightarrow> state_ok K m s \<Longrightarrow> revs_ok s \<Longrightarrow> \<exists>s'. state_runs K xs s = Some s' \<and> changes K m s s'"
proof (induction K x s and K xs s rule: state_run_state_runs.induct)
  case (15 K ops failed s)
  let ?s = "snd (Snapshot s)"
  have ok: "state_ok K m ?s" "revs_ok ?s"
    using Snapshot_changes [OF "15.prems"(2)] revs_ok_changes [OF "15.prems"(3)] by blast+
  obtain s' where s': "state_runs K ops ?s = Some s'" "changes K m ?s s'"
    using "15.IH" [OF prod.collapse "15.prems"(1) ok] by blast
  then show ?case
    using RevertToSnapshot_ok [OF "15.prems"(2,3) s'(2)] changes_trans [OF Snapshot_changes(1) [OF "15.prems"(2)] s'(2)]
    by (cases "Snapshot s") auto
next
  case (16 K s)
  then show ?case using changes_unseen [of K m s s] by (simp add: same_log_def)
next
  case (17 K x xs s)
  obtain s1 where s1: "state_run K x s = Some s1" "changes K m s s1" using "17.IH"(1) [OF "17.prems"] by blast
  obtain s2 where "state_runs K xs s1 = Some s2" "changes K m s1 s2"
    using "17.IH"(2) [OF s1(1) "17.prems"(1) changes_ok [OF s1(2)] revs_ok_changes [OF "17.prems"(3) s1(2)]] by blast
  then show ?case using s1 changes_trans by auto
next
  case (12 K a s)
  then show ?case using getStateObject_changes [OF "12.prems"(2), of a] by (auto simp: Exist_def split: prod.splits)
qed (simp_all add: AddBalance_def SubBalance_def SetBalance_def SetNonce_def SetCode_def SetState_def
    on_object_changes AddBalance_change SubBalance_change SetBalance_change SetNonce_change SetCode_change
    SetState_change Suicide_changes CreateAccount_changes AddLog_changes AddPreimage_changes AddRefund_changes
    GetState_changes GetCode_changes node_hash_length)

text \<open>
  C38: every sequence of operations of a transaction succeeds, and a failed call leaves the state as it was:
  after a snapshot, any operations (nested calls included) and the return to the snapshot, every query
  (existence, balance, nonce, code, storage and suicide mark of every account, refund counter, logs, preimages)
  gives what it gave before.
\<close>

theorem revert_restores_state:
  assumes "state_ok K m s" "revs_ok s" "length (K []) = 32"
  shows "(\<exists>s'. state_runs K ops s = Some s') \<and>
    (\<exists>s'. state_run K (OpCall ops True) s = Some s' \<and> state_view K s' = state_view K s \<and> state_ok K m s' \<and> revs_ok s')"
proof -
  let ?s = "snd (Snapshot s)"
  have ok: "state_ok K m ?s" "revs_ok ?s"
    using Snapshot_changes [OF assms(1)] revs_ok_changes [OF assms(2)] by blast+
  obtain s' where s': "state_runs K ops ?s = Some s'" "changes K m ?s s'" using run_changes(2) [OF assms(3) ok] by blast
  obtain s'' where "RevertToSnapshot K (fst (Snapshot s)) s' = Some s''" "state_view K s'' = state_view K s" "changes K m s s''"
    using RevertToSnapshot_ok [OF assms(1,2) s'(2)] by blast
  then have "\<exists>s'. state_run K (OpCall ops True) s = Some s' \<and> state_view K s' = state_view K s \<and> state_ok K m s' \<and> revs_ok s'"
    using s'(1) changes_ok revs_ok_changes [OF assms(2)] by (cases "Snapshot s") auto
  then show ?thesis using run_changes(2) [OF assms(3,1,2)] by blast
qed

section \<open>An example\<close>

definition sample_state :: stateDB where
  "sample_state = projr (state_New pad_hash zeroHash (NewCachingDB (\<lambda>h. None)))"

lemma sample_state_eq:
  "sample_state = \<lparr>sd_db = NewCachingDB (\<lambda>h. None),
     sd_trie = \<lparr>st_trie = \<lparr>t_db = Database_node (NewDatabase (\<lambda>h. None)), t_root = NilN, t_originalRoot = zeroHash,
       t_prefix = None, t_cachegen = 0, t_cachelimit = 120\<rparr>, st_secKeyCache = None\<rparr>,
     sd_stateObjects = [], sd_stateObjectsDirty = [], sd_dbErr = None, sd_refund = 0, sd_thash = zeroHash,
     sd_bhash = zeroHash, sd_txIndex = 0, sd_logs = [], sd_logSize = 0, sd_preimages = [], sd_journal = newJournal,
     sd_validRevisions = [], sd_nextRevisionId = 0\<rparr>"
  by (simp add: sample_state_def state_New_def OpenTrie_def NewCachingDB_def NewSecure_def trie_New_def
      SetCacheLimit_def MaxTrieCacheGen_def Let_def)

lemma sample_state_ok: "state_ok pad_hash Map.empty sample_state" "revs_ok sample_state"
  by (auto simp: sample_state_eq state_ok_def revs_ok_def load_object_def newJournal_def attached_def intro: nil_trie_ok)

theorem revert_restores_state_witness:
  "\<exists>s'. state_run pad_hash (OpCall [OpCreateAccount (replicate 20 1), OpAddBalance (replicate 20 1) 5,
       OpSetState (replicate 20 1) (replicate 32 2) (replicate 32 3),
       OpCall [OpSuicide (replicate 20 1), OpAddRefund 7] False] True) sample_state = Some s' \<and>
     state_view pad_hash s' = state_view pad_hash sample_state"
  using revert_restores_state [OF sample_state_ok, of "[OpCreateAccount (replicate 20 1), OpAddBalance (replicate 20 1) 5,
       OpSetState (replicate 20 1) (replicate 32 2) (replicate 32 3), OpCall [OpSuicide (replicate 20 1), OpAddRefund 7] False]"]
  by (auto simp: pad_hash_def simp del: state_run.simps)

end
