(* ===== verification/State_Root.thy ===== *)
theory State_Root
  imports State_Journal
begin

text \<open>
  Writing the state into its tries: the storage trie of an account holds its storage, and the account trie
  holds the accounts that transactions changed.
\<close>

section \<open>Accounts\<close>

definition account_bytes :: "account \<Rightarrow> bytes" where
  "account_bytes a = item List (concat [rlp_enc (RStr (nat_bytes (unat (ac_Nonce a)))),
     rlp_enc (RStr (nat_bytes (nat (ac_Balance a)))), rlp_enc (RStr (ac_Root a)), rlp_enc (RStr (ac_CodeHash a))])"

definition account_wf :: "account \<Rightarrow> bool" where
  "account_wf a \<longleftrightarrow> 0 \<le> ac_Balance a \<and> ac_Balance a < 2 ^ 256 \<and> length (ac_Root a) = 32 \<and> length (ac_CodeHash a) = 32"

lemma enc_as_account: "account_wf a \<Longrightarrow> enc_as account_type NoTag (account_val a) (account_bytes a)"
  unfolding account_type_def account_val_def account_bytes_def
  by (intro struct fields_cons fields_nil enc_as_array enc_as_uint64 bytes bigptr) (auto simp: account_wf_def)

lemma account_bytes_short:
  assumes "account_wf a"
  shows "length (account_bytes a) < 2 ^ 63"
proof -
  have "nat (ac_Balance a) < 256 ^ 32" using assms by (simp add: account_wf_def nat_less_iff)
  then have "length (nat_bytes (nat (ac_Balance a))) \<le> 32" by (rule length_nat_bytes)
  moreover have "length (nat_bytes (unat (ac_Nonce a))) \<le> 8"
    using unat_word64_pow [of "ac_Nonce a"] by (intro length_nat_bytes) simp
  ultimately show ?thesis
    using assms item_List_le [of "concat [rlp_enc (RStr (nat_bytes (unat (ac_Nonce a)))),
     rlp_enc (RStr (nat_bytes (nat (ac_Balance a)))), rlp_enc (RStr (ac_Root a)), rlp_enc (RStr (ac_CodeHash a))]"]
      rlp_str_le [of "nat_bytes (unat (ac_Nonce a))"] rlp_str_le [of "nat_bytes (nat (ac_Balance a))"]
      rlp_str_le [of "ac_Root a"] rlp_str_le [of "ac_CodeHash a"]
    by (simp add: account_bytes_def account_wf_def del: rlp_enc.simps)
qed

lemma encode_account: "account_wf a \<Longrightarrow> encode_typed account_type (account_val a) = Inr (account_bytes a)"
  using encode_typed_enc [OF enc_as_account account_bytes_short] .

lemma account_of_val: "account_of (account_val a) = a"
  by (simp add: account_of_def account_val_def un_defs un_bigptr_def Let_def)

lemma decode_account:
  assumes "account_wf a"
  shows "DecodeBytes (Suc (length (account_bytes a))) account_type (account_bytes a) = Inr (account_val a)"
  using DecodeBytes_enc [OF enc_as_account account_bytes_short] assms by simp

lemma account_bytes_nonempty: "account_bytes a \<noteq> []"
  by (simp add: account_bytes_def item_def puthead_def Let_def)

section \<open>Storage\<close>

definition slot_bytes :: "hash \<Rightarrow> bytes option" where
  "slot_bytes v = (if v = zeroHash then None else Some (EncodeToBytes (RStr (trim_left v))))"

lemma trim_left_le: "length (trim_left v) \<le> length v"
  by (simp add: trim_left_def length_dropWhile_le)

lemma pad_trim:
  assumes "length v = n"
  shows "replicate (n - length (trim_left v)) 0 @ trim_left v = v"
  using assms
proof (induction v arbitrary: n)
  case (Cons b v)
  show ?case using trim_left_le [of v] Cons.IH [of "length v"] Cons.prems by (auto simp: trim_left_def Suc_diff_le)
qed (simp add: trim_left_def)

lemma stored_slot: "length v = 32 \<Longrightarrow> stored_value (slot_bytes v) = v"
proof (cases "v = zeroHash")
  case False
  assume v: "length v = 32"
  have l: "length (trim_left v) \<le> 32" using v trim_left_le [of v] by simp
  have sm: "rlp_small (RStr (trim_left v))" using rlp_short_string [of "trim_left v"] l by simp
  then have e: "EncodeToBytes (RStr (trim_left v)) = rlp_enc (RStr (trim_left v))" by (simp add: EncodeToBytes_eq)
  have "Split (rlp_enc (RStr (trim_left v))) = Inr (rlp_kind (RStr (trim_left v)), trim_left v, [])"
    using Split_rlp_enc [OF sm, of "[]"] by simp
  moreover have "BytesToHash (trim_left v) = v"
    using l pad_trim [OF v] by (simp add: BytesToHash_def setBytes_def HashLength_def Let_def)
  ultimately show ?thesis
    using False rlp_enc_nonempty [of "RStr (trim_left v)"]
    by (simp add: stored_value_def slot_bytes_def e del: rlp_enc.simps)
qed (simp add: stored_value_def slot_bytes_def)

lemma attached_same: "t_db (st_trie t) = Database_node db \<Longrightarrow> attached db t = st_trie t"
  by (simp add: attached_def)

lemma secure_TryUpdate_ok:
  assumes "trie_ok K (attached db t) m" "v \<noteq> []"
  shows "\<exists>t'. secure_TryUpdate K db t key v = Inr t' \<and> trie_ok K (attached db t') (m(K key \<mapsto> v))"
proof -
  obtain tr where "TryUpdate (attached db t) (K key) v = Inr tr" "trie_ok K tr (m(K key \<mapsto> v))" "t_db tr = Database_node db"
    using TryUpdate_ok [OF assms(1), of "K key" v] assms(2) by auto
  then show ?thesis by (simp add: secure_TryUpdate_def hashKey_def Let_def attached_same)
qed

lemma secure_TryDelete_ok:
  assumes "trie_ok K (attached db t) m"
  shows "\<exists>t'. secure_TryDelete K db t key = (None, t') \<and> trie_ok K (attached db t') (m(K key := None))"
proof -
  have a: "attached db (t\<lparr>st_secKeyCache := c\<rparr>) = attached db t" for c by (simp add: attached_def)
  obtain tr where "TryDelete (attached db t) (K key) = Inr tr" "trie_ok K tr (m(K key := None))" "t_db tr = Database_node db"
    using TryUpdate_ok [OF assms(1), of "K key" "[]"] by (auto simp: TryDelete_eq)
  then show ?thesis by (simp add: secure_TryDelete_def hashKey_def Let_def a)
qed

lemma EncodeToBytes_str_nonempty: "length b \<le> 32 \<Longrightarrow> EncodeToBytes (RStr b) \<noteq> []"
  using rlp_short_string [of b] rlp_enc_nonempty [of "RStr b"] by (simp add: EncodeToBytes_eq)

definition same_object :: "stateObject \<Rightarrow> stateObject \<Rightarrow> bool" where
  "same_object so so' \<longleftrightarrow> so_data so' = so_data so \<and> so_address so' = so_address so \<and>
     so_suicided so' = so_suicided so \<and> so_deleted so' = so_deleted so"

lemma put_storage_ok:
  assumes "storage_ok K db so m" "so_trie so \<noteq> None" "length v = 32"
  shows "storage_ok K db (put_storage K db (k, v) so) (m(K k := slot_bytes v)) \<and>
    so_trie (put_storage K db (k, v) so) \<noteq> None \<and> same_object so (put_storage K db (k, v) so)"
proof -
  obtain t where t: "so_trie so = Some t" using assms(2) by blast
  have ok: "trie_ok K (attached db t) m" using assms(1) t by (simp add: storage_ok_def)
  show ?thesis
  proof (cases "v = zeroHash")
    case True
    then show ?thesis
      using secure_TryDelete_ok [OF ok, of k] t by (auto simp: put_storage_def storage_ok_def slot_bytes_def same_object_def Let_def)
  next
    case False
    have "length (trim_left v) \<le> 32" using assms(3) trim_left_le [of v] by simp
    then have "EncodeToBytes (RStr (trim_left v)) \<noteq> []" by (rule EncodeToBytes_str_nonempty)
    then show ?thesis
      using secure_TryUpdate_ok [OF ok, of "EncodeToBytes (RStr (trim_left v))" k] t False
      by (auto simp: put_storage_def storage_ok_def slot_bytes_def same_object_def Let_def)
  qed
qed

definition put_slots :: "keccak \<Rightarrow> (hash \<times> hash) list \<Rightarrow> (bytes \<rightharpoonup> bytes) \<Rightarrow> (bytes \<rightharpoonup> bytes)" where
  "put_slots K = fold (\<lambda>(k, v) m. m(K k := slot_bytes v))"

lemma put_slots_simps:
  "put_slots K [] m = m" "put_slots K ((k, v) # kvs) m = put_slots K kvs (m(K k := slot_bytes v))"
  by (simp_all add: put_slots_def)

lemma fold_put_storage:
  assumes "storage_ok K db so m" "so_trie so \<noteq> None" "\<forall>(k, v) \<in> set kvs. length v = 32"
  shows "storage_ok K db (fold (put_storage K db) kvs so) (put_slots K kvs m) \<and>
    so_trie (fold (put_storage K db) kvs so) \<noteq> None \<and> same_object so (fold (put_storage K db) kvs so)"
  using assms
proof (induction kvs arbitrary: so m)
  case Nil
  then show ?case by (simp add: put_slots_simps same_object_def)
next
  case (Cons kv kvs)
  obtain k v where kv: "kv = (k, v)" by fastforce
  have p: "length v = 32" "\<forall>(k, v) \<in> set kvs. length v = 32" using Cons.prems(3) kv by simp_all
  have 1: "storage_ok K db (put_storage K db (k, v) so) (m(K k := slot_bytes v))"
      "so_trie (put_storage K db (k, v) so) \<noteq> None" "same_object so (put_storage K db (k, v) so)"
    using put_storage_ok [OF Cons.prems(1,2) p(1), of k] by blast+
  show ?case
    using Cons.IH [OF 1(1,2) p(2)] 1(3) unfolding kv put_slots_simps fold_simps same_object_def by metis
qed

lemma put_slots_lookup:
  assumes "distinct (map fst kvs)" "\<forall>(k, v) \<in> set kvs. k \<in> S" "inj_on K S" "key \<in> S"
  shows "put_slots K kvs m (K key) = (case map_of kvs key of Some v \<Rightarrow> slot_bytes v | None \<Rightarrow> m (K key))"
  using assms(1,2)
proof (induction kvs arbitrary: m)
  case (Cons kv kvs)
  obtain k v where kv: "kv = (k, v)" by fastforce
  have "K key = K k \<longleftrightarrow> key = k" using assms(3,4) Cons.prems(2) kv by (auto simp: inj_on_def)
  moreover have "k \<notin> fst ` set kvs" using Cons.prems(1) kv by simp
  then have "map_of kvs k = None" by (simp add: map_of_eq_None_iff)
  ultimately show ?case using Cons kv by (auto simp: put_slots_simps split: option.splits)
qed (simp add: put_slots_simps)

text \<open>The slots to be written are among \<open>S\<close>, and their values are hashes.\<close>

definition slots_wf :: "hash set \<Rightarrow> stateObject \<Rightarrow> bool" where
  "slots_wf S so \<longleftrightarrow> (\<forall>(k, v) \<in> set (so_dirtyStorage so). k \<in> S \<and> length v = 32)"

text \<open>After \<open>updateRoot\<close> the storage trie holds every storage entry, and the root is its hash.\<close>

lemma updateRoot_ok:
  assumes "obj_ok K db so" "slots_wf S so" "inj_on K S"
  shows "\<exists>so' t ms. updateRoot K db so = so' \<and> trie_ok K t ms \<and>
    so_data so' = (so_data so)\<lparr>ac_Root := fst (trie_Hash K t)\<rparr> \<and> so_address so' = so_address so \<and>
    so_suicided so' = so_suicided so \<and> so_deleted so' = so_deleted so \<and>
    (\<forall>key \<in> S. stored_value (ms (K key)) = av_storage (so_view K db so) key)"
proof -
  obtain m where m: "storage_ok K db so m" "length (ac_CodeHash (so_data so)) = 32" "cache_ok K so m"
    using assms(1) by (rule obj_okE)
  let ?so0 = "snd (getTrie db so)" and ?kvs = "so_dirtyStorage so"
  have s0: "storage_ok K db ?so0 m" "so_trie ?so0 \<noteq> None"
    using m(1) by (simp_all add: storage_ok_def)
  define so1 where "so1 = fold (put_storage K db) ?kvs ?so0"
  have s1: "storage_ok K db so1 (put_slots K ?kvs m)" "so_trie so1 \<noteq> None" "so_data so1 = so_data so"
      "so_address so1 = so_address so" "so_suicided so1 = so_suicided so" "so_deleted so1 = so_deleted so"
    using fold_put_storage [OF s0, of ?kvs] assms(2) unfolding so1_def slots_wf_def same_object_def by auto
  then obtain st where st: "so_trie so1 = Some st" by blast
  let ?t = "attached db st"
  have ok: "trie_ok K ?t (put_slots K ?kvs m)" using s1(1) st by (simp add: storage_ok_def)
  have "updateTrie K db so = (st, so1)" using st by (simp add: updateTrie_def so1_def [symmetric] Let_def)
  then have so': "updateRoot K db so = so1\<lparr>so_trie := Some (snd (secure_Hash K db st)),
      so_data := (so_data so1)\<lparr>ac_Root := fst (trie_Hash K ?t)\<rparr>\<rparr>"
    by (simp add: updateRoot_def secure_Hash_def split_beta)
  have "stored_value (put_slots K ?kvs m (K key)) = av_storage (so_view K db so) key" if "key \<in> S" for key
  proof -
    have l: "put_slots K ?kvs m (K key) = (case map_of ?kvs key of Some v \<Rightarrow> slot_bytes v | None \<Rightarrow> m (K key))"
      using put_slots_lookup [OF _ _ assms(3) that, of ?kvs m] m(3) assms(2) by (auto simp: cache_ok_def slots_wf_def)
    show ?thesis
    proof (cases "map_of ?kvs key")
      case None
      then show ?thesis using l m(3) by (auto simp: so_view_eq [OF m(1)] cache_ok_def split: option.splits)
    next
      case (Some v)
      then have "length v = 32" using assms(2) map_of_SomeD by (fastforce simp: slots_wf_def)
      then show ?thesis using Some l m(3) stored_slot by (auto simp: so_view_eq [OF m(1)] cache_ok_def)
    qed
  qed
  then show ?thesis using so' ok s1 by (intro exI [of _ "updateRoot K db so"] exI [of _ ?t] exI [of _ "put_slots K ?kvs m"]) simp
qed

section \<open>The account trie\<close>

text \<open>What the account trie holds for the account of an object after the state is written.\<close>

definition written :: "keccak \<Rightarrow> database \<Rightarrow> hash set \<Rightarrow> bool \<Rightarrow> stateObject \<Rightarrow> bytes option \<Rightarrow> bool" where
  "written K db S deleteEmptyObjects so enc \<longleftrightarrow>
     (if so_suicided so \<or> deleteEmptyObjects \<and> so_empty K so then enc = None
      else (\<exists>t ms. trie_ok K t ms \<and>
              enc = Some (account_bytes ((so_data so)\<lparr>ac_Root := fst (trie_Hash K t)\<rparr>)) \<and>
              (\<forall>key \<in> S. stored_value (ms (K key)) = av_storage (so_view K db so) key)))"

definition writable :: "hash set \<Rightarrow> stateObject \<Rightarrow> bool" where
  "writable S so \<longleftrightarrow> slots_wf S so \<and> 0 \<le> ac_Balance (so_data so) \<and> ac_Balance (so_data so) < 2 ^ 256"

lemma length_trie_Hash: "length (fst (trie_Hash K t)) = 32"
  by (simp add: trie_Hash_def BytesToHash_def HashLength_def split: prod.splits)

lemma finalise_one_ok:
  assumes "trie_ok K (attached (node_db s) (sd_trie s)) m" "map_of (sd_stateObjects s) a = Some so"
    "so_address so = a" "obj_ok K (node_db s) so" "writable S so" "inj_on K S"
  shows "\<exists>s' enc so'. finalise_one K d a s = Some s' \<and> written K (node_db s) S d so enc \<and>
    trie_ok K (attached (node_db s) (sd_trie s')) (m(K a := enc)) \<and> sd_db s' = sd_db s \<and>
    map_of (sd_stateObjects s') = (map_of (sd_stateObjects s))(a \<mapsto> so')"
proof (cases "so_suicided so \<or> d \<and> so_empty K so")
  case True
  obtain tr where tr: "secure_TryDelete K (node_db s) (sd_trie s) a = (None, tr)"
      "trie_ok K (attached (node_db s) tr) (m(K a := None))"
    using secure_TryDelete_ok [OF assms(1), of a] by blast
  have "deleteStateObject K so s = setStateObject (so\<lparr>so_deleted := True\<rparr>) (s\<lparr>sd_trie := tr\<rparr>)"
    using tr(1) assms(3) by (simp add: deleteStateObject_def sd_setError_def setStateObject_def)
  then show ?thesis
    using True assms(2,3) tr(2)
    by (intro exI [of _ "(deleteStateObject K so s)\<lparr>sd_stateObjectsDirty := List.insert a (sd_stateObjectsDirty s)\<rparr>"]
        exI [of _ None] exI [of _ "so\<lparr>so_deleted := True\<rparr>"])
      (simp add: finalise_one_def written_def)
next
  case False
  obtain t ms where so': "trie_ok K t ms"
      "so_data (updateRoot K (node_db s) so) = (so_data so)\<lparr>ac_Root := fst (trie_Hash K t)\<rparr>"
      "so_address (updateRoot K (node_db s) so) = so_address so"
      "\<forall>key \<in> S. stored_value (ms (K key)) = av_storage (so_view K (node_db s) so) key"
    using updateRoot_ok [OF assms(4) _ assms(6)] assms(5) unfolding writable_def by blast
  let ?so = "updateRoot K (node_db s) so"
  let ?enc = "account_bytes (so_data ?so)"
  have wf: "account_wf (so_data ?so)"
    using so'(2) assms(4,5) length_trie_Hash [of K t] by (simp add: account_wf_def writable_def obj_ok_def)
  obtain tr where tr: "secure_TryUpdate K (node_db s) (sd_trie s) a ?enc = Inr tr"
      "trie_ok K (attached (node_db s) tr) (m(K a \<mapsto> ?enc))"
    using secure_TryUpdate_ok [OF assms(1) account_bytes_nonempty, of a] by blast
  have "updateStateObject K ?so (setStateObject ?so s) = Some ((setStateObject ?so s)\<lparr>sd_trie := tr\<rparr>)"
    using encode_account [OF wf] tr(1) so'(3) assms(3) by (simp add: updateStateObject_def)
  then have "finalise_one K d a s = Some ((setStateObject ?so s)\<lparr>sd_trie := tr,
      sd_stateObjectsDirty := List.insert a (sd_stateObjectsDirty s)\<rparr>)"
    using False assms(2) by (auto simp: finalise_one_def Let_def)
  moreover have "written K (node_db s) S d so (Some ?enc)" using False so' by (auto simp: written_def)
  ultimately show ?thesis using tr(2) so'(3) assms(3) by auto
qed

lemma each_finalise_ok:
  assumes "trie_ok K (attached (node_db s) (sd_trie s)) m" "distinct as" "inj_on K (set as)"
    "\<And>a so. a \<in> set as \<Longrightarrow> map_of (sd_stateObjects s) a = Some so \<Longrightarrow>
       so_address so = a \<and> obj_ok K (node_db s) so \<and> writable S so"
    "inj_on K S"
  shows "\<exists>s' m'. each_address (finalise_one K d) as s = Some s' \<and> sd_db s' = sd_db s \<and>
    trie_ok K (attached (node_db s) (sd_trie s')) m' \<and>
    (\<forall>k. k \<notin> K ` set as \<longrightarrow> m' k = m k) \<and>
    (\<forall>a \<in> set as. case map_of (sd_stateObjects s) a of
       None \<Rightarrow> m' (K a) = m (K a) | Some so \<Rightarrow> written K (node_db s) S d so (m' (K a)))"
  using assms
proof (induction as arbitrary: s m)
  case Nil
  then show ?case by auto
next
  case (Cons a as)
  have a: "K a \<notin> K ` set as" using Cons.prems(2,3) by (auto simp: inj_on_def)
  obtain s1 m1 where s1: "finalise_one K d a s = Some s1" "sd_db s1 = sd_db s"
      "trie_ok K (attached (node_db s) (sd_trie s1)) m1" "\<forall>k. k \<noteq> K a \<longrightarrow> m1 k = m k"
      "\<forall>b. b \<noteq> a \<longrightarrow> map_of (sd_stateObjects s1) b = map_of (sd_stateObjects s) b"
      "case map_of (sd_stateObjects s) a of
       None \<Rightarrow> m1 (K a) = m (K a) | Some so \<Rightarrow> written K (node_db s) S d so (m1 (K a))"
  proof (cases "map_of (sd_stateObjects s) a")
    case None
    then show ?thesis using that [of s m] Cons.prems(1) by (simp add: finalise_one_def)
  next
    case (Some so)
    then have so: "so_address so = a" "obj_ok K (node_db s) so" "writable S so"
      using Cons.prems(4) [of a so] by auto
    obtain s' enc so' where "finalise_one K d a s = Some s'" "written K (node_db s) S d so enc"
        "trie_ok K (attached (node_db s) (sd_trie s')) (m(K a := enc))" "sd_db s' = sd_db s"
        "map_of (sd_stateObjects s') = (map_of (sd_stateObjects s))(a \<mapsto> so')"
      using finalise_one_ok [OF Cons.prems(1) Some so Cons.prems(5), of d] by blast
    then show ?thesis using that [of s' "m(K a := enc)"] Some by simp
  qed
  have p: "trie_ok K (attached (node_db s1) (sd_trie s1)) m1" "distinct as" "inj_on K (set as)"
    using s1(2,3) Cons.prems(2,3) by auto
  have q: "so_address so = b \<and> obj_ok K (node_db s1) so \<and> writable S so"
    if "b \<in> set as" "map_of (sd_stateObjects s1) b = Some so" for b so
  proof -
    have "b \<noteq> a" using that(1) Cons.prems(2) by auto
    then show ?thesis using Cons.prems(4) [of b so] that s1(2,5) by simp
  qed
  obtain s2 m2 where s2: "each_address (finalise_one K d) as s1 = Some s2" "sd_db s2 = sd_db s1"
      "trie_ok K (attached (node_db s1) (sd_trie s2)) m2" "\<forall>k. k \<notin> K ` set as \<longrightarrow> m2 k = m1 k"
      "\<forall>b \<in> set as. case map_of (sd_stateObjects s1) b of
       None \<Rightarrow> m2 (K b) = m1 (K b) | Some so \<Rightarrow> written K (node_db s1) S d so (m2 (K b))"
    using Cons.IH [OF p q Cons.prems(5)] by blast
  have "case map_of (sd_stateObjects s) b of None \<Rightarrow> m2 (K b) = m (K b) | Some so \<Rightarrow> written K (node_db s) S d so (m2 (K b))"
    if "b \<in> set (a # as)" for b
  proof (cases "b = a")
    case True
    then show ?thesis using s1(6) s2(4) a by (auto split: option.splits)
  next
    case False
    then have "b \<in> set as" using that by simp
    moreover from this have "K b \<noteq> K a" using a by (metis imageI)
    ultimately have "b \<in> set as" "K b \<noteq> K a" by simp_all
    then show ?thesis
      using s2(5) s1(2,4,5) False by (auto split: option.splits dest!: bspec [of _ _ b])
  qed
  then show ?case using s1(1,2,4) s2 by (intro exI [of _ s2] exI [of _ m2]) auto
qed

text \<open>A state without changes has the hash of its trie as root.\<close>

lemma IntermediateRoot_clean:
  "sd_journal s = newJournal \<Longrightarrow>
   \<exists>s'. IntermediateRoot K d s = Some (fst (trie_Hash K (attached (node_db s) (sd_trie s))), s')"
  by (simp add: IntermediateRoot_def Finalise_def secure_Hash_def newJournal_def clearJournalAndRefund_def split_beta)

lemma IntermediateRoot_ok:
  assumes "state_ok K m s" "distinct (map fst (j_dirties (sd_journal s)))"
    "\<forall>a so. a \<in> fst ` set (j_dirties (sd_journal s)) \<and> map_of (sd_stateObjects s) a = Some so \<longrightarrow> writable S so"
    "inj_on K (fst ` set (j_dirties (sd_journal s)))" "inj_on K S"
  shows "\<exists>root s' m' t. IntermediateRoot K d s = Some (root, s') \<and>
    trie_ok K t m' \<and> root = fst (trie_Hash K t) \<and> trie_ok K (attached (node_db s) (sd_trie s')) m' \<and>
    (\<forall>k. k \<notin> K ` fst ` set (j_dirties (sd_journal s)) \<longrightarrow> m' k = m k) \<and>
    (\<forall>a \<in> fst ` set (j_dirties (sd_journal s)). case map_of (sd_stateObjects s) a of
       None \<Rightarrow> m' (K a) = m (K a) | Some so \<Rightarrow> written K (node_db s) S d so (m' (K a))) \<and>
    (\<forall>d'. \<exists>s''. IntermediateRoot K d' s' = Some (root, s''))"
proof -
  let ?as = "map fst (j_dirties (sd_journal s))"
  have ok: "trie_ok K (attached (node_db s) (sd_trie s)) m" using assms(1) by (simp add: state_ok_def)
  have objs: "so_address so = a \<and> obj_ok K (node_db s) so \<and> writable S so"
    if "a \<in> set ?as" "map_of (sd_stateObjects s) a = Some so" for a so
  proof -
    have "a \<in> fst ` set (j_dirties (sd_journal s))" using that(1) by simp
    then show ?thesis using that(2) assms(1,3) unfolding state_ok_def by blast
  qed
  have inj: "inj_on K (set ?as)" using assms(4) by simp
  obtain s1 m' where s1: "each_address (finalise_one K d) ?as s = Some s1" "sd_db s1 = sd_db s"
      "trie_ok K (attached (node_db s) (sd_trie s1)) m'" "\<forall>k. k \<notin> K ` set ?as \<longrightarrow> m' k = m k"
      "\<forall>a \<in> set ?as. case map_of (sd_stateObjects s) a of
       None \<Rightarrow> m' (K a) = m (K a) | Some so \<Rightarrow> written K (node_db s) S d so (m' (K a))"
    using each_finalise_ok [OF ok assms(2) inj objs assms(5), of d] by blast
  let ?t = "attached (node_db s) (sd_trie s1)"
  obtain h t' where t': "trie_Hash K ?t = (h, t')" "trie_ok K t' m'" "t_db t' = t_db ?t"
    using trie_Hash_rep [OF s1(3)] by blast
  let ?s' = "(clearJournalAndRefund s1)\<lparr>sd_trie := (sd_trie s1)\<lparr>st_trie := t'\<rparr>\<rparr>"
  have r: "IntermediateRoot K d s = Some (h, ?s')"
    using s1(1,2) t'(1) by (simp add: IntermediateRoot_def Finalise_def secure_Hash_def clearJournalAndRefund_def)
  have a: "attached (node_db s) (sd_trie ?s') = t'" using t'(3) by (simp add: attached_def)
  have "\<exists>s''. IntermediateRoot K d' ?s' = Some (h, s'')" for d'
    using IntermediateRoot_clean [of ?s' K d'] trie_Hash_determined [OF t'(2) s1(3)] t'(1) s1(2) a
    by (simp add: clearJournalAndRefund_def)
  then show ?thesis using s1 t' r a by (intro exI [of _ h] exI [of _ ?s'] exI [of _ m'] exI [of _ ?t]) simp
qed

text \<open>
  C39: computing the root between transactions writes exactly the changed accounts. For every account marked
  dirty whose object is loaded, the account trie afterwards holds nothing if the account killed itself or is
  to be deleted as empty, and otherwise its nonce, balance and code hash together with the root of a storage
  trie that holds the value of every storage entry of the account; all other accounts are as before, and the
  root returned is the hash of this trie; asking again gives the same root. The hash function has to keep the changed accounts apart, and the
  storage slots \<open>S\<close> that the statement speaks of, which include the changed ones.
\<close>

theorem root_commits_to_state:
  assumes "state_ok K m s" "distinct (map fst (j_dirties (sd_journal s)))"
    "\<forall>a so. a \<in> fst ` set (j_dirties (sd_journal s)) \<and> map_of (sd_stateObjects s) a = Some so \<longrightarrow> writable S so"
    "inj_on K (fst ` set (j_dirties (sd_journal s)))" "inj_on K S"
  shows "\<exists>root s' m' t. IntermediateRoot K d s = Some (root, s') \<and>
    trie_ok K t m' \<and> root = fst (trie_Hash K t) \<and> trie_ok K (attached (node_db s) (sd_trie s')) m' \<and>
    (\<forall>k. k \<notin> K ` fst ` set (j_dirties (sd_journal s)) \<longrightarrow> m' k = m k) \<and>
    (\<forall>a \<in> fst ` set (j_dirties (sd_journal s)). case map_of (sd_stateObjects s) a of
       None \<Rightarrow> m' (K a) = m (K a) | Some so \<Rightarrow> written K (node_db s) S d so (m' (K a))) \<and>
    (\<forall>d'. \<exists>s''. IntermediateRoot K d' s' = Some (root, s''))"
  using assms by (rule IntermediateRoot_ok)

section \<open>An example\<close>

abbreviation sample_addr :: address where
  "sample_addr \<equiv> replicate 20 1"

lemma sample_state_ok_any: "state_ok K Map.empty sample_state"
  by (auto simp: sample_state_eq state_ok_def load_object_def newJournal_def attached_def intro: nil_trie_ok)

lemma TryGet_nil: "t_root t = NilN \<Longrightarrow> TryGet t key = Inr (None, t)"
  by (simp add: TryGet_def key_fuel_def Let_def)

lemma sample_get: "getStateObject K sample_state a = (None, sample_state)"
  by (simp add: getStateObject_def sample_state_eq secure_TryGet_def TryGet_nil attached_def NewCachingDB_def)

lemma sample_state_fields: "sd_stateObjects sample_state = []" "sd_journal sample_state = newJournal"
  "node_db sample_state = NewDatabase (\<lambda>h. None)"
  by (simp_all add: sample_state_eq NewCachingDB_def)

text \<open>Paying an account of the empty state.\<close>

lemma AddBalance_sample:
  assumes "amount \<noteq> 0"
  shows "j_dirties (sd_journal (AddBalance K a amount sample_state)) = [(a, 2)]"
  "sd_stateObjects (AddBalance K a amount sample_state) =
     [(a, newObject K a ((emptyAccount K)\<lparr>ac_Balance := amount\<rparr>))]"
  "node_db (AddBalance K a amount sample_state) = NewDatabase (\<lambda>h. None)"
  using assms
  by (simp_all add: AddBalance_def on_object_def GetOrNewStateObject_def createObject_def sample_get
      so_AddBalance_def so_SetBalance_def so_setNonce_def so_setBalance_def newObject_def emptyAccount_def
      setStateObject_def sample_state_fields newJournal_def j_append_def j_dirty_def dirty_count_def Let_def)

lemma AddBalance_state_ok:
  assumes "state_ok K m s" "length (K []) = 32"
  shows "state_ok K m (AddBalance K a amount s)"
  unfolding AddBalance_def using changes_ok [OF on_object_changes [OF assms AddBalance_change]] .

lemma SetState_state_ok:
  assumes "state_ok K m s" "length (K []) = 32"
  shows "state_ok K m (SetState K a k v s)"
  unfolding SetState_def using changes_ok [OF on_object_changes [OF assms SetState_change]] .

definition paid_state :: stateDB where
  "paid_state = SetState pad_hash sample_addr (replicate 32 2) (replicate 32 3) (AddBalance pad_hash sample_addr 5 sample_state)"

lemma paid_state_ok: "state_ok pad_hash Map.empty paid_state"
  unfolding paid_state_def
  by (intro SetState_state_ok AddBalance_state_ok sample_state_ok_any) (simp_all add: pad_hash_def)

lemma paid_state_eq:
  "j_dirties (sd_journal paid_state) = [(sample_addr, 3)]"
  "\<exists>t. map_of (sd_stateObjects paid_state) sample_addr =
     Some ((newObject pad_hash sample_addr ((emptyAccount pad_hash)\<lparr>ac_Balance := 5\<rparr>))
       \<lparr>so_trie := Some t, so_cachedStorage := [(replicate 32 2, replicate 32 3)],
         so_dirtyStorage := [(replicate 32 2, replicate 32 3)]\<rparr>)"
  unfolding paid_state_def
  by (simp_all add: SetState_def so_SetState_def so_setState_def so_GetState_def getTrie_def OpenStorageTrie_def NewSecure_def
      trie_New_def secure_TryGet_def TryGet_nil on_object_def GetOrNewStateObject_def AddBalance_sample
      newObject_def emptyAccount_def getStateObject_def attached_def SetCacheLimit_def
      setStateObject_def j_append_def j_dirty_def dirty_count_def Let_def del: replicate.simps)

lemma pad_hash_inj: "inj_on pad_hash {k. length k = 32}"
  by (auto simp: inj_on_def pad_hash_def)

theorem root_commits_to_state_witness:
  "\<exists>root s' m' t ms. IntermediateRoot pad_hash True paid_state = Some (root, s') \<and>
     trie_ok pad_hash (attached (node_db paid_state) (sd_trie s')) m' \<and>
     m' (pad_hash sample_addr) = Some (account_bytes
       \<lparr>ac_Nonce = 0, ac_Balance = 5, ac_Root = fst (trie_Hash pad_hash t), ac_CodeHash = pad_hash []\<rparr>) \<and>
     trie_ok pad_hash t ms \<and> stored_value (ms (pad_hash (replicate 32 2))) = replicate 32 3"
proof -
  let ?S = "{k. length k = 32} :: hash set"
  obtain t where so: "map_of (sd_stateObjects paid_state) sample_addr =
     Some ((newObject pad_hash sample_addr ((emptyAccount pad_hash)\<lparr>ac_Balance := 5\<rparr>))
       \<lparr>so_trie := Some t, so_cachedStorage := [(replicate 32 2, replicate 32 3)],
         so_dirtyStorage := [(replicate 32 2, replicate 32 3)]\<rparr>)" (is "_ = Some ?so")
    using paid_state_eq(2) by blast
  have w: "\<forall>a so. a \<in> fst ` set (j_dirties (sd_journal paid_state)) \<and>
      map_of (sd_stateObjects paid_state) a = Some so \<longrightarrow> writable ?S so"
    using paid_state_eq(1) so by (auto simp: writable_def slots_wf_def newObject_def emptyAccount_def simp del: replicate.simps)
  obtain root s' m' where r: "IntermediateRoot pad_hash True paid_state = Some (root, s')"
      "trie_ok pad_hash (attached (node_db paid_state) (sd_trie s')) m'"
      "written pad_hash (node_db paid_state) ?S True ?so (m' (pad_hash sample_addr))"
    using root_commits_to_state [OF paid_state_ok _ w _ pad_hash_inj, of True] paid_state_eq(1) so by auto
  have "av_storage (so_view pad_hash (node_db paid_state) ?so) (replicate 32 2) = replicate 32 3"
    by (simp add: so_view_def so_GetState_def del: replicate.simps)
  then show ?thesis
    using r by (force simp: written_def so_empty_def newObject_def emptyAccount_def emptyCodeHash_def simp del: replicate.simps)
qed

end
