(* ===== verification/Block_Processing.thy ===== *)
theory Block_Processing
  imports Dpos_Consensus State_Root
begin

text \<open>
  Finishing a block (\<open>Finalize\<close> of \<open>consensus/dpos/dpos.go\<close>): the reward, the state root, the election at the
  start of an epoch, the count of minted blocks and the roots of the DPoS tables; and what transactions
  do to balances, gas and the DPoS tables (\<open>core/evm.go\<close>, \<open>core/gaspool.go\<close>, \<open>applyDposMessage\<close> of
  \<open>core/state_processor.go\<close>) and how a processed block is checked (\<open>core/block_validator.go\<close>).

  The election asks the state for balances; the accounts that these queries load into the cache of the
  state are not recorded.
\<close>

section \<open>Transfers, gas and DPoS messages\<close>

definition CanTransfer :: "keccak \<Rightarrow> stateDB \<Rightarrow> address \<Rightarrow> int \<Rightarrow> bool \<times> stateDB" where
  "CanTransfer K s a amount = (case GetBalance K s a of (b, s) \<Rightarrow> (b \<ge> amount, s))"

definition Transfer :: "keccak \<Rightarrow> address \<Rightarrow> address \<Rightarrow> int \<Rightarrow> stateDB \<Rightarrow> stateDB" where
  "Transfer K sender recipient amount s = AddBalance K recipient amount (SubBalance K sender amount s)"

text \<open>\<open>None\<close> is a panic: a pool above the range of \<open>uint64\<close>.\<close>

definition AddGas :: "uint64 \<Rightarrow> uint64 \<Rightarrow> uint64 option" where
  "AddGas gp amount = (if gp > (- 1) - amount then None else Some (gp + amount))"

text \<open>\<open>None\<close> is the error \<open>ErrGasLimitReached\<close>.\<close>

definition SubGas :: "uint64 \<Rightarrow> uint64 \<Rightarrow> uint64 option" where
  "SubGas gp amount = (if gp < amount then None else Some (gp - amount))"

text \<open>Gas taken from the pool can be given back.\<close>

lemma AddGas_SubGas: "SubGas gp amount = Some rest \<Longrightarrow> AddGas rest amount = Some gp"
proof -
  assume a: "SubGas gp amount = Some rest"
  then have "amount \<le> gp" "rest = gp - amount" by (auto simp: SubGas_def split: if_splits)
  then have "rest \<le> (- 1) - amount" 
    using word_order.extremum [of gp] by (simp add: word_le_nat_alt unat_sub diff_le_mono)
  then show ?thesis using a by (auto simp: AddGas_def SubGas_def split: if_splits)
qed

text \<open>
  The DPoS part of a transaction. What the operation on the tables returns is ignored; \<open>None\<close> is a panic
  (a vote without recipient), \<open>Inl\<close> an invalid type.
\<close>

definition applyDposMessage :: "keccak \<Rightarrow> dposContext \<Rightarrow> message \<Rightarrow> (txError + dposContext) option" where
  "applyDposMessage K d msg =
     (if ms_txType msg = RegCandidate then Some (Inr (fst (BecomeCandidate d (ms_from msg))))
      else if ms_txType msg = UnregCandidate then Some (Inr (fst (KickoutCandidate K d (ms_from msg))))
      else if ms_txType msg = DelegateTx then
        map_option (\<lambda>c. Inr (fst (Delegate d (ms_from msg) c))) (ms_to msg)
      else if ms_txType msg = UnDelegateTx then
        map_option (\<lambda>c. Inr (fst (UnDelegate d (ms_from msg) c))) (ms_to msg)
      else Some (Inl ErrInvalidType))"

section \<open>Finalizing a block\<close>

definition frontierBlockReward :: int where "frontierBlockReward = 5 * 10 ^ 18"

definition byzantiumBlockReward :: int where "byzantiumBlockReward = 3 * 10 ^ 18"

definition blockReward :: "chainConfig \<Rightarrow> header \<Rightarrow> int" where
  "blockReward config h =
     (if IsByzantium config (hd_Number h) then byzantiumBlockReward else frontierBlockReward)"

definition AccumulateRewards :: "keccak \<Rightarrow> chainConfig \<Rightarrow> header \<Rightarrow> stateDB \<Rightarrow> stateDB" where
  "AccumulateRewards K config h s = AddBalance K (hd_Coinbase h) (blockReward config h) s"

text \<open>The errors of the model that stand for a panic of the code or a loop that does not end.\<close>

definition dpos_panic :: "dposError \<Rightarrow> bool" where
  "dpos_panic e =
     (case e of
        DposPanic \<Rightarrow> True | IterPanic \<Rightarrow> True | IterDiverges \<Rightarrow> True
      | TrieErr t \<Rightarrow> \<not> is_missing t
      | _ \<Rightarrow> False)"

text \<open>The election and the count of minted blocks for a block at this time on top of the parent.\<close>

definition finalize_dpos ::
  "keccak \<Rightarrow> keccak \<Rightarrow> (int64 \<Rightarrow> 'g) \<Rightarrow> ('g \<Rightarrow> uint32 \<Rightarrow> uint32 \<times> 'g) \<Rightarrow> int64 \<Rightarrow> header \<Rightarrow> header \<Rightarrow>
   int64 \<Rightarrow> address \<Rightarrow> (address \<Rightarrow> int) \<Rightarrow> dposContext \<Rightarrow> dposContext \<times> dposError option" where
  "finalize_dpos K K512 newSource int31n first genesis parent time validator balance d =
     (case tryElect K K512 newSource int31n first genesis parent
             \<lparr>ec_TimeStamp = time, ec_DposContext = d, ec_balance = balance\<rparr> of
        (ec, Some e) \<Rightarrow> (ec_DposContext ec, Some (if dpos_panic e then e else ElectErr e))
      | (ec, None) \<Rightarrow>
          (case hd_Time parent of
             None \<Rightarrow> (ec_DposContext ec, Some DposPanic)
           | Some pt \<Rightarrow> updateMintCnt K (big_Int64 pt) time validator (ec_DposContext ec)))"

text \<open>
  The variable \<open>timeOfFirstBlock\<close> of the package is set when a chain with a first block is first seen.
\<close>

definition set_first :: "chainReader \<Rightarrow> int64 \<Rightarrow> int64 option" where
  "set_first cr first =
     (if first \<noteq> 0 then Some first
      else case cr_GetHeaderByNumber cr 1 of
             None \<Rightarrow> Some first
           | Some h \<Rightarrow> map_option big_Int64 (hd_Time h))"

text \<open>
  The block, the state, the DPoS context and \<open>timeOfFirstBlock\<close>; \<open>None\<close> is a panic, \<open>Inl\<close> the error returned.
\<close>

definition Finalize ::
  "keccak \<Rightarrow> keccak \<Rightarrow> (int64 \<Rightarrow> 'g) \<Rightarrow> ('g \<Rightarrow> uint32 \<Rightarrow> uint32 \<times> 'g) \<Rightarrow> chainReader \<Rightarrow> int64 \<Rightarrow> header \<Rightarrow> stateDB \<Rightarrow>
   transaction list \<Rightarrow> header list \<Rightarrow> receipt list \<Rightarrow> dposContext \<Rightarrow>
   ((dposError + block) \<times> stateDB \<times> dposContext \<times> int64) option" where
  "Finalize K K512 newSource int31n cr first h s txs uncles receipts d =
     (case IntermediateRoot K (IsEIP158 (cr_Config cr) (hd_Number h)) (AccumulateRewards K (cr_Config cr) h s) of
        None \<Rightarrow> None
      | Some (root, s) \<Rightarrow>
          (let h = h\<lparr>hd_Root := root\<rparr> in
           case (cr_GetHeaderByHash cr (hd_ParentHash h), cr_GetHeaderByNumber cr 0, hd_Time h, set_first cr first) of
             (Some parent, Some genesis, Some t, Some first) \<Rightarrow>
               (case finalize_dpos K K512 newSource int31n first genesis parent (big_Int64 t) (hd_Validator h)
                       (\<lambda>a. fst (GetBalance K s a)) d of
                  (d, Some e) \<Rightarrow>
                    (case e of ElectErr _ \<Rightarrow> Some (Inl e, s, d, first) | _ \<Rightarrow> None)
                | (d, None) \<Rightarrow>
                    (case dc_ToProto K d of
                       (proto, d) \<Rightarrow>
                         map_option (\<lambda>b. (Inr b, s, d, first))
                           (NewBlock K (h\<lparr>hd_DposContext := Some proto\<rparr>) txs uncles receipts)))
           | _ \<Rightarrow> None))"

section \<open>Checking a processed block\<close>

definition ValidateDposState :: "keccak \<Rightarrow> block \<Rightarrow> dposContext \<Rightarrow> bool option \<times> dposContext" where
  "ValidateDposState K b d =
     (case dc_Root K d of
        (localRoot, d) \<Rightarrow>
          (case hd_DposContext (block_Header b) of
             None \<Rightarrow> (None, d)
           | Some p \<Rightarrow> (Some (proto_Root K p = localRoot), d)))"

datatype validateErr = InvalidGasUsed | InvalidBloom | InvalidReceiptRoot | InvalidMerkleRoot

text \<open>\<open>None\<close> is a panic of the bloom filter, of the list root or of the state root.\<close>

definition ValidateState ::
  "keccak \<Rightarrow> chainConfig \<Rightarrow> block \<Rightarrow> stateDB \<Rightarrow> receipt list \<Rightarrow> uint64 \<Rightarrow> (validateErr option \<times> stateDB) option" where
  "ValidateState K config b s receipts usedGas =
     (let h = block_Header b in
      if hd_GasUsed (bk_header b) \<noteq> usedGas then Some (Some InvalidGasUsed, s)
      else case CreateBloom K receipts of
             None \<Rightarrow> None
           | Some rbloom \<Rightarrow>
               if rbloom \<noteq> hd_Bloom h then Some (Some InvalidBloom, s)
               else case receipts_root K receipts of
                      None \<Rightarrow> None
                    | Some receiptSha \<Rightarrow>
                        if receiptSha \<noteq> hd_ReceiptHash h then Some (Some InvalidReceiptRoot, s)
                        else case IntermediateRoot K (IsEIP158 config (hd_Number h)) s of
                               None \<Rightarrow> None
                             | Some (root, s) \<Rightarrow>
                                 Some (if hd_Root h \<noteq> root then Some InvalidMerkleRoot else None, s))"

section \<open>The blocks of an epoch\<close>

text \<open>
  The tables of a context: the votes, the validators elected for the epoch (table \<open>E\<close>) and the counts of
  minted blocks (table \<open>M\<close>).
\<close>

definition tables :: "keccak \<Rightarrow> dposContext \<Rightarrow> voteBook \<Rightarrow> (bytes \<rightharpoonup> bytes) \<Rightarrow> (bytes \<rightharpoonup> bytes) \<Rightarrow> bool" where
  "tables K d b E M \<longleftrightarrow> dpos_rep K d b \<and> ptrie K epochPrefix (dc_epoch d) E \<and>
     ptrie K mintCntPrefix (dc_mintCnt d) M \<and> (\<forall>k c. M k = Some c \<longrightarrow> length c = 8)"

text \<open>The number of blocks the table of counts has for a validator in an epoch.\<close>

definition minted :: "int64 \<Rightarrow> address \<Rightarrow> (bytes \<rightharpoonup> bytes) \<Rightarrow> uint64" where
  "minted epoch v M = (case M (putUint64 epoch @ v) of None \<Rightarrow> 0 | Some c \<Rightarrow> the (getUint64 c))"

text \<open>The DPoS part of finalizing blocks one after the other.\<close>

fun finalize_blocks ::
  "keccak \<Rightarrow> keccak \<Rightarrow> (int64 \<Rightarrow> 'g) \<Rightarrow> ('g \<Rightarrow> uint32 \<Rightarrow> uint32 \<times> 'g) \<Rightarrow> int64 \<Rightarrow> (header \<Rightarrow> address \<Rightarrow> int) \<Rightarrow> header \<Rightarrow>
   header \<Rightarrow> header list \<Rightarrow> dposContext \<Rightarrow> dposError + dposContext" where
  "finalize_blocks K K512 newSource int31n first bal genesis parent [] d = Inr d"
| "finalize_blocks K K512 newSource int31n first bal genesis parent (h # hs) d =
     (case hd_Time h of
        None \<Rightarrow> Inl DposPanic
      | Some t \<Rightarrow>
          (case finalize_dpos K K512 newSource int31n first genesis parent (big_Int64 t) (hd_Validator h) (bal h) d of
             (d, Some e) \<Rightarrow> Inl e
           | (d, None) \<Rightarrow>
               finalize_blocks K K512 newSource int31n first bal genesis h hs (snd (dc_ToProto K d))))"

definition in_epoch :: "int64 \<Rightarrow> header \<Rightarrow> bool" where
  "in_epoch epoch h \<longleftrightarrow> (\<exists>t. hd_Time h = Some t \<and> epoch_of (big_Int64 t) = epoch)"

lemma tables_hashed: "tables K d b E M \<Longrightarrow> tables K (snd (dc_ToProto K d)) b E M"
  by (simp add: tables_def dpos_rep_def dc_ToProto_def dc_hashed_def ptrie_Hash)

lemma finalize_dpos_same_epoch:
  assumes "tables K d b E M" "empty_free K" "in_epoch epoch parent" "hd_Time genesis = Some gt"
    "epoch_of time = epoch"
  shows "\<exists>d'. finalize_dpos K K512 newSource int31n first genesis parent time v balance d = (d', None) \<and>
    tables K d' b E (M(putUint64 epoch @ v \<mapsto> putUint64 (minted epoch v M + 1)))"
proof -
  let ?d = "d\<lparr>dc_mintCnt := snd (trie_Hash K (dc_mintCnt d))\<rparr>"
  obtain pt where pt: "hd_Time parent = Some pt" "epoch_of (big_Int64 pt) = epoch"
    using assms(3) by (auto simp: in_epoch_def)
  have e: "tryElect K K512 newSource int31n first genesis parent
      \<lparr>ec_TimeStamp = time, ec_DposContext = d, ec_balance = balance\<rparr> =
      (\<lparr>ec_TimeStamp = time, ec_DposContext = ?d, ec_balance = balance\<rparr>, None)"
    using tryElect_same_epoch [OF assms(4) pt(1), of "\<lparr>ec_TimeStamp = time, ec_DposContext = d, ec_balance = balance\<rparr>"]
      pt(2) assms(5) by simp
  have m: "ptrie K mintCntPrefix (dc_mintCnt ?d) M" "\<forall>k c. M k = Some c \<longrightarrow> length c = 8"
    using assms(1) ptrie_Hash by (auto simp: tables_def)
  have k: "mint_key time v = putUint64 epoch @ v" using assms(5) by (simp add: mint_key_def)
  obtain t where t: "updateMintCnt K (big_Int64 pt) time v ?d = (?d\<lparr>dc_mintCnt := t\<rparr>, None)"
      "ptrie K mintCntPrefix t (M(putUint64 epoch @ v \<mapsto> putUint64 (minted epoch v M + 1)))"
    using updateMintCnt_rep [OF m(1) assms(2) m(2), of "big_Int64 pt" time v] pt(2) assms(5)
    by (auto simp: k minted_def)
  have "tables K (?d\<lparr>dc_mintCnt := t\<rparr>) b E (M(putUint64 epoch @ v \<mapsto> putUint64 (minted epoch v M + 1)))"
    using assms(1) t(2) by (auto simp: tables_def dpos_rep_def length_putUint64)
  then show ?thesis using e t(1) pt(1) by (auto simp: finalize_dpos_def)
qed

lemma minted_update:
  "minted epoch v (M(putUint64 epoch @ w \<mapsto> putUint64 c)) = (if v = w then c else minted epoch v M)"
  using getUint64_putUint64 [of c "[]"] by (simp add: minted_def)

text \<open>
  C34: Within an epoch the elected validators, the candidates and the votes do not change, no block fails, and
  the table of counts records exactly who minted: finalizing any number of blocks of one epoch raises the
  count of every validator in this epoch by the number of these blocks that it minted (as 64-bit numbers) and
  changes no entry but those of the validators of these blocks.
\<close>

theorem epoch_blocks_counted:
  assumes "tables K d b E M" "empty_free K" "hd_Time genesis = Some gt"
    "\<forall>h \<in> set (parent # hs). in_epoch epoch h"
  shows "\<exists>d' M'. finalize_blocks K K512 newSource int31n first bal genesis parent hs d = Inr d' \<and>
    tables K d' b E M' \<and>
    (\<forall>v. minted epoch v M' = minted epoch v M + of_nat (length (filter (\<lambda>h. hd_Validator h = v) hs))) \<and>
    (\<forall>k. k \<notin> (\<lambda>h. putUint64 epoch @ hd_Validator h) ` set hs \<longrightarrow> M' k = M k)"
  using assms(1,4)
proof (induction hs arbitrary: parent d M)
  case Nil
  then show ?case by auto
next
  case (Cons h hs)
  let ?v = "hd_Validator h"
  let ?M = "M(putUint64 epoch @ ?v \<mapsto> putUint64 (minted epoch ?v M + 1))"
  obtain t where t: "hd_Time h = Some t" "epoch_of (big_Int64 t) = epoch" using Cons.prems(2) by (auto simp: in_epoch_def)
  have "in_epoch epoch parent" using Cons.prems(2) by simp
  from finalize_dpos_same_epoch [OF Cons.prems(1) assms(2) this assms(3) t(2)]
  obtain d1 where d1: "finalize_dpos K K512 newSource int31n first genesis parent (big_Int64 t) ?v (bal h) d = (d1, None)"
      "tables K d1 b E ?M"
    by blast
  obtain d' M' where d': "finalize_blocks K K512 newSource int31n first bal genesis h hs (snd (dc_ToProto K d1)) = Inr d'"
      "tables K d' b E M'"
      "\<forall>v. minted epoch v M' = minted epoch v ?M + of_nat (length (filter (\<lambda>h. hd_Validator h = v) hs))"
      "\<forall>k. k \<notin> (\<lambda>h. putUint64 epoch @ hd_Validator h) ` set hs \<longrightarrow> M' k = ?M k"
  proof -
    have "\<forall>x \<in> set (h # hs). in_epoch epoch x" using Cons.prems(2) by simp
    from Cons.IH [OF tables_hashed [OF d1(2)] this] show ?thesis using that by blast
  qed
  show ?case
    using d' d1(1) t(1) by (intro exI [of _ d'] exI [of _ M']) (auto simp: minted_update)
qed

section \<open>The reward\<close>

lemma GetOrNew_balance:
  assumes "state_ok K m s" "length (K []) = 32"
  shows "ac_Balance (so_data (fst (GetOrNewStateObject K s a))) = fst (GetBalance K s a)"
proof -
  obtain s1 where g: "getStateObject K s a = (fst (getStateObject K s a), s1)" "state_ok K m s1"
      "case fst (getStateObject K s a) of
       None \<Rightarrow> True | Some so \<Rightarrow> \<not> so_deleted so"
    using getStateObject_ok [OF assms(1), of a] by (auto split: option.splits)
  show ?thesis
  proof (cases "fst (getStateObject K s a)")
    case None
    obtain s2 where "createObject K s1 a = (newObject K a (emptyAccount K), fst (getStateObject K s1 a), s2)"
      using createObject_ok [OF g(2) assms(2), of a] by blast
    then have "fst (GetOrNewStateObject K s a) = newObject K a (emptyAccount K)"
      unfolding GetOrNewStateObject_def by (subst g(1)) (simp add: None)
    moreover have "fst (GetBalance K s a) = 0"
      unfolding GetBalance_def by (subst g(1)) (simp add: None)
    ultimately show ?thesis by (simp add: newObject_def emptyAccount_def)
  next
    case (Some so)
    then have "fst (GetOrNewStateObject K s a) = so"
      unfolding GetOrNewStateObject_def using g(3) by (subst g(1)) simp
    moreover have "fst (GetBalance K s a) = ac_Balance (so_data so)"
      unfolding GetBalance_def by (subst g(1)) (simp add: Some)
    ultimately show ?thesis by simp
  qed
qed

text \<open>Adding to a balance leaves the account loaded, marked dirty and richer by the amount.\<close>

lemma AddBalance_object:
  assumes "state_ok K m s" "length (K []) = 32" "amount \<noteq> 0"
  shows "\<exists>so. map_of (sd_stateObjects (AddBalance K a amount s)) a = Some so \<and>
    ac_Balance (so_data so) = fst (GetBalance K s a) + amount \<and>
    a \<in> fst ` set (j_dirties (sd_journal (AddBalance K a amount s)))"
proof -
  obtain so s1 where g: "GetOrNewStateObject K s a = (so, s1)" "so_address so = a"
    using GetOrNewStateObject_ok [OF assms(1,2), of a] by blast
  have b: "ac_Balance (so_data so) = fst (GetBalance K s a)" using GetOrNew_balance [OF assms(1,2), of a] g(1) by simp
  have "a \<in> fst ` set (j_dirties (j_append (balanceChange a x) j))" for x j
    by (simp add: j_append_def j_dirty_def Let_def update_conv' domIff flip: dom_map_of_conv_image_fst)
  then show ?thesis
    using g b assms(3)
    by (simp add: AddBalance_def on_object_def so_AddBalance_def so_SetBalance_def so_setBalance_def)
qed

lemma AccumulateRewards_ok:
  assumes "state_ok K m s" "length (K []) = 32"
  shows "state_ok K m (AccumulateRewards K config h s)"
    "\<exists>so. map_of (sd_stateObjects (AccumulateRewards K config h s)) (hd_Coinbase h) = Some so \<and>
       ac_Balance (so_data so) = fst (GetBalance K s (hd_Coinbase h)) + blockReward config h \<and>
       hd_Coinbase h \<in> fst ` set (j_dirties (sd_journal (AccumulateRewards K config h s)))"
proof -
  have "blockReward config h \<noteq> 0"
    by (simp add: blockReward_def byzantiumBlockReward_def frontierBlockReward_def)
  then show "\<exists>so. map_of (sd_stateObjects (AccumulateRewards K config h s)) (hd_Coinbase h) = Some so \<and>
       ac_Balance (so_data so) = fst (GetBalance K s (hd_Coinbase h)) + blockReward config h \<and>
       hd_Coinbase h \<in> fst ` set (j_dirties (sd_journal (AccumulateRewards K config h s)))"
    using AddBalance_object [OF assms] unfolding AccumulateRewards_def by blast
  show "state_ok K m (AccumulateRewards K config h s)"
    unfolding AccumulateRewards_def by (rule AddBalance_state_ok [OF assms])
qed

lemma ToProto_hashed:
  assumes "tables K d b E M"
  shows "fst (dc_ToProto K (snd (dc_ToProto K d))) = fst (dc_ToProto K d)"
proof -
  have *: "fst (trie_Hash K (snd (trie_Hash K t))) = fst (trie_Hash K t)" if "ptrie K pfx t m" for pfx t m
    using that ptrie_Hash [OF that] trie_Hash_determined unfolding ptrie_def by blast
  show ?thesis
    using assms by (auto simp: tables_def dpos_rep_def dc_ToProto_def dc_hashed_def *)
qed

text \<open>
  C40: A finalized block commits to its effects. When a block is finalized in the epoch of its parent, the header
  of the block gets the root of an account trie in which the account of the coinbase has the balance it had before plus
  the block reward (nothing is stored if the account is to be deleted) and in which only the accounts
  touched in this block have changed, and the roots of DPoS tables in
  which only the count of the validator of the block has changed, by one. The block is then assembled by
  \<open>NewBlock\<close> from this header. The root of the state computed again, as \<open>ValidateState\<close> does, is the same.
\<close>

theorem finalize_commits_to_effects:
  assumes "s1 = AccumulateRewards K (cr_Config cr) h s" "eip158 = IsEIP158 (cr_Config cr) (hd_Number h)"
    "state_ok K m s" "length (K []) = 32" "distinct (map fst (j_dirties (sd_journal s1)))"
    "\<forall>a so. a \<in> fst ` set (j_dirties (sd_journal s1)) \<and> map_of (sd_stateObjects s1) a = Some so \<longrightarrow> writable S so"
    "inj_on K (fst ` set (j_dirties (sd_journal s1)))" "inj_on K S"
    "tables K d b E M" "empty_free K"
    "cr_GetHeaderByHash cr (hd_ParentHash h) = Some parent" "cr_GetHeaderByNumber cr 0 = Some genesis"
    "hd_Time genesis = Some gt" "set_first cr first = Some f" "in_epoch epoch parent" "in_epoch epoch h"
  shows "\<exists>root proto s' d' t m' so.
    Finalize K K512 newSource int31n cr first h s txs uncles receipts d =
      map_option (\<lambda>blk. (Inr blk, s', d', f))
        (NewBlock K (h\<lparr>hd_Root := root, hd_DposContext := Some proto\<rparr>) txs uncles receipts) \<and>
    root = fst (trie_Hash K t) \<and> trie_ok K t m' \<and> (\<exists>s''. IntermediateRoot K eip158 s' = Some (root, s'')) \<and>
    map_of (sd_stateObjects s1) (hd_Coinbase h) = Some so \<and>
    ac_Balance (so_data so) = fst (GetBalance K s (hd_Coinbase h)) + blockReward (cr_Config cr) h \<and>
    (\<forall>k. k \<notin> K ` fst ` set (j_dirties (sd_journal s1)) \<longrightarrow> m' k = m k) \<and>
    written K (node_db s1) S eip158 so (m' (K (hd_Coinbase h))) \<and>
    proto = fst (dc_ToProto K d') \<and>
    tables K d' b E (M(putUint64 epoch @ hd_Validator h \<mapsto> putUint64 (minted epoch (hd_Validator h) M + 1)))"
proof -
  obtain ti where ti: "hd_Time h = Some ti" "epoch_of (big_Int64 ti) = epoch" using assms by (auto simp: in_epoch_def)
  have ok: "state_ok K m s1" using AccumulateRewards_ok(1) [OF assms(3,4)] by (simp add: assms(1))
  obtain so where so: "map_of (sd_stateObjects s1) (hd_Coinbase h) = Some so"
      "ac_Balance (so_data so) = fst (GetBalance K s (hd_Coinbase h)) + blockReward (cr_Config cr) h"
      "hd_Coinbase h \<in> fst ` set (j_dirties (sd_journal s1))"
    using AccumulateRewards_ok(2) [OF assms(3,4)] unfolding assms(1) by blast
  obtain root s' m' t where r: "IntermediateRoot K eip158 s1 = Some (root, s')" "trie_ok K t m'"
      "root = fst (trie_Hash K t)" "\<forall>k. k \<notin> K ` fst ` set (j_dirties (sd_journal s1)) \<longrightarrow> m' k = m k"
      "\<forall>a \<in> fst ` set (j_dirties (sd_journal s1)). case map_of (sd_stateObjects s1) a of
         None \<Rightarrow> m' (K a) = m (K a) | Some so \<Rightarrow> written K (node_db s1) S eip158 so (m' (K a))"
      "\<forall>d'. \<exists>s''. IntermediateRoot K d' s' = Some (root, s'')"
    using IntermediateRoot_ok [OF ok assms(5-8), of eip158] by (elim exE conjE) (rule that)
  from r(6) have r6: "\<exists>s''. IntermediateRoot K eip158 s' = Some (root, s'')" by (rule spec)
  have w: "written K (node_db s1) S eip158 so (m' (K (hd_Coinbase h)))" using bspec [OF r(5) so(3)] so(1) by simp
  obtain d1 where d1: "finalize_dpos K K512 newSource int31n f genesis parent (big_Int64 ti) (hd_Validator h)
        (\<lambda>a. fst (GetBalance K s' a)) d = (d1, None)"
      "tables K d1 b E (M(putUint64 epoch @ hd_Validator h \<mapsto> putUint64 (minted epoch (hd_Validator h) M + 1)))"
    using finalize_dpos_same_epoch [OF assms(9,10,15,13) ti(2)] by blast
  let ?d' = "snd (dc_ToProto K d1)" and ?p = "fst (dc_ToProto K d1)"
  have "Finalize K K512 newSource int31n cr first h s txs uncles receipts d =
      map_option (\<lambda>blk. (Inr blk, s', ?d', f)) (NewBlock K (h\<lparr>hd_Root := root, hd_DposContext := Some ?p\<rparr>) txs uncles receipts)"
    using r(1) d1(1) ti(1) assms(11,12,14)
    by (simp add: Finalize_def assms(1,2) [symmetric] split_beta)
  then show ?thesis
    using r(2-4) r6 so(1,2) w tables_hashed [OF d1(2)] ToProto_hashed [OF d1(2)]
    by (intro exI [of _ root] exI [of _ ?p] exI [of _ s'] exI [of _ ?d'] exI [of _ t] exI [of _ m'] exI [of _ so]) (simp only: simp_thms)
qed

section \<open>Examples\<close>

lemma sample_tables: "tables K sample_ctx empty_book Map.empty Map.empty"
  using nil_trie_ok sample_ctx_rep [of K] by (auto simp: tables_def ptrie_def sample_ctx_def Let_def)

definition at_time :: "nat \<Rightarrow> address \<Rightarrow> header" where
  "at_time t v = sample_header\<lparr>hd_Time := Some (int t), hd_Validator := v, hd_Coinbase := v\<rparr>"

lemma at_time_fields: "hd_Validator (at_time t v) = v" "hd_Coinbase (at_time t v) = v" "hd_Time (at_time t v) = Some (int t)"
  by (simp_all add: at_time_def)

lemma at_time_epoch:
  "in_epoch 0 (at_time 0 v)" "in_epoch 0 (at_time 10 v)" "in_epoch 0 (at_time 20 v)" "in_epoch 0 (at_time 30 v)"
  by (simp_all add: in_epoch_def at_time_def big_Int64_def quot64_def epochInterval_def signed_divide_int_def)

text \<open>Three blocks of an epoch, two of them by the same validator.\<close>

theorem epoch_blocks_counted_witness:
  "\<exists>d' M'. finalize_blocks ne_hash ne_hash (\<lambda>x. ()) (\<lambda>g n. (0, g)) 10 (\<lambda>h a. 0) (at_time 0 (addr 9)) (at_time 0 (addr 9))
      [at_time 10 (addr 1), at_time 20 (addr 2), at_time 30 (addr 1)] sample_ctx = Inr d' \<and>
    tables ne_hash d' empty_book Map.empty M' \<and> minted 0 (addr 1) M' = 2 \<and> minted 0 (addr 2) M' = 1 \<and>
    M' (putUint64 0 @ addr 3) = None"
proof -
  let ?hs = "[at_time 10 (addr 1), at_time 20 (addr 2), at_time 30 (addr 1)]"
  have "hd_Time (at_time 0 (addr 9)) = Some 0" by (simp add: at_time_def)
  moreover have "\<forall>h \<in> set (at_time 0 (addr 9) # ?hs). in_epoch 0 h" by (simp add: at_time_epoch)
  ultimately obtain d' M' where r: "finalize_blocks ne_hash ne_hash (\<lambda>x. ()) (\<lambda>g n. (0, g)) 10 (\<lambda>h a. 0)
        (at_time 0 (addr 9)) (at_time 0 (addr 9)) ?hs sample_ctx = Inr d'"
      "tables ne_hash d' empty_book Map.empty M'"
      "\<forall>v. minted 0 v M' = minted 0 v Map.empty + of_nat (length (filter (\<lambda>h. hd_Validator h = v) ?hs))"
      "\<forall>k. k \<notin> (\<lambda>h. putUint64 0 @ hd_Validator h) ` set ?hs \<longrightarrow> M' k = None"
    using epoch_blocks_counted [OF sample_tables ne_hash_empty_free, of _ 0] by blast
  have "minted 0 v Map.empty = 0" for v by (simp add: minted_def)
  then have "minted 0 (addr 1) M' = 2" "minted 0 (addr 2) M' = 1"
    using r(3) addr_neq(1) by (simp_all add: at_time_fields del: replicate.simps)
  moreover have "M' (putUint64 0 @ addr 3) = None" using r(4) addr_neq by (auto simp: at_time_fields simp del: replicate.simps)
  ultimately show ?thesis using r(1,2) by blast
qed

definition epoch_chain :: chainReader where
  "epoch_chain = sample_chain\<lparr>cr_GetHeaderByNumber := (\<lambda>n. if n = 0 then Some (at_time 0 (addr 9)) else None),
     cr_GetHeaderByHash := (\<lambda>h. Some (at_time 0 (addr 9)))\<rparr>"

lemma NewBlock_empty: "\<exists>blk. NewBlock K x [] [] [] = Some blk \<and> hd_Root (bk_header blk) = hd_Root x"
  by (simp add: NewBlock_def txs_root_def DeriveSha_def CopyHeader_def Let_def)

lemma epoch_chain_reward:
  assumes "s1 = AccumulateRewards ne_hash (cr_Config epoch_chain) (at_time t v) sample_state"
  shows "j_dirties (sd_journal s1) = [(v, 2)]"
    "sd_stateObjects s1 = [(v, newObject ne_hash v ((emptyAccount ne_hash)\<lparr>ac_Balance := 3 * 10 ^ 18\<rparr>))]"
proof -
  have "blockReward (cr_Config epoch_chain) (at_time t v) = 3 * 10 ^ 18"
    by (simp add: blockReward_def epoch_chain_def sample_chain_def DposChainConfig_def IsByzantium_def isForked_def at_time_def
        sample_header_def byzantiumBlockReward_def)
  then show "j_dirties (sd_journal s1) = [(v, 2)]"
      "sd_stateObjects s1 = [(v, newObject ne_hash v ((emptyAccount ne_hash)\<lparr>ac_Balance := 3 * 10 ^ 18\<rparr>))]"
    by (simp_all add: assms AccumulateRewards_def at_time_fields AddBalance_sample)
qed

text \<open>The first block of a chain, minted by account 1 on the empty state.\<close>

theorem finalize_commits_to_effects_witness:
  "\<exists>blk s' d' t m' r. Finalize ne_hash ne_hash (\<lambda>x. ()) (\<lambda>g n. (0, g)) epoch_chain 0 (at_time 10 (addr 1)) sample_state [] [] []
      sample_ctx = Some (Inr blk, s', d', 0) \<and>
    hd_Root (bk_header blk) = fst (trie_Hash ne_hash t) \<and> trie_ok ne_hash t m' \<and>
    m' (ne_hash (addr 1)) = Some (account_bytes
       \<lparr>ac_Nonce = 0, ac_Balance = 3 * 10 ^ 18, ac_Root = r, ac_CodeHash = ne_hash []\<rparr>) \<and>
    tables ne_hash d' empty_book Map.empty [putUint64 0 @ addr 1 \<mapsto> putUint64 1]"
proof -
  let ?h = "at_time 10 (addr 1)"
  let ?s1 = "AccumulateRewards ne_hash (cr_Config epoch_chain) ?h sample_state"
  note c = at_time_fields and s1 = epoch_chain_reward [OF refl, of 10 "addr 1"]
  have w: "\<forall>a so. a \<in> fst ` set (j_dirties (sd_journal ?s1)) \<and> map_of (sd_stateObjects ?s1) a = Some so \<longrightarrow> writable {} so"
    by (auto simp: s1 writable_def slots_wf_def newObject_def emptyAccount_def simp del: replicate.simps split: if_splits)
  have ch: "cr_GetHeaderByHash epoch_chain (hd_ParentHash ?h) = Some (at_time 0 (addr 9))"
      "cr_GetHeaderByNumber epoch_chain 0 = Some (at_time 0 (addr 9))" "hd_Time (at_time 0 (addr 9)) = Some 0"
      "set_first epoch_chain 0 = Some 0"
    by (simp_all add: epoch_chain_def set_first_def at_time_def)
  have d: "distinct (map fst (j_dirties (sd_journal ?s1)))" "inj_on ne_hash (fst ` set (j_dirties (sd_journal ?s1)))"
      "inj_on ne_hash {}" "length (ne_hash []) = 32"
    by (simp_all add: s1 ne_hash_def del: replicate.simps)
  from finalize_commits_to_effects [OF refl refl sample_state_ok_any d(4,1) w d(2,3) sample_tables ne_hash_empty_free
      ch at_time_epoch(1,2), of ne_hash "\<lambda>x. ()" "\<lambda>g n. (0, g)" "[]" "[]" "[]"]
  obtain root proto s' d' t m' so where f: "Finalize ne_hash ne_hash (\<lambda>x. ()) (\<lambda>g n. (0, g)) epoch_chain 0 ?h sample_state [] [] []
        sample_ctx = map_option (\<lambda>blk. (Inr blk, s', d', 0))
          (NewBlock ne_hash (?h\<lparr>hd_Root := root, hd_DposContext := Some proto\<rparr>) [] [] [])"
      "root = fst (trie_Hash ne_hash t)" "trie_ok ne_hash t m'"
      "map_of (sd_stateObjects ?s1) (hd_Coinbase ?h) = Some so"
      "written ne_hash (node_db ?s1) {} (IsEIP158 (cr_Config epoch_chain) (hd_Number ?h)) so (m' (ne_hash (hd_Coinbase ?h)))"
      "tables ne_hash d' empty_book Map.empty
         [putUint64 0 @ hd_Validator ?h \<mapsto> putUint64 (minted 0 (hd_Validator ?h) Map.empty + 1)]"
    by blast
  have "so = newObject ne_hash (addr 1) ((emptyAccount ne_hash)\<lparr>ac_Balance := 3 * 10 ^ 18\<rparr>)"
    using f(4) s1(2) by (simp add: c del: replicate.simps)
  then obtain r where "m' (ne_hash (addr 1)) = Some (account_bytes
       \<lparr>ac_Nonce = 0, ac_Balance = 3 * 10 ^ 18, ac_Root = r, ac_CodeHash = ne_hash []\<rparr>)"
    using f(5) unfolding c
    by (auto simp: written_def so_empty_def newObject_def emptyAccount_def emptyCodeHash_def simp del: replicate.simps)
  moreover have "tables ne_hash d' empty_book Map.empty [putUint64 0 @ addr 1 \<mapsto> putUint64 1]"
    using f(6) unfolding c by (simp add: minted_def del: replicate.simps)
  moreover obtain blk where "NewBlock ne_hash (?h\<lparr>hd_Root := root, hd_DposContext := Some proto\<rparr>) [] [] [] = Some blk"
      "hd_Root (bk_header blk) = root"
    using NewBlock_empty [of ne_hash "?h\<lparr>hd_Root := root, hd_DposContext := Some proto\<rparr>"] by auto
  ultimately show ?thesis using f(2,3)
    by (intro exI [of _ blk] exI [of _ s'] exI [of _ d'] exI [of _ t] exI [of _ m'] exI [of _ r]) (simp only: f(1) option.map)
qed

end
