(* ===== verification/Spec2Isabelle.thy ===== *)
theory Spec2Isabelle
  imports Trie_Persistence Block_Processing
begin

text \<open>
  A verification of the core of an Ethereum node with delegated proof of stake: the serialisation
  format, the Merkle-Patricia tries and their node database, transactions and blocks, the state
  database, the DPoS tables and elections, and the consensus engine.

  \<^bold>\<open>How the program works.\<close> Every persistent table is a Merkle-Patricia trie (\<open>trie/\<close>) whose nodes are
  serialised by RLP (\<open>rlp/\<close>), hashed with Keccak, and kept by a node database that caches them with
  reference counts and writes them to disk (\<open>trie/database.go\<close>, \<open>ethdb/\<close>). Accounts are a trie of
  their own, behind a layer of objects and a journal (\<open>core/state/\<close>). A DPoS chain has five more tries
  in every block: elected validators, votes by candidate, votes by delegator, candidates, and counts of
  minted blocks (\<open>core/types/dpos_context.go\<close>). Once per epoch the engine counts the votes and elects the
  validators of the next one (\<open>consensus/dpos/epoch_context.go\<close>, \<open>api.go\<close>); within an epoch they mint in
  slots, one after the other, and a block is confirmed when enough of them have built on it
  (\<open>consensus/dpos/dpos.go\<close>). Transactions and blocks (\<open>core/types/\<close>) carry the roots of these tries.

  \<^bold>\<open>Theories and source files.\<close> The definitions keep the names of the code; a prefix such as \<open>so_\<close> or
  \<open>secure_\<close> tells methods with the same name apart.

    \<^item> \<open>Prelude\<close>: byte strings, hashes, addresses, 64-bit division and byte orders, shared lemmas.
    \<^item> \<open>Hex_Encoding\<close> (\<open>trie/encoding.go\<close>), \<open>Trie\<close> (\<open>trie/trie.go\<close>, \<open>trie/node.go\<close>): keys, lookup,
      insertion and deletion. \<open>Patricia\<close> is the abstract tree, \<open>Trie_Refinement\<close> the simulation: every
      sequence of operations acts on the contents as on a map. \<open>Interfaces\<close> states what clients of a trie
      rely on as the locale \<open>kv_store\<close>, which is interpreted for tries, for tries with right hashes and for
      the DPoS tables.
    \<^item> \<open>Rlp\<close> (\<open>rlp/encode.go\<close>, \<open>rlp/raw.go\<close>), \<open>Rlp_Stream\<close> (\<open>rlp/decode.go\<close>): the two-pass encoder and
      the type-directed decoder. \<open>Rlp_Roundtrip\<close>: the encoder computes the recursive encoding, decoding
      returns every encodable value, \<open>Split\<close> accepts exactly the canonical items, and one decoder that
      never ends.
    \<^item> \<open>Hasher\<close> (\<open>trie/hasher.go\<close>, node codec), \<open>Merkle\<close>: the root hash depends on the contents only, and
      equal root hashes mean equal contents unless the hash function collides on the nodes of the two tries.
    \<^item> \<open>Trie_Iterator\<close> (\<open>trie/iterator.go\<close>, the prefix iterator of \<open>trie/trie.go\<close>), \<open>Trie_Iteration\<close>:
      iteration ends and yields the entries from a key on, or under a prefix, once each and in order.
    \<^item> \<open>Ethdb\<close> (\<open>ethdb/memory_database.go\<close>), \<open>Trie_Database\<close> (\<open>trie/database.go\<close>), \<open>Trie_Persistence\<close>:
      the flush list stays intact, no operation panics under the stated use, flushing and committing change
      no read and put whole tries on disk.
    \<^item> \<open>Transactions\<close> (\<open>core/types/transaction.go\<close>, \<open>transaction_signing.go\<close>): round trips, signing and
      recovery of the sender, and what the signature does not cover. \<open>Block_Types\<close> (\<open>core/types/block.go\<close>,
      \<open>receipt.go\<close>, \<open>log.go\<close>, \<open>bloom9.go\<close>, \<open>derive_sha.go\<close>): round trips of blocks, list roots that
      determine their lists, bloom filters without false negatives.
    \<^item> \<open>State_DB\<close> (\<open>trie/secure_trie.go\<close>, \<open>core/state/database.go\<close>, \<open>state_object.go\<close>, \<open>journal.go\<close>,
      \<open>statedb.go\<close>): the state with its objects, journal, snapshots and commit. \<open>State_Journal\<close>: going back to
      a snapshot restores every query, through nested calls. \<open>State_Root\<close>: the root of the state is the hash
      of a trie with exactly the changed accounts and their storage written.
    \<^item> \<open>Chain_Config\<close> (\<open>params/config.go\<close>, \<open>gas_table.go\<close>): fork rules; the compatibility check ends and
      names the highest block to rewind to.
    \<^item> \<open>Dpos_Context\<close> (\<open>core/types/dpos_context.go\<close>): registrations, votes and withdrawals refine operations on
      a book of candidates and votes, errors included; what removing a candidate leaves behind.
    \<^item> \<open>Epoch_Context\<close> (\<open>consensus/dpos/epoch_context.go\<close>, \<open>api.go\<close>): whom the election elects, that it does
      not depend on the order of iteration, when it fails, that removing inactive validators keeps enough
      candidates, and that slots go round robin. The sorting routine of Go is the locale \<open>sort_order\<close>.
    \<^item> \<open>Dpos_Engine\<close> (\<open>consensus/dpos/dpos.go\<close>), \<open>Dpos_Consensus\<close>: accepted seals are signatures of the owner
      of the slot, confirmation needs a quorum and happens with one, accepted batches of headers are chains,
      minting is in the own slots only, and a field of the header that the seal does not cover.
    \<^item> \<open>Block_Processing\<close> (\<open>Finalize\<close>, and parts of \<open>core/evm.go\<close>, \<open>core/gaspool.go\<close>,
      \<open>core/state_processor.go\<close>, \<open>core/block_validator.go\<close>): the blocks of an epoch are counted for their
      validators and change no other table, and a finalized block has the roots of its effects.

  \<^bold>\<open>Conventions.\<close> Machine integers are words of their width where they can wrap, \<open>*big.Int\<close> is \<open>int\<close>
  (an option where nil matters). Errors are values of a sum type; a panic is \<open>None\<close> or an error of its own.
  State is passed explicitly; pointers that the code shares are one value in the state of the model, and
  nodes of a trie are values. A Go map is a map, or an association list where the code iterates over it.

  \<^bold>\<open>Parameters.\<close> Keccak (\<open>K\<close>, \<open>K512\<close>), signature recovery, the random source of the election, the signature
  cache, the disk and the chain reader are arguments of the definitions. Theorems state what they need
  of them: no collision among the encodings of the tries at hand (\<open>collision_free\<close>) or among the keys in
  use (\<open>inj_on K\<close>); no encoding with the hash of the empty string (\<open>empty_free\<close>); a disk that writes
  batches as a whole (\<open>write_ok\<close>); a cache that returns what was put in (\<open>cache_law\<close>).

  \<^bold>\<open>Fuel and termination.\<close> Most recursions are structural. Reading the trie takes \<open>key_fuel\<close>, one step per
  nibble of the key and one to load a node in between, which is enough for every trie that represents a tree
  (\<open>Trie_Refinement\<close>). Decoders take one more than the length of the input, since every item is shorter than
  the one around it. Dereferencing and committing in the node database take a bound above the rank of the
  root, where children have a smaller rank than their parents. Iterators, the walk of the engine down the chain
  and the compatibility check are \<open>partial_function (option)\<close> or loops that are shown to end.

  \<^bold>\<open>Not modelled.\<close> The virtual machine and \<open>core/state_transition.go\<close> (whose declarations are swallowed by
  comments in this repository), the chain store, the transaction pool, the miner, networking, RPC, wallets,
  tools, the engines Clique and Ethash, Swarm and Whisper; locks and goroutines; JSON and text formats; metrics
  and logging. Cryptography is a parameter.
\<close>

end
